(* ===== verification/Prelude.thy ===== *)
theory Prelude
  imports Main "HOL-Library.Word"
begin

text \<open>
  Shared vocabulary of the development: the machine types of \<^verbatim>\<open>types.h\<close>, the outcome of
  kernel code (a value, or one of the ways kernel code stops), little-endian byte
  encodings of the on-disk and in-memory structures, and the generic lemmas on lists and
  words the component theories use.
\<close>

unbundle bit_operations_syntax

named_theorems byte_simps \<open>reading back bytes of an encoded word or a byte array\<close>
named_theorems res_simps \<open>evaluation of the outcome monad\<close>

section \<open>Machine types\<close>

type_synonym uchar = "8 word"
type_synonym ushort = "16 word"
type_synonym uint = "32 word"
type_synonym bytes = "uchar list"

section \<open>Outcomes of kernel code\<close>

text \<open>
  Kernel code that does not return normally stops in one of four ways: \<open>panic\<close> was
  called, the process went to sleep and nothing in a single-threaded run will wake it, a
  loop does not end, or a pointer outside the object was used (undefined in C).
\<close>

datatype kerr = Panic string | Sleep | Diverge | Fault

type_synonym 'a res = "kerr + 'a"

definition rbind :: "'a res \<Rightarrow> ('a \<Rightarrow> 'b res) \<Rightarrow> 'b res" where
  "rbind m f = (case m of Inl e \<Rightarrow> Inl e | Inr x \<Rightarrow> f x)"

definition guard :: "bool \<Rightarrow> kerr \<Rightarrow> unit res" where
  "guard b e = (if b then Inr () else Inl e)"

lemma rbind_simps [simp, res_simps]:
  "rbind (Inl e) f = Inl e" "rbind (Inr x) f = f x"
  by (simp_all add: rbind_def)

lemma rbind_Inr_iff [simp]: "rbind m f = Inr y \<longleftrightarrow> (\<exists>x. m = Inr x \<and> f x = Inr y)"
  by (cases m) auto

lemma rbind_Inl_iff: "rbind m f = Inl e \<longleftrightarrow> m = Inl e \<or> (\<exists>x. m = Inr x \<and> f x = Inl e)"
  by (cases m) auto

lemma rbind_assoc: "rbind (rbind m f) g = rbind m (\<lambda>x. rbind (f x) g)"
  by (cases m) auto

lemma rbind_cong [fundef_cong]:
  "m = m' \<Longrightarrow> (\<And>x. m' = Inr x \<Longrightarrow> f x = f' x) \<Longrightarrow> rbind m f = rbind m' f'"
  by (cases m') auto

lemma guard_simps [simp, res_simps]:
  "guard True e = Inr ()" "guard False e = Inl e"
  by (simp_all add: guard_def)

lemma guard_Inr_iff [simp]: "guard b e = Inr u \<longleftrightarrow> b"
  by (auto simp: guard_def)

text \<open>A counted loop whose body may fail.\<close>

primrec for_each :: "('a \<Rightarrow> 's \<Rightarrow> 's res) \<Rightarrow> 'a list \<Rightarrow> 's \<Rightarrow> 's res" where
  "for_each f [] s = Inr s"
| "for_each f (x # xs) s = rbind (f x s) (for_each f xs)"

lemma for_each_append: "for_each f (xs @ ys) s = rbind (for_each f xs s) (for_each f ys)"
  by (induction xs arbitrary: s) (auto simp: rbind_assoc intro!: rbind_cong)

text \<open>The rule for counted loops: \<open>I k\<close> holds after \<open>k\<close> rounds.\<close>

lemma for_each_upt:
  assumes "I 0 s" and "\<And>k s. k < n \<Longrightarrow> I k s \<Longrightarrow> \<exists>s'. f k s = Inr s' \<and> I (Suc k) s'"
  shows "\<exists>s'. for_each f [0..<n] s = Inr s' \<and> I n s'"
  using assms(2)
proof (induction n)
  case 0
  then show ?case using assms(1) by simp
next
  case (Suc n)
  then obtain s' where "for_each f [0..<n] s = Inr s'" "I n s'"
    by (meson less_SucI)
  moreover obtain s'' where "f n s' = Inr s''" "I (Suc n) s''"
    using Suc.prems [of n s'] \<open>I n s'\<close> by blast
  ultimately show ?case
    by (simp add: for_each_append)
qed

section \<open>Little-endian words\<close>

definition byte_of :: "nat \<Rightarrow> 'a::len word \<Rightarrow> uchar" where
  "byte_of k w = ucast (drop_bit (8 * k) w)"

definition mk16 :: "uchar \<Rightarrow> uchar \<Rightarrow> ushort" where
  "mk16 a b = ucast a OR push_bit 8 (ucast b)"

definition mk32 :: "uchar \<Rightarrow> uchar \<Rightarrow> uchar \<Rightarrow> uchar \<Rightarrow> uint" where
  "mk32 a b c d =
     ucast a OR push_bit 8 (ucast b) OR push_bit 16 (ucast c) OR push_bit 24 (ucast d)"

lemma mk16_byte_of [byte_simps, simp]: "mk16 (byte_of 0 w) (byte_of (Suc 0) w) = w"
  by (rule bit_word_eqI)
    (auto simp: mk16_def byte_of_def bit_or_iff bit_push_bit_iff bit_word_ucast_iff bit_drop_bit_eq)

lemma mk32_byte_of [byte_simps, simp]:
  "mk32 (byte_of 0 w) (byte_of (Suc 0) w) (byte_of 2 w) (byte_of 3 w) = w"
proof (rule bit_word_eqI)
  fix n assume "n < LENGTH(32)"
  then consider "n < 8" | "8 \<le> n" "n < 16" | "16 \<le> n" "n < 24" | "24 \<le> n" "n < 32"
    by fastforce
  then show "bit (mk32 (byte_of 0 w) (byte_of (Suc 0) w) (byte_of 2 w) (byte_of 3 w)) n = bit w n"
    by cases (auto simp: mk32_def byte_of_def bit_or_iff bit_push_bit_iff bit_word_ucast_iff
      bit_drop_bit_eq)
qed

lemma byte_of_mk16 [byte_simps, simp]:
  "byte_of 0 (mk16 a b) = a" "byte_of (Suc 0) (mk16 a b) = b"
  by (rule bit_word_eqI;
      auto simp: mk16_def byte_of_def bit_or_iff bit_push_bit_iff bit_word_ucast_iff bit_drop_bit_eq
        dest: bit_imp_le_length)+

lemma byte_of_mk32 [byte_simps, simp]:
  "byte_of 0 (mk32 a b c d) = a" "byte_of (Suc 0) (mk32 a b c d) = b"
  "byte_of 2 (mk32 a b c d) = c" "byte_of 3 (mk32 a b c d) = d"
  by (rule bit_word_eqI;
      auto simp: mk32_def byte_of_def bit_or_iff bit_push_bit_iff bit_word_ucast_iff bit_drop_bit_eq
        dest: bit_imp_le_length)+

subsection \<open>Words inside byte arrays\<close>

definition get16 :: "bytes \<Rightarrow> nat \<Rightarrow> ushort" where
  "get16 bs o1 = mk16 (bs ! o1) (bs ! (o1 + 1))"

definition get32 :: "bytes \<Rightarrow> nat \<Rightarrow> uint" where
  "get32 bs o1 = mk32 (bs ! o1) (bs ! (o1 + 1)) (bs ! (o1 + 2)) (bs ! (o1 + 3))"

definition put16 :: "bytes \<Rightarrow> nat \<Rightarrow> ushort \<Rightarrow> bytes" where
  "put16 bs o1 w = bs[o1 := byte_of 0 w, o1 + 1 := byte_of 1 w]"

definition put32 :: "bytes \<Rightarrow> nat \<Rightarrow> uint \<Rightarrow> bytes" where
  "put32 bs o1 w =
     bs[o1 := byte_of 0 w, o1 + 1 := byte_of 1 w, o1 + 2 := byte_of 2 w, o1 + 3 := byte_of 3 w]"

lemma length_put16 [simp]: "length (put16 bs o1 w) = length bs"
  by (simp add: put16_def)

lemma length_put32 [simp]: "length (put32 bs o1 w) = length bs"
  by (simp add: put32_def)

lemma nth_put16_other: "i < o1 \<or> o1 + 2 \<le> i \<Longrightarrow> put16 bs o1 w ! i = bs ! i"
  by (auto simp: put16_def)

lemma nth_put32_other: "i < o1 \<or> o1 + 4 \<le> i \<Longrightarrow> put32 bs o1 w ! i = bs ! i"
  by (auto simp: put32_def)

lemma get16_put16 [byte_simps, simp]: "o1 + 2 \<le> length bs \<Longrightarrow> get16 (put16 bs o1 w) o1 = w"
  by (simp add: get16_def put16_def)

lemma get32_put32 [byte_simps, simp]: "o1 + 4 \<le> length bs \<Longrightarrow> get32 (put32 bs o1 w) o1 = w"
  by (simp add: get32_def put32_def)

lemma get32_put32_other [byte_simps, simp]:
  "p + 4 \<le> o1 \<or> o1 + 4 \<le> p \<Longrightarrow> get32 (put32 bs o1 w) p = get32 bs p"
  by (auto simp: get32_def nth_put32_other)

lemma get16_put16_other [byte_simps, simp]:
  "p + 2 \<le> o1 \<or> o1 + 2 \<le> p \<Longrightarrow> get16 (put16 bs o1 w) p = get16 bs p"
  by (auto simp: get16_def nth_put16_other)

lemma get16_put32_other [byte_simps, simp]:
  "p + 2 \<le> o1 \<or> o1 + 4 \<le> p \<Longrightarrow> get16 (put32 bs o1 w) p = get16 bs p"
  by (auto simp: get16_def nth_put32_other)

lemma get32_put16_other [byte_simps, simp]:
  "p + 4 \<le> o1 \<or> o1 + 2 \<le> p \<Longrightarrow> get32 (put16 bs o1 w) p = get32 bs p"
  by (auto simp: get32_def nth_put16_other)

subsection \<open>Copying into a byte array\<close>

definition blit :: "bytes \<Rightarrow> nat \<Rightarrow> bytes \<Rightarrow> bytes" where
  "blit dst o1 src = take o1 dst @ src @ drop (o1 + length src) dst"

lemma length_blit [simp]: "o1 + length src \<le> length dst \<Longrightarrow> length (blit dst o1 src) = length dst"
  by (simp add: blit_def)

lemma nth_blit:
  "o1 + length src \<le> length dst \<Longrightarrow> i < length dst \<Longrightarrow>
     blit dst o1 src ! i = (if o1 \<le> i \<and> i < o1 + length src then src ! (i - o1) else dst ! i)"
  by (auto simp: blit_def nth_append min_def)

lemma blit_all [simp]: "length src = length dst \<Longrightarrow> blit dst 0 src = src"
  by (simp add: blit_def)

section \<open>Words as bounded naturals\<close>

lemma unat_of_nat_small: "n < 2 ^ LENGTH('a) \<Longrightarrow> unat (of_nat n :: 'a::len word) = n"
  by (simp add: unat_of_nat)

lemma unat_of_nat_uint [simp]: "n < 4294967296 \<Longrightarrow> unat (of_nat n :: uint) = n"
  by (simp add: unat_of_nat)

lemma unat_plus_small:
  "unat a + unat b < 2 ^ LENGTH('a) \<Longrightarrow> unat (a + b :: 'a::len word) = unat a + unat b"
  by (simp add: unat_word_ariths)

lemma unat_uint_lt [simp]: "unat (w :: uint) < 4294967296"
  using unsigned_less [of w, where ?'a = nat] by simp

lemma unat_and_mask: "unat (a AND mask n :: 'a::len word) = unat a mod 2 ^ n"
  by (simp flip: take_bit_eq_mask add: unsigned_take_bit_eq) (simp add: take_bit_eq_mod)

lemma sint_of_nat_small: "n < 2147483648 \<Longrightarrow> sint (of_nat n :: uint) = int n"
  by (simp add: signed_of_nat signed_take_bit_int_eq_self)

lemma of_nat_uint_eq: "x < 4294967296 \<Longrightarrow> y < 4294967296 \<Longrightarrow> (of_nat x :: uint) = of_nat y \<longleftrightarrow> x = y"
  by (metis unat_of_nat_uint)

end
