(* ===== verification/Spinlock.thy ===== *)
theory Spinlock
  imports Prelude
begin

text \<open>
  \<^verbatim>\<open>spinlock.c\<close> and the processor lookup of \<^verbatim>\<open>proc.c\<close>: the per-processor interrupt
  nesting counter (\<open>pushcli\<close>, \<open>popcli\<close>), the lock operations built on it, and the
  interleaving of any number of processors running \<open>acquire\<close> and \<open>release\<close> on one
  lock as a step relation whose atomic steps are the code's own memory operations.
\<close>

section \<open>Processors\<close>

text \<open>
  The fields of \<^verbatim>\<open>struct cpu\<close> the kernel's C code reads or writes: \<open>cproc\<close> is the
  process the processor runs (a slot of the process table), the last three the task-state
  fields set by \<^verbatim>\<open>switchuvm\<close>. The interrupt flag is a bit of the processor's own
  \<^verbatim>\<open>eflags\<close> register and \<open>cr3\<close> its page-table register, so both are indexed by the local
  APIC id of the processor that runs the code.
\<close>

record cpu =
  apicid :: uchar
  ncli :: int
  intena :: bool
  cproc :: "nat option"
  ts_ss0 :: ushort
  ts_esp0 :: uint
  ts_iomb :: ushort

record machine =
  cpus :: "cpu list"
  eflags_if :: "uchar \<Rightarrow> bool"
  cr3 :: "uchar \<Rightarrow> uint"

definition mycpu :: "uchar \<Rightarrow> machine \<Rightarrow> nat res" where
  "mycpu lapicid m =
     (if eflags_if m lapicid then Inl (Panic ''mycpu called with interrupts enabled'')
      else case find (\<lambda>i. apicid (cpus m ! i) = lapicid) [0..<length (cpus m)] of
             Some i \<Rightarrow> Inr i
           | None \<Rightarrow> Inl (Panic ''unknown apicid''))"

definition cpu_upd :: "nat \<Rightarrow> (cpu \<Rightarrow> cpu) \<Rightarrow> machine \<Rightarrow> machine" where
  "cpu_upd i f m = m\<lparr>cpus := (cpus m)[i := f (cpus m ! i)]\<rparr>"

definition set_if :: "uchar \<Rightarrow> bool \<Rightarrow> machine \<Rightarrow> machine" where
  "set_if a b m = m\<lparr>eflags_if := (eflags_if m)(a := b)\<rparr>"

definition pushcli :: "uchar \<Rightarrow> machine \<Rightarrow> machine res" where
  "pushcli a m =
     (let eflags = eflags_if m a; m1 = set_if a False m in
      rbind (mycpu a m1) (\<lambda>i.
        let m2 = (if ncli (cpus m1 ! i) = 0 then cpu_upd i (\<lambda>c. c\<lparr>intena := eflags\<rparr>) m1 else m1)
        in Inr (cpu_upd i (\<lambda>c. c\<lparr>ncli := ncli c + 1\<rparr>) m2)))"

definition popcli :: "uchar \<Rightarrow> machine \<Rightarrow> machine res" where
  "popcli a m =
     (if eflags_if m a then Inl (Panic ''popcli - interruptible'')
      else rbind (mycpu a m) (\<lambda>i.
        let m1 = cpu_upd i (\<lambda>c. c\<lparr>ncli := ncli c - 1\<rparr>) m in
        if ncli (cpus m1 ! i) < 0 then Inl (Panic ''popcli'')
        else if ncli (cpus m1 ! i) = 0 \<and> intena (cpus m1 ! i) then Inr (set_if a True m1)
        else Inr m1))"

section \<open>The lock\<close>

record spinlock =
  locked :: uint
  lname :: string
  lcpu :: "nat option"
  pcs :: "uint list"

definition initlock :: "spinlock \<Rightarrow> string \<Rightarrow> spinlock" where
  "initlock lk name = lk\<lparr>lname := name, locked := 0, lcpu := None\<rparr>"

definition KERNBASE :: uint where "KERNBASE = 0x80000000"

text \<open>
  Walking the saved frame pointers: \<open>rd\<close> reads a word of kernel memory. The walk stops
  at the first frame pointer outside the kernel and the remaining entries are zeroed.
\<close>

fun callerpcs :: "(uint \<Rightarrow> uint) \<Rightarrow> nat \<Rightarrow> uint \<Rightarrow> uint list" where
  "callerpcs rd 0 ebp = []"
| "callerpcs rd (Suc n) ebp =
     (if ebp = 0 \<or> ebp < KERNBASE \<or> ebp = 0xffffffff then replicate (Suc n) 0
      else rd (ebp + 4) # callerpcs rd n (rd ebp))"

definition getcallerpcs :: "(uint \<Rightarrow> uint) \<Rightarrow> uint \<Rightarrow> uint list" where
  "getcallerpcs rd v = callerpcs rd 10 (v - 8)"

definition holding :: "uchar \<Rightarrow> spinlock \<Rightarrow> machine \<Rightarrow> (bool \<times> machine) res" where
  "holding a lk m =
     rbind (pushcli a m) (\<lambda>m1.
     rbind (mycpu a m1) (\<lambda>i.
       let r = (locked lk \<noteq> 0 \<and> lcpu lk = Some i) in
     rbind (popcli a m1) (\<lambda>m2. Inr (r, m2))))"

text \<open>
  \<open>acquire\<close> in the order of the source: interrupts off and the recursion check, the
  atomic exchange, and the debugging record. \<open>release\<close> likewise: the ownership check
  and the cleared record, the atomic store, and \<open>popcli\<close>.
\<close>

definition acquire_enter :: "uchar \<Rightarrow> spinlock \<Rightarrow> machine \<Rightarrow> machine res" where
  "acquire_enter a lk m =
     rbind (pushcli a m) (\<lambda>m1.
     rbind (holding a lk m1) (\<lambda>(r, m2).
       if r then Inl (Panic ''acquire'') else Inr m2))"

definition xchg_lock :: "spinlock \<Rightarrow> uint \<times> spinlock" where
  "xchg_lock lk = (locked lk, lk\<lparr>locked := 1\<rparr>)"

definition acquire_record ::
  "(uint \<Rightarrow> uint) \<Rightarrow> uint \<Rightarrow> uchar \<Rightarrow> spinlock \<Rightarrow> machine \<Rightarrow> spinlock res" where
  "acquire_record rd v a lk m =
     rbind (mycpu a m) (\<lambda>i. Inr (lk\<lparr>lcpu := Some i, pcs := getcallerpcs rd v\<rparr>))"

definition release_enter :: "uchar \<Rightarrow> spinlock \<Rightarrow> machine \<Rightarrow> (spinlock \<times> machine) res" where
  "release_enter a lk m =
     rbind (holding a lk m) (\<lambda>(r, m1).
       if \<not> r then Inl (Panic ''release'')
       else Inr (lk\<lparr>pcs := (pcs lk)[0 := 0], lcpu := None\<rparr>, m1))"

definition store_unlock :: "spinlock \<Rightarrow> spinlock" where
  "store_unlock lk = lk\<lparr>locked := 0\<rparr>"

definition acquire ::
  "(uint \<Rightarrow> uint) \<Rightarrow> uint \<Rightarrow> uchar \<Rightarrow> spinlock \<Rightarrow> machine \<Rightarrow> (spinlock \<times> machine) res" where
  "acquire rd v a lk m =
     rbind (acquire_enter a lk m) (\<lambda>m1.
       let (old, lk1) = xchg_lock lk in
       if old \<noteq> 0 then Inl Diverge
       else rbind (acquire_record rd v a lk1 m1) (\<lambda>lk2. Inr (lk2, m1)))"

definition release :: "uchar \<Rightarrow> spinlock \<Rightarrow> machine \<Rightarrow> (spinlock \<times> machine) res" where
  "release a lk m =
     rbind (release_enter a lk m) (\<lambda>(lk1, m1).
     rbind (popcli a m1) (\<lambda>m2. Inr (store_unlock lk1, m2)))"

section \<open>Interrupt nesting\<close>

definition wf_cpus :: "machine \<Rightarrow> bool" where
  "wf_cpus m \<longleftrightarrow> distinct (map apicid (cpus m))"

definition cpu_ok :: "nat \<Rightarrow> machine \<Rightarrow> bool" where
  "cpu_ok i m \<longleftrightarrow> i < length (cpus m) \<and> 0 \<le> ncli (cpus m ! i) \<and>
     (0 < ncli (cpus m ! i) \<longrightarrow> \<not> eflags_if m (apicid (cpus m ! i)))"

lemma find_upt_Some:
  assumes "j < n" and "P j" and uniq: "\<And>i. i < n \<Longrightarrow> P i \<Longrightarrow> i = j"
  shows "find P [0..<n] = Some j"
proof -
  have "\<forall>i<j. \<not> P i" using uniq assms(1) by (metis less_irrefl less_trans)
  then show ?thesis using assms(1,2) by (subst find_Some_iff) force
qed

lemma mycpu_self:
  assumes "wf_cpus m" and "i < length (cpus m)" and "a = apicid (cpus m ! i)"
    and "\<not> eflags_if m a"
  shows "mycpu a m = Inr i"
proof -
  have "find (\<lambda>k. apicid (cpus m ! k) = a) [0..<length (cpus m)] = Some i"
    using assms(1-3) by (intro find_upt_Some) (auto simp: wf_cpus_def distinct_conv_nth)
  with assms(4) show ?thesis by (simp add: mycpu_def)
qed

lemma cpus_cpu_upd [simp]: "cpus (cpu_upd i f m) = (cpus m)[i := f (cpus m ! i)]"
  by (simp add: cpu_upd_def)

lemma eflags_cpu_upd [simp]: "eflags_if (cpu_upd i f m) = eflags_if m"
  by (simp add: cpu_upd_def)

lemma cpus_set_if [simp]: "cpus (set_if a b m) = cpus m"
  by (simp add: set_if_def)

lemma eflags_set_if [simp]: "eflags_if (set_if a b m) = (eflags_if m)(a := b)"
  by (simp add: set_if_def)

lemma wf_cpu_upd:
  assumes "\<And>c. apicid (f c) = apicid c"
  shows "wf_cpus (cpu_upd i f m) = wf_cpus m"
proof -
  have "map apicid ((cpus m)[i := f (cpus m ! i)]) = map apicid (cpus m)"
    using assms by (cases "i < length (cpus m)") (simp_all add: map_update list_update_beyond list_update_same_conv)
  then show ?thesis by (simp add: wf_cpus_def)
qed

lemma wf_set_if [simp]: "wf_cpus (set_if a b m) = wf_cpus m"
  by (simp add: wf_cpus_def)


lemma pushcli_run:
  assumes "wf_cpus m" and "i < length (cpus m)" and "a = apicid (cpus m ! i)"
  shows "pushcli a m = Inr (cpu_upd i (\<lambda>c. c\<lparr>intena := (if ncli c = 0 then eflags_if m a else intena c),
     ncli := ncli c + 1\<rparr>) (set_if a False m))"
proof -
  have "mycpu a (set_if a False m) = Inr i"
    using assms by (intro mycpu_self) auto
  with assms(2) show ?thesis
    by (simp add: pushcli_def Let_def cpu_upd_def set_if_def)
qed

lemma popcli_run:
  assumes "wf_cpus m" and "i < length (cpus m)" and "a = apicid (cpus m ! i)"
    and "\<not> eflags_if m a" and "0 < ncli (cpus m ! i)"
  shows "popcli a m = Inr (cpu_upd i (\<lambda>c. c\<lparr>ncli := ncli c - 1\<rparr>)
     (if ncli (cpus m ! i) = 1 \<and> intena (cpus m ! i) then set_if a True m else m))"
proof -
  have "mycpu a m = Inr i"
    using assms by (intro mycpu_self) auto
  with assms show ?thesis
    by (auto simp: popcli_def Let_def cpu_upd_def set_if_def)
qed

lemma push_pop_id:
  assumes "wf_cpus m" and "i < length (cpus m)" and "a = apicid (cpus m ! i)"
    and "\<not> eflags_if m a" and "0 < ncli (cpus m ! i)"
  shows "rbind (pushcli a m) (popcli a) = Inr m"
proof -
  let ?m = "cpu_upd i (\<lambda>c. c\<lparr>intena := (if ncli c = 0 then eflags_if m a else intena c),
     ncli := ncli c + 1\<rparr>) (set_if a False m)"
  have "popcli a ?m = Inr (cpu_upd i (\<lambda>c. c\<lparr>ncli := ncli c - 1\<rparr>) ?m)"
    using assms by (subst popcli_run [of _ i]) (auto simp: wf_cpu_upd)
  also have "cpu_upd i (\<lambda>c. c\<lparr>ncli := ncli c - 1\<rparr>) ?m = m"
    using assms by (cases m; cases "cpus m ! i") (simp add: cpu_upd_def set_if_def fun_upd_idem list_update_same_conv)
  finally show ?thesis by (simp only: pushcli_run [OF assms(1-3)] rbind_simps)
qed

subsection \<open>Sequences of pushes and pops\<close>

datatype cliop = Push | Pop

fun run_cli :: "uchar \<Rightarrow> cliop list \<Rightarrow> machine \<Rightarrow> machine res" where
  "run_cli a [] m = Inr m"
| "run_cli a (Push # ops) m = rbind (pushcli a m) (run_cli a ops)"
| "run_cli a (Pop # ops) m = rbind (popcli a m) (run_cli a ops)"

fun cli_depth :: "cliop list \<Rightarrow> nat \<Rightarrow> nat option" where
  "cli_depth [] d = Some d"
| "cli_depth (Push # ops) d = cli_depth ops (Suc d)"
| "cli_depth (Pop # ops) d = (case d of 0 \<Rightarrow> None | Suc d' \<Rightarrow> cli_depth ops d')"

definition nested :: "nat \<Rightarrow> uchar \<Rightarrow> bool \<Rightarrow> nat \<Rightarrow> machine \<Rightarrow> bool" where
  "nested i a if0 d m \<longleftrightarrow> wf_cpus m \<and> i < length (cpus m) \<and> apicid (cpus m ! i) = a \<and>
     ncli (cpus m ! i) = int d \<and>
     (if d = 0 then eflags_if m a = if0 else \<not> eflags_if m a \<and> intena (cpus m ! i) = if0)"

lemma nested_push: "nested i a if0 d m \<Longrightarrow> \<exists>m'. pushcli a m = Inr m' \<and> nested i a if0 (Suc d) m'"
  by (auto simp: nested_def pushcli_run wf_cpu_upd split: if_splits)

lemma nested_pop: "nested i a if0 (Suc d) m \<Longrightarrow> \<exists>m'. popcli a m = Inr m' \<and> nested i a if0 d m'"
  by (auto simp: nested_def popcli_run [of m i] wf_cpu_upd)

lemma nested_run:
  "nested i a if0 d m \<Longrightarrow> cli_depth ops d = Some d' \<Longrightarrow>
     \<exists>m'. run_cli a ops m = Inr m' \<and> nested i a if0 d' m'"
proof (induction ops arbitrary: d m)
  case Nil
  then show ?case by simp
next
  case (Cons op ops)
  show ?case
  proof (cases op)
    case Push
    with Cons nested_push [OF Cons.prems(1)] show ?thesis by fastforce
  next
    case Pop
    with Cons.prems(2) obtain e where e: "d = Suc e" "cli_depth ops e = Some d'"
      by (auto split: nat.splits)
    with Cons nested_pop [of i a if0 e m] Pop show ?thesis by fastforce
  qed
qed


section \<open>Processors contending for one lock\<close>

text \<open>
  Where a processor stands in the locking code: outside, spinning on the exchange, holding
  the lock before its record is written, inside the critical section, past the ownership
  check of \<open>release\<close>, and past the unlocking store.
\<close>

datatype lpc = Outside | Spinning | Acquired | Critical | Releasing | Unlocked

record lsys =
  lpcs :: "nat \<Rightarrow> lpc"
  lk :: spinlock
  mach :: machine

definition lapic_of :: "lsys \<Rightarrow> nat \<Rightarrow> uchar" where
  "lapic_of s c = apicid (cpus (mach s) ! c)"

inductive lock_step :: "(uint \<Rightarrow> uint) \<Rightarrow> uint \<Rightarrow> lsys \<Rightarrow> lsys \<Rightarrow> bool" for rd v where
  enter: "c < length (cpus (mach s)) \<Longrightarrow> lpcs s c = Outside \<Longrightarrow>
     acquire_enter (lapic_of s c) (lk s) (mach s) = Inr m \<Longrightarrow>
     lock_step rd v s (s\<lparr>lpcs := (lpcs s)(c := Spinning), mach := m\<rparr>)"
| spin: "c < length (cpus (mach s)) \<Longrightarrow> lpcs s c = Spinning \<Longrightarrow>
     xchg_lock (lk s) = (old, l) \<Longrightarrow> old \<noteq> 0 \<Longrightarrow>
     lock_step rd v s (s\<lparr>lk := l\<rparr>)"
| win: "c < length (cpus (mach s)) \<Longrightarrow> lpcs s c = Spinning \<Longrightarrow>
     xchg_lock (lk s) = (0, l) \<Longrightarrow>
     lock_step rd v s (s\<lparr>lpcs := (lpcs s)(c := Acquired), lk := l\<rparr>)"
| record_owner: "c < length (cpus (mach s)) \<Longrightarrow> lpcs s c = Acquired \<Longrightarrow>
     acquire_record rd v (lapic_of s c) (lk s) (mach s) = Inr l \<Longrightarrow>
     lock_step rd v s (s\<lparr>lpcs := (lpcs s)(c := Critical), lk := l\<rparr>)"
| check_owner: "c < length (cpus (mach s)) \<Longrightarrow> lpcs s c = Critical \<Longrightarrow>
     release_enter (lapic_of s c) (lk s) (mach s) = Inr (l, m) \<Longrightarrow>
     lock_step rd v s (s\<lparr>lpcs := (lpcs s)(c := Releasing), lk := l, mach := m\<rparr>)"
| unlock: "c < length (cpus (mach s)) \<Longrightarrow> lpcs s c = Releasing \<Longrightarrow>
     lock_step rd v s (s\<lparr>lpcs := (lpcs s)(c := Unlocked), lk := store_unlock (lk s)\<rparr>)"
| leave: "c < length (cpus (mach s)) \<Longrightarrow> lpcs s c = Unlocked \<Longrightarrow>
     popcli (lapic_of s c) (mach s) = Inr m \<Longrightarrow>
     lock_step rd v s (s\<lparr>lpcs := (lpcs s)(c := Outside), mach := m\<rparr>)"

definition lock_init :: "lsys \<Rightarrow> bool" where
  "lock_init s \<longleftrightarrow> lpcs s = (\<lambda>_. Outside) \<and> locked (lk s) = 0 \<and> lcpu (lk s) = None \<and>
     wf_cpus (mach s) \<and> (\<forall>c \<in> set (cpus (mach s)). ncli c = 0)"

inductive lock_reach :: "(uint \<Rightarrow> uint) \<Rightarrow> uint \<Rightarrow> lsys \<Rightarrow> bool" for rd v where
  start: "lock_init s \<Longrightarrow> lock_reach rd v s"
| step: "lock_reach rd v s \<Longrightarrow> lock_step rd v s t \<Longrightarrow> lock_reach rd v t"

definition owns :: "lpc \<Rightarrow> bool" where
  "owns p \<longleftrightarrow> p = Acquired \<or> p = Critical \<or> p = Releasing"

definition mach_inv :: "(nat \<Rightarrow> lpc) \<Rightarrow> machine \<Rightarrow> bool" where
  "mach_inv ps m \<longleftrightarrow> wf_cpus m \<and> (\<forall>c < length (cpus m).
     if ps c = Outside then ncli (cpus m ! c) = 0
     else ncli (cpus m ! c) = 1 \<and> \<not> eflags_if m (apicid (cpus m ! c)))"

definition lock_inv :: "lsys \<Rightarrow> bool" where
  "lock_inv s \<longleftrightarrow> mach_inv (lpcs s) (mach s) \<and>
     (\<forall>c. owns (lpcs s c) \<longrightarrow> c < length (cpus (mach s))) \<and>
     (\<forall>c d. owns (lpcs s c) \<longrightarrow> owns (lpcs s d) \<longrightarrow> c = d) \<and>
     (locked (lk s) \<noteq> 0 \<longleftrightarrow> (\<exists>c. owns (lpcs s c))) \<and>
     (\<forall>c. lcpu (lk s) = Some c \<longleftrightarrow> lpcs s c = Critical)"

lemma owns_simps [simp]:
  "owns Acquired" "owns Critical" "owns Releasing"
  "\<not> owns Outside" "\<not> owns Spinning" "\<not> owns Unlocked"
  by (simp_all add: owns_def)

lemma holding_run:
  assumes "wf_cpus m" and "i < length (cpus m)" and "a = apicid (cpus m ! i)"
    and "\<not> eflags_if m a" and "0 < ncli (cpus m ! i)"
  shows "holding a l m = Inr (locked l \<noteq> 0 \<and> lcpu l = Some i, m)"
proof -
  obtain m1 where m1: "pushcli a m = Inr m1" and "popcli a m1 = Inr m"
    using push_pop_id [OF assms] by auto
  moreover have "mycpu a m1 = Inr i"
    using m1 assms by (auto simp: pushcli_run [of m i] wf_cpu_upd intro!: mycpu_self)
  ultimately show ?thesis by (simp add: holding_def)
qed

lemma acquire_enter_run:
  assumes "wf_cpus m" and "i < length (cpus m)" and "a = apicid (cpus m ! i)"
    and "ncli (cpus m ! i) = 0" and "lcpu l \<noteq> Some i"
  shows "\<exists>m'. acquire_enter a l m = Inr m' \<and> pushcli a m = Inr m'"
proof -
  obtain m1 where m1: "pushcli a m = Inr m1"
      "m1 = cpu_upd i (\<lambda>c. c\<lparr>intena := (if ncli c = 0 then eflags_if m a else intena c),
        ncli := ncli c + 1\<rparr>) (set_if a False m)"
    using pushcli_run [OF assms(1-3)] by blast
  have "holding a l m1 = Inr (locked l \<noteq> 0 \<and> lcpu l = Some i, m1)"
    by (rule holding_run) (use m1(2) assms in \<open>auto simp: wf_cpu_upd\<close>)
  with m1(1) assms(5) show ?thesis by (simp add: acquire_enter_def)
qed

lemma mach_inv_step:
  assumes "mach_inv ps m" and "c < length (cpus m)"
    and "wf_cpus m'" and "map apicid (cpus m') = map apicid (cpus m)"
    and "\<And>d. d < length (cpus m) \<Longrightarrow> d \<noteq> c \<Longrightarrow> cpus m' ! d = cpus m ! d"
    and "\<And>b. b \<noteq> apicid (cpus m ! c) \<Longrightarrow> eflags_if m' b = eflags_if m b"
    and "if p = Outside then ncli (cpus m' ! c) = 0
         else ncli (cpus m' ! c) = 1 \<and> \<not> eflags_if m' (apicid (cpus m ! c))"
  shows "mach_inv (ps(c := p)) m'"
proof -
  have len: "length (cpus m') = length (cpus m)"
    using assms(4) by (metis length_map)
  have ap: "apicid (cpus m' ! d) = apicid (cpus m ! d)" if "d < length (cpus m)" for d
    using assms(4) that len by (metis nth_map)
  have ne: "apicid (cpus m ! d) \<noteq> apicid (cpus m ! c)" if "d < length (cpus m)" "d \<noteq> c" for d
    using assms(1,2) that by (auto simp: mach_inv_def wf_cpus_def distinct_conv_nth)
  show ?thesis
    using assms len ap ne by (simp add: mach_inv_def)
qed


lemma push_mach:
  assumes inv: "mach_inv ps m" and c: "c < length (cpus m)" and "ps c = Outside"
    and push: "pushcli (apicid (cpus m ! c)) m = Inr m'"
  shows "mach_inv (ps(c := Spinning)) m'" "length (cpus m') = length (cpus m)"
proof -
  let ?a = "apicid (cpus m ! c)"
  have wf: "wf_cpus m" and n: "ncli (cpus m ! c) = 0"
    using inv c assms(3) by (auto simp: mach_inv_def)
  have m': "m' = cpu_upd c (\<lambda>c. c\<lparr>intena := (if ncli c = 0 then eflags_if m ?a else intena c),
      ncli := ncli c + 1\<rparr>) (set_if ?a False m)"
    using push pushcli_run [OF wf c refl] by simp
  then show "length (cpus m') = length (cpus m)" by simp
  show "mach_inv (ps(c := Spinning)) m'"
    by (rule mach_inv_step [OF inv c])
      (use wf c n in \<open>auto simp: m' wf_cpu_upd map_update list_update_same_conv\<close>)
qed

lemma pop_mach:
  assumes inv: "mach_inv ps m" and c: "c < length (cpus m)" and "ps c = Unlocked"
  shows "\<exists>m'. popcli (apicid (cpus m ! c)) m = Inr m' \<and> mach_inv (ps(c := Outside)) m' \<and>
     length (cpus m') = length (cpus m)"
proof -
  let ?a = "apicid (cpus m ! c)"
  have wf: "wf_cpus m" and n: "ncli (cpus m ! c) = 1" "\<not> eflags_if m ?a"
    using inv c assms(3) by (auto simp: mach_inv_def)
  let ?m = "cpu_upd c (\<lambda>c. c\<lparr>ncli := ncli c - 1\<rparr>)
     (if ncli (cpus m ! c) = 1 \<and> intena (cpus m ! c) then set_if ?a True m else m)"
  have "popcli ?a m = Inr ?m"
    using popcli_run [OF wf c refl] n by simp
  moreover have "mach_inv (ps(c := Outside)) ?m"
    by (rule mach_inv_step [OF inv c])
      (use wf c n in \<open>auto simp: wf_cpu_upd map_update list_update_same_conv\<close>)
  ultimately show ?thesis by auto
qed

lemma mach_inv_swap:
  "mach_inv ps m \<Longrightarrow> c < length (cpus m) \<Longrightarrow> ps c \<noteq> Outside \<Longrightarrow> p \<noteq> Outside \<Longrightarrow> mach_inv (ps(c := p)) m"
  by (auto simp: mach_inv_def)

lemma mach_inv_self:
  assumes "mach_inv ps m" and "c < length (cpus m)" and "ps c \<noteq> Outside"
  shows "mycpu (apicid (cpus m ! c)) m = Inr c"
    and "holding (apicid (cpus m ! c)) l m = Inr (locked l \<noteq> 0 \<and> lcpu l = Some c, m)"
  using assms by (auto simp: mach_inv_def intro!: mycpu_self holding_run)

lemma lock_inv_step:
  assumes "lock_step rd v s t" and "lock_inv s"
  shows "lock_inv t"
  using assms
proof (induction rule: lock_step.induct)
  case (enter c s m)
  then have mi: "mach_inv (lpcs s) (mach s)" and nc: "lcpu (lk s) \<noteq> Some c"
    by (auto simp: lock_inv_def)
  have "ncli (cpus (mach s) ! c) = 0" "wf_cpus (mach s)"
    using mi enter by (auto simp: mach_inv_def)
  then have "pushcli (lapic_of s c) (mach s) = Inr m"
    using acquire_enter_run [of "mach s" c "lapic_of s c" "lk s"] enter(1,3) nc
    by (auto simp: lapic_of_def)
  then have "mach_inv ((lpcs s)(c := Spinning)) m" "length (cpus m) = length (cpus (mach s))"
    using push_mach [OF mi enter(1,2)] by (auto simp: lapic_of_def)
  with enter show ?case by (auto simp: lock_inv_def) (metis owns_simps(4))
next
  case (spin c s old l)
  then show ?case by (auto simp: lock_inv_def xchg_lock_def)
next
  case (win c s l)
  then have "mach_inv ((lpcs s)(c := Acquired)) (mach s)"
    by (intro mach_inv_swap) (auto simp: lock_inv_def)
  with win show ?case by (auto simp: lock_inv_def xchg_lock_def)
next
  case (record_owner c s l)
  then have "mach_inv ((lpcs s)(c := Critical)) (mach s)"
    by (intro mach_inv_swap) (auto simp: lock_inv_def)
  moreover have "mycpu (lapic_of s c) (mach s) = Inr c"
    using record_owner by (auto simp: lapic_of_def lock_inv_def intro!: mach_inv_self(1))
  ultimately show ?case
    using record_owner by (auto simp: lock_inv_def acquire_record_def) (metis owns_simps(1))
next
  case (check_owner c s l m)
  have h: "holding (lapic_of s c) (lk s) (mach s) = Inr (locked (lk s) \<noteq> 0 \<and> lcpu (lk s) = Some c, mach s)"
    unfolding lapic_of_def
    by (rule mach_inv_self(2) [of "lpcs s"]) (use check_owner in \<open>auto simp: lock_inv_def\<close>)
  then have "m = mach s" "l = (lk s)\<lparr>pcs := (pcs (lk s))[0 := 0], lcpu := None\<rparr>"
    using check_owner(3) by (auto simp: release_enter_def split: if_splits)
  moreover have "mach_inv ((lpcs s)(c := Releasing)) (mach s)"
    using check_owner by (intro mach_inv_swap) (auto simp: lock_inv_def)
  ultimately show ?case
    using check_owner by (auto simp: lock_inv_def) (metis owns_simps(2))
next
  case (unlock c s)
  then have "mach_inv ((lpcs s)(c := Unlocked)) (mach s)"
    by (intro mach_inv_swap) (auto simp: lock_inv_def)
  with unlock show ?case by (auto simp: lock_inv_def store_unlock_def)
next
  case (leave c s m)
  then have "mach_inv ((lpcs s)(c := Outside)) m" "length (cpus m) = length (cpus (mach s))"
    using pop_mach [of "lpcs s" "mach s" c] by (auto simp: lapic_of_def lock_inv_def)
  with leave show ?case by (auto simp: lock_inv_def) (metis owns_simps(6))
qed

lemma lock_inv_init: "lock_init s \<Longrightarrow> lock_inv s"
  by (auto simp: lock_init_def lock_inv_def mach_inv_def)

lemma lock_reach_inv: "lock_reach rd v s \<Longrightarrow> lock_inv s"
  by (induction rule: lock_reach.induct) (auto intro: lock_inv_init lock_inv_step)


section \<open>Properties\<close>


definition one_cpu :: machine where
  "one_cpu = \<lparr>cpus = [\<lparr>apicid = 0, ncli = 0, intena = False, cproc = None, ts_ss0 = 0, ts_esp0 = 0, ts_iomb = 0\<rparr>],
     eflags_if = (\<lambda>_. True), cr3 = (\<lambda>_. 0)\<rparr>"


text \<open>C13: in every reachable state of processors running acquire and release on one lock, at
  most one processor owns the lock, the lock word is nonzero while one does, and the owner
  recorded in the lock is the processor in its critical section.\<close>

theorem spinlock_mutual_exclusion:
  assumes "lock_reach rd v s" and "owns (lpcs s c)"
  shows "locked (lk s) \<noteq> 0 \<and> (\<forall>d. owns (lpcs s d) \<longleftrightarrow> d = c) \<and>
     lcpu (lk s) = (if lpcs s c = Critical then Some c else None)"
proof -
  have inv: "lock_inv s" using assms(1) by (rule lock_reach_inv)
  then have "locked (lk s) \<noteq> 0" and own: "\<forall>d. owns (lpcs s d) \<longleftrightarrow> d = c"
    and rec: "\<forall>d. lcpu (lk s) = Some d \<longleftrightarrow> lpcs s d = Critical"
    using assms(2) unfolding lock_inv_def by blast+
  moreover have "lcpu (lk s) = (if lpcs s c = Critical then Some c else None)"
    using own rec by (metis not_Some_eq owns_simps(2))
  ultimately show ?thesis by simp
qed

text \<open>
  A run of one processor through the whole protocol, for the witnesses: it enters, wins the
  exchange and records itself.
\<close>

definition solo :: lsys where
  "solo = \<lparr>lpcs = (\<lambda>_. Outside),
     lk = initlock \<lparr>locked = 1, lname = [], lcpu = Some 3, pcs = replicate 10 0\<rparr> ''kmem'',
     mach = one_cpu\<rparr>"

lemma solo_init: "lock_init solo"
  by (simp add: lock_init_def solo_def initlock_def one_cpu_def wf_cpus_def)

lemma solo_acquired:
  "\<exists>s. lock_reach rd v s \<and> lpcs s 0 = Acquired"
proof -
  have r0: "lock_reach rd v solo" by (rule lock_reach.start [OF solo_init])
  have "wf_cpus (mach solo)" "ncli (cpus (mach solo) ! 0) = 0" "lcpu (lk solo) \<noteq> Some 0"
    by (simp_all add: solo_def one_cpu_def wf_cpus_def initlock_def)
  then obtain m where m: "acquire_enter (lapic_of solo 0) (lk solo) (mach solo) = Inr m"
      "pushcli (lapic_of solo 0) (mach solo) = Inr m"
    using acquire_enter_run [of "mach solo" 0 "lapic_of solo 0" "lk solo"]
    by (auto simp: lapic_of_def solo_def one_cpu_def)
  let ?s1 = "solo\<lparr>lpcs := (lpcs solo)(0 := Spinning), mach := m\<rparr>"
  have len: "length (cpus m) = 1"
    using m(2) pushcli_run [of "mach solo" 0 "lapic_of solo 0"]
    by (simp add: solo_def one_cpu_def wf_cpus_def lapic_of_def)
  have "lock_step rd v solo ?s1"
    by (rule lock_step.enter) (use m in \<open>simp_all add: solo_def one_cpu_def\<close>)
  with r0 have r1: "lock_reach rd v ?s1" by (rule lock_reach.step)
  let ?s2 = "?s1\<lparr>lpcs := (lpcs ?s1)(0 := Acquired), lk := (lk ?s1)\<lparr>locked := 1\<rparr>\<rparr>"
  have "lock_step rd v ?s1 ?s2"
    by (rule lock_step.win) (use len in \<open>simp_all add: solo_def xchg_lock_def initlock_def\<close>)
  with r1 have "lock_reach rd v ?s2" by (rule lock_reach.step)
  moreover have "lpcs ?s2 0 = Acquired" by simp
  ultimately show ?thesis by blast
qed

theorem spinlock_mutual_exclusion_witness:
  "\<exists>s. lock_reach (\<lambda>_. 0) 0 s \<and> owns (lpcs s 0) \<and> locked (lk s) \<noteq> 0 \<and> lcpu (lk s) = None"
proof -
  obtain s where s: "lock_reach (\<lambda>_. 0) 0 s" "lpcs s 0 = Acquired"
    using solo_acquired by blast
  then have "owns (lpcs s 0)" by simp
  with s spinlock_mutual_exclusion [OF s(1), of 0] show ?thesis by auto
qed

text \<open>C14: no reachable state panics in the locking code: a processor outside can enter
  (its recursion check fails), one that has the lock can record itself, one in its critical
  section passes the ownership check of release, and one past the store can pop.\<close>

theorem spinlock_never_panics:
  assumes "lock_reach rd v s" and "c < length (cpus (mach s))"
  shows "case lpcs s c of
     Outside \<Rightarrow> \<exists>m. acquire_enter (lapic_of s c) (lk s) (mach s) = Inr m
   | Acquired \<Rightarrow> \<exists>l. acquire_record rd v (lapic_of s c) (lk s) (mach s) = Inr l
   | Critical \<Rightarrow> \<exists>l m. release_enter (lapic_of s c) (lk s) (mach s) = Inr (l, m)
   | Unlocked \<Rightarrow> \<exists>m. popcli (lapic_of s c) (mach s) = Inr m
   | _ \<Rightarrow> True"
proof -
  have inv: "lock_inv s" using assms(1) by (rule lock_reach_inv)
  then have mi: "mach_inv (lpcs s) (mach s)" by (simp add: lock_inv_def)
  show ?thesis
  proof (cases "lpcs s c")
    case Outside
    then have "ncli (cpus (mach s) ! c) = 0" "wf_cpus (mach s)" "lcpu (lk s) \<noteq> Some c"
      using mi assms(2) inv by (auto simp: mach_inv_def lock_inv_def)
    with acquire_enter_run [of "mach s" c "lapic_of s c" "lk s"] assms(2) Outside
    show ?thesis by (auto simp: lapic_of_def)
  next
    case Acquired
    with mach_inv_self(1) [OF mi assms(2)] show ?thesis
      by (simp add: acquire_record_def lapic_of_def)
  next
    case Critical
    moreover have "locked (lk s) \<noteq> 0 \<and> lcpu (lk s) = Some c"
      using inv Critical unfolding lock_inv_def by (metis owns_simps(2))
    ultimately show ?thesis
      using mach_inv_self(2) [OF mi assms(2), of "lk s"]
      by (simp add: release_enter_def lapic_of_def)
  next
    case Unlocked
    with pop_mach [OF mi assms(2)] show ?thesis by (auto simp: lapic_of_def)
  qed simp_all
qed

theorem spinlock_never_panics_witness:
  "lock_reach (\<lambda>_. 0) 0 solo \<and> (\<exists>m. acquire_enter 0 (lk solo) (mach solo) = Inr m)"
proof -
  have r: "lock_reach (\<lambda>_. 0) 0 solo" by (rule lock_reach.start [OF solo_init])
  from spinlock_never_panics [OF r, of 0] r show ?thesis
    by (simp add: solo_def one_cpu_def lapic_of_def)
qed

end
