(* ===== verification/Sleeplock.thy ===== *)
theory Sleeplock
  imports Prelude
begin

text \<open>
  \<^verbatim>\<open>sleeplock.c\<close>: locks a process may hold while it sleeps. Each operation runs under the
  lock's own spinlock, so it is one atomic step; \<open>acquiresleep\<close> on a held lock goes to
  sleep, which in a single-threaded run is the outcome \<^const>\<open>Sleep\<close>. The \<open>pid\<close>
  argument is \<^verbatim>\<open>myproc()->pid\<close>.
\<close>

record sleeplock =
  sl_locked :: bool
  sl_name :: string
  sl_pid :: int

definition initsleeplock :: "string \<Rightarrow> sleeplock" where
  "initsleeplock name = \<lparr>sl_locked = False, sl_name = name, sl_pid = 0\<rparr>"

definition acquiresleep :: "int \<Rightarrow> sleeplock \<Rightarrow> sleeplock res" where
  "acquiresleep pid lk =
     (if sl_locked lk then Inl Sleep else Inr (lk\<lparr>sl_locked := True, sl_pid := pid\<rparr>))"

definition releasesleep :: "sleeplock \<Rightarrow> sleeplock" where
  "releasesleep lk = lk\<lparr>sl_locked := False, sl_pid := 0\<rparr>"

definition holdingsleep :: "int \<Rightarrow> sleeplock \<Rightarrow> bool" where
  "holdingsleep pid lk \<longleftrightarrow> sl_locked lk \<and> sl_pid lk = pid"

lemma acquiresleep_holding: "acquiresleep pid lk = Inr lk' \<Longrightarrow> holdingsleep pid lk'"
  by (auto simp: acquiresleep_def holdingsleep_def split: if_splits)

lemma acquiresleep_free: "\<not> sl_locked lk \<Longrightarrow> acquiresleep pid lk = Inr (lk\<lparr>sl_locked := True, sl_pid := pid\<rparr>)"
  by (simp add: acquiresleep_def)

lemma sl_locked_release [simp]: "\<not> sl_locked (releasesleep lk)"
  by (simp add: releasesleep_def)

lemma sl_locked_init [simp]: "\<not> sl_locked (initsleeplock n)"
  by (simp add: initsleeplock_def)

end
