(* ===== verification/Linked.thy ===== *)
theory Linked
  imports Prelude
begin

text \<open>
  Doubly linked lists over pointer fields. The kernel's buffer cache and the editor's
  line list are both circular or two-ended lists threaded through \<open>next\<close> and
  \<open>prev\<close> fields; this theory relates such fields, as functions on pointers, to the
  list of nodes they thread, and gives the effect of unlinking a node, of inserting
  one, and of walking the list in either direction.
\<close>

section \<open>Segments and rings\<close>

primrec dseg :: "('p \<Rightarrow> 'p) \<Rightarrow> ('p \<Rightarrow> 'p) \<Rightarrow> 'p \<Rightarrow> 'p list \<Rightarrow> 'p \<Rightarrow> bool" where
  "dseg nx pv a [] b \<longleftrightarrow> nx a = b \<and> pv b = a"
| "dseg nx pv a (x # xs) b \<longleftrightarrow> nx a = x \<and> pv x = a \<and> dseg nx pv x xs b"

definition dring :: "('p \<Rightarrow> 'p) \<Rightarrow> ('p \<Rightarrow> 'p) \<Rightarrow> 'p \<Rightarrow> 'p list \<Rightarrow> bool" where
  "dring nx pv h xs \<longleftrightarrow> distinct (h # xs) \<and> dseg nx pv h xs h"

lemma dseg_split:
  "dseg nx pv a (xs @ x # ys) b \<longleftrightarrow> dseg nx pv a xs x \<and> dseg nx pv x ys b"
  by (induction xs arbitrary: a) auto

lemma dseg_frame:
  assumes "\<And>y. y \<in> insert a (set xs) \<Longrightarrow> nx' y = nx y"
    and "\<And>y. y \<in> insert b (set xs) \<Longrightarrow> pv' y = pv y"
  shows "dseg nx' pv' a xs b = dseg nx pv a xs b"
  using assms by (induction xs arbitrary: a) auto

lemma dseg_next_first: "dseg nx pv a xs b \<Longrightarrow> nx a = hd (xs @ [b])"
  by (cases xs) auto

lemma dseg_prev_last: "dseg nx pv a xs b \<Longrightarrow> pv b = last (a # xs)"
  by (induction xs arbitrary: a) auto

lemma dseg_next_in: "dseg nx pv a xs b \<Longrightarrow> nx a \<in> insert b (set xs)"
  by (cases xs) auto

lemma dseg_prev_in: "dseg nx pv a xs b \<Longrightarrow> pv b \<in> insert a (set xs)"
  by (induction xs arbitrary: a) auto

lemma dseg_unique:
  "dseg nx pv a xs b \<Longrightarrow> dseg nx pv a ys b \<Longrightarrow> b \<notin> set xs \<Longrightarrow> b \<notin> set ys \<Longrightarrow> xs = ys"
proof (induction xs arbitrary: a ys)
  case Nil
  then show ?case by (cases ys) auto
next
  case (Cons x xs)
  then show ?case by (cases ys) auto
qed

subsection \<open>Unlinking a node\<close>

lemma dseg_retarget_last:
  assumes "dseg nx pv a xs x" and "distinct (a # xs)" and "b \<notin> set xs"
  shows "dseg (nx(last (a # xs) := b)) (pv(b := last (a # xs))) a xs b"
  using assms
proof (induction xs arbitrary: a)
  case Nil
  then show ?case by simp
next
  case (Cons y xs)
  then show ?case by (auto split: if_splits)
qed

lemma dseg_unlink:
  assumes seg: "dseg nx pv a (xs @ x # ys) b"
    and dist: "distinct (a # xs @ x # ys)" and b: "b \<notin> set (xs @ x # ys)"
  shows "dseg (nx(pv x := nx x)) (pv(nx x := pv x)) a (xs @ ys) b"
proof -
  from seg have l: "dseg nx pv a xs x" and r: "dseg nx pv x ys b"
    by (auto simp: dseg_split)
  have px: "pv x = last (a # xs)" using l by (rule dseg_prev_last)
  show ?thesis
  proof (cases ys)
    case Nil
    with r have "nx x = b" by simp
    with dseg_retarget_last [OF l, of b] dist b px Nil show ?thesis by auto
  next
    case (Cons y zs)
    with r have nx: "nx x = y" and rest: "dseg nx pv y zs b" by auto
    have "dseg (nx(last (a # xs) := y)) (pv(y := last (a # xs))) a xs y"
      using dseg_retarget_last [OF l, of y] dist Cons by auto
    moreover have "dseg (nx(last (a # xs) := y)) (pv(y := last (a # xs))) y zs b"
    proof (subst dseg_frame)
      show "dseg nx pv y zs b" by (rule rest)
    qed (use dist b Cons in \<open>auto dest: last_in_set split: if_splits\<close>)
    ultimately show ?thesis
      by (simp add: px nx Cons dseg_split del: last.simps)
  qed
qed

lemma dring_unlink:
  assumes "dring nx pv h (xs @ x # ys)"
  shows "dring (nx(pv x := nx x)) (pv(nx x := pv x)) h (xs @ ys)"
  using assms dseg_unlink [of nx pv h xs x ys h] by (auto simp: dring_def)

subsection \<open>Inserting a node after another\<close>

lemma dseg_insert:
  assumes seg: "dseg nx pv a xs b" and dist: "distinct (a # xs)" and "b \<notin> set xs"
    and fresh: "x \<notin> set (a # b # xs)"
  shows "dseg (nx(x := nx a, a := x)) (pv(x := a, nx a := x)) a (x # xs) b"
proof (cases xs)
  case Nil
  with seg fresh show ?thesis by auto
next
  case (Cons y zs)
  have "dseg (nx(x := y, a := x)) (pv(x := a, y := x)) y zs b"
    by (subst dseg_frame [where nx = nx and pv = pv])
      (use assms Cons in \<open>auto split: if_splits\<close>)
  with seg fresh Cons dist show ?thesis by auto
qed

lemma dring_push:
  assumes "dring nx pv h xs" and "x \<notin> set (h # xs)"
  shows "dring (nx(x := nx h, h := x)) (pv(x := h, nx h := x)) h (x # xs)"
  using assms dseg_insert [of nx pv h xs h x] by (auto simp: dring_def)

section \<open>Walking a list\<close>

text \<open>
  A C loop \<^verbatim>\<open>for (p = start; !stop(p); p = step(p));\<close> over pointers, with a bound on the
  number of steps; \<^const>\<open>None\<close> means that the bound was reached before \<open>stop\<close> held.
\<close>

fun walk :: "nat \<Rightarrow> ('p \<Rightarrow> bool) \<Rightarrow> ('p \<Rightarrow> 'p) \<Rightarrow> 'p \<Rightarrow> 'p option" where
  "walk fuel stop step p =
     (if stop p then Some p
      else case fuel of 0 \<Rightarrow> None | Suc n \<Rightarrow> walk n stop step (step p))"

declare walk.simps [simp del]

lemma walk_stop [simp]: "stop p \<Longrightarrow> walk n stop step p = Some p"
  by (subst walk.simps) simp

lemma walk_step: "\<not> stop p \<Longrightarrow> walk (Suc n) stop step p = walk n stop step (step p)"
  by (subst walk.simps) simp

lemma walk_Some_stop: "walk n stop step p = Some q \<Longrightarrow> stop q"
proof (induction n arbitrary: p)
  case 0
  then show ?case by (subst (asm) walk.simps) (simp split: if_splits)
next
  case (Suc n)
  then show ?case by (cases "stop p") (auto simp: walk_step)
qed

definition first_or :: "('p \<Rightarrow> bool) \<Rightarrow> 'p \<Rightarrow> 'p list \<Rightarrow> 'p" where
  "first_or stop z xs = (case find stop xs of None \<Rightarrow> z | Some x \<Rightarrow> x)"

lemma first_or_simps [simp]:
  "first_or stop z [] = z"
  "first_or stop z (x # xs) = (if stop x then x else first_or stop z xs)"
  by (auto simp: first_or_def)

lemma walk_forward:
  assumes "dseg nx pv a xs b" and "stop b" and "length xs \<le> n"
  shows "walk n stop nx (nx a) = Some (first_or stop b xs)"
  using assms
proof (induction xs arbitrary: a n)
  case Nil
  then show ?case by simp
next
  case (Cons x xs)
  then obtain m where n: "n = Suc m" by (cases n) auto
  with Cons show ?case by (cases "stop x") (auto simp: walk_step)
qed

lemma walk_backward:
  assumes "dseg nx pv a xs b" and "stop a" and "length xs \<le> n"
  shows "walk n stop pv (pv b) = Some (first_or stop a (rev xs))"
  using assms
proof (induction xs arbitrary: b n rule: rev_induct)
  case Nil
  then show ?case by simp
next
  case (snoc x xs)
  then have l: "dseg nx pv a xs x" and pb: "pv b = x"
    by (auto simp: dseg_split)
  from snoc.prems obtain m where n: "n = Suc m" "length xs \<le> m" by (cases n) auto
  with snoc.IH [OF l snoc.prems(2)] pb show ?case by (cases "stop x") (auto simp: walk_step)
qed

lemma first_or_in: "first_or stop z xs \<in> insert z (set xs)"
  by (induction xs) auto

lemma first_or_sat: "first_or stop z xs \<noteq> z \<Longrightarrow> stop (first_or stop z xs)"
  by (induction xs) auto

lemma first_or_none: "first_or stop z xs = z \<Longrightarrow> z \<notin> set xs \<Longrightarrow> x \<in> set xs \<Longrightarrow> \<not> stop x"
  by (induction xs) (auto split: if_splits)

end
