(* ===== verification/Buf.thy ===== *)
theory Buf
  imports Sleeplock Linked
begin

text \<open>
  The buffers of \<^verbatim>\<open>buf.h\<close>, the disk they mirror, and the in-memory disk driver of
  \<^verbatim>\<open>memide.c\<close>. A buffer pointer is its index in \<^verbatim>\<open>bcache.buf\<close>; the list head
  \<^verbatim>\<open>bcache.head\<close> is the index after the last buffer.
\<close>

abbreviation BSIZE :: nat where "BSIZE \<equiv> 512"
abbreviation NBUF :: nat where "NBUF \<equiv> 30"
abbreviation HEAD :: nat where "HEAD \<equiv> 30"
abbreviation B_VALID :: uint where "B_VALID \<equiv> 2"
abbreviation B_DIRTY :: uint where "B_DIRTY \<equiv> 4"

record buf =
  flags :: uint
  bdev :: uint
  blockno :: uint
  block_lock :: sleeplock
  refcnt :: uint
  bprev :: nat
  bnext :: nat
  qnext :: "nat option"
  bdata :: bytes

text \<open>
  The state of the block layer: the pid of the running process, the buffers, and the disk
  as a function from block numbers to block contents. \<open>dwrites\<close> is a history variable:
  the writes that reached the disk, in order, which crash reasoning cuts short.
\<close>

record bio =
  curpid :: int
  bufs :: "nat \<Rightarrow> buf"
  disk :: "uint \<Rightarrow> bytes"
  disksize :: uint
  dwrites :: "(uint \<times> bytes) list"

definition valid :: "buf \<Rightarrow> bool" where
  "valid b \<longleftrightarrow> flags b AND B_VALID \<noteq> 0"

definition dirty :: "buf \<Rightarrow> bool" where
  "dirty b \<longleftrightarrow> flags b AND B_DIRTY \<noteq> 0"

definition set_buf :: "nat \<Rightarrow> buf \<Rightarrow> 'a bio_scheme \<Rightarrow> 'a bio_scheme" where
  "set_buf b bf s = s\<lparr>bufs := (bufs s)(b := bf)\<rparr>"

definition set_data :: "nat \<Rightarrow> bytes \<Rightarrow> 'a bio_scheme \<Rightarrow> 'a bio_scheme" where
  "set_data b d s = set_buf b ((bufs s b)\<lparr>bdata := d\<rparr>) s"

section \<open>The in-memory disk\<close>

definition iderw :: "nat \<Rightarrow> 'a bio_scheme \<Rightarrow> 'a bio_scheme res" where
  "iderw b s =
     (let bf = bufs s b in
      if \<not> holdingsleep (curpid s) (block_lock bf) then Inl (Panic ''iderw: buf not locked'')
      else if flags bf AND (B_VALID OR B_DIRTY) = B_VALID then Inl (Panic ''iderw: nothing to do'')
      else if bdev bf \<noteq> 1 then Inl (Panic ''iderw: request not for disk 1'')
      else if disksize s \<le> blockno bf then Inl (Panic ''iderw: block out of range'')
      else if flags bf AND B_DIRTY \<noteq> 0
      then Inr (set_buf b (bf\<lparr>flags := (flags bf AND NOT B_DIRTY) OR B_VALID\<rparr>)
             (s\<lparr>disk := (disk s)(blockno bf := bdata bf),
                dwrites := dwrites s @ [(blockno bf, bdata bf)]\<rparr>))
      else Inr (set_buf b (bf\<lparr>bdata := disk s (blockno bf), flags := flags bf OR B_VALID\<rparr>) s))"

section \<open>Flag bits\<close>

lemma valid_bit: "valid b \<longleftrightarrow> bit (flags b) 1"
  using and_exp_eq_0_iff_not_bit [of "flags b" 1] by (simp add: valid_def)

lemma dirty_bit: "dirty b \<longleftrightarrow> bit (flags b) 2"
  using and_exp_eq_0_iff_not_bit [of "flags b" 2] by (simp add: dirty_def)

lemma bit_flag_consts [simp]:
  "bit (2 :: int) n \<longleftrightarrow> n = 1" "bit (4 :: int) n \<longleftrightarrow> n = 2" "bit (6 :: int) n \<longleftrightarrow> n = 1 \<or> n = 2"
proof -
  show two: "bit (2 :: int) n \<longleftrightarrow> n = 1"
    using bit_exp_iff [where 'a = int, of 1 n] by auto
  show four: "bit (4 :: int) n \<longleftrightarrow> n = 2"
    using bit_exp_iff [where 'a = int, of 2 n] by auto
  have "(6 :: int) = 2 OR 4"
    by simp
  then show "bit (6 :: int) n \<longleftrightarrow> n = 1 \<or> n = 2"
    using two four by (metis bit_or_iff)
qed

lemma flags_only_valid: "flags b AND (B_VALID OR B_DIRTY) = B_VALID \<longleftrightarrow> valid b \<and> \<not> dirty b"
proof
  assume eq: "flags b AND (B_VALID OR B_DIRTY) = B_VALID"
  have "bit (flags b AND (B_VALID OR B_DIRTY)) 1" "\<not> bit (flags b AND (B_VALID OR B_DIRTY)) 2"
    unfolding eq by simp_all
  then show "valid b \<and> \<not> dirty b"
    by (auto simp: valid_bit dirty_bit bit_and_iff bit_or_iff)
next
  assume "valid b \<and> \<not> dirty b"
  then show "flags b AND (B_VALID OR B_DIRTY) = B_VALID"
    by (intro bit_word_eqI) (auto simp: valid_bit dirty_bit bit_and_iff bit_or_iff)
qed

lemma valid_flags [simp]:
  "valid (b\<lparr>flags := f OR B_VALID\<rparr>)"
  "valid (b\<lparr>flags := f OR B_DIRTY\<rparr>) = valid (b\<lparr>flags := f\<rparr>)"
  "valid (b\<lparr>flags := f AND NOT B_DIRTY\<rparr>) = valid (b\<lparr>flags := f\<rparr>)"
  "\<not> valid (b\<lparr>flags := 0\<rparr>)"
  by (auto simp: valid_bit bit_or_iff bit_and_iff bit_not_iff)

lemma dirty_flags [simp]:
  "dirty (b\<lparr>flags := f OR B_VALID\<rparr>) = dirty (b\<lparr>flags := f\<rparr>)"
  "dirty (b\<lparr>flags := f OR B_DIRTY\<rparr>)"
  "\<not> dirty (b\<lparr>flags := f AND NOT B_DIRTY\<rparr>)"
  "\<not> dirty (b\<lparr>flags := 0\<rparr>)"
  by (auto simp: dirty_bit bit_or_iff bit_and_iff bit_not_iff)

lemma flags_written:
  "valid (b\<lparr>flags := (f AND NOT B_DIRTY) OR B_VALID\<rparr>)"
  "\<not> dirty (b\<lparr>flags := (f AND NOT B_DIRTY) OR B_VALID\<rparr>)"
proof -
  have "\<not> bit (NOT B_DIRTY) 2"
    unfolding bit_not_iff by simp
  then show "valid (b\<lparr>flags := (f AND NOT B_DIRTY) OR B_VALID\<rparr>)"
    "\<not> dirty (b\<lparr>flags := (f AND NOT B_DIRTY) OR B_VALID\<rparr>)"
    by (simp_all add: valid_bit dirty_bit bit_or_iff bit_and_iff)
qed

lemma valid_fields [simp]:
  "valid (b\<lparr>bdata := d\<rparr>) = valid b" "valid (b\<lparr>block_lock := l\<rparr>) = valid b"
  "valid (b\<lparr>refcnt := r\<rparr>) = valid b" "valid (b\<lparr>bprev := p\<rparr>) = valid b"
  "valid (b\<lparr>bnext := p\<rparr>) = valid b" "valid (b\<lparr>bdev := w\<rparr>) = valid b"
  "valid (b\<lparr>blockno := w\<rparr>) = valid b"
  by (simp_all add: valid_def)

lemma dirty_fields [simp]:
  "dirty (b\<lparr>bdata := d\<rparr>) = dirty b" "dirty (b\<lparr>block_lock := l\<rparr>) = dirty b"
  "dirty (b\<lparr>refcnt := r\<rparr>) = dirty b" "dirty (b\<lparr>bprev := p\<rparr>) = dirty b"
  "dirty (b\<lparr>bnext := p\<rparr>) = dirty b" "dirty (b\<lparr>bdev := w\<rparr>) = dirty b"
  "dirty (b\<lparr>blockno := w\<rparr>) = dirty b"
  by (simp_all add: dirty_def)

lemma set_buf_fields [simp]:
  "bufs (set_buf b bf s) = (bufs s)(b := bf)" "disk (set_buf b bf s) = disk s"
  "disksize (set_buf b bf s) = disksize s" "dwrites (set_buf b bf s) = dwrites s"
  "curpid (set_buf b bf s) = curpid s" "bio.more (set_buf b bf s) = bio.more s"
  by (simp_all add: set_buf_def)

lemma set_data_fields [simp]:
  "bufs (set_data b d s) = (bufs s)(b := (bufs s b)\<lparr>bdata := d\<rparr>)" "disk (set_data b d s) = disk s"
  "disksize (set_data b d s) = disksize s" "dwrites (set_data b d s) = dwrites s"
  "curpid (set_data b d s) = curpid s" "bio.more (set_data b d s) = bio.more s"
  by (simp_all add: set_data_def)

lemma iderw_read:
  assumes "holdingsleep (curpid s) (block_lock (bufs s b))" and "\<not> valid (bufs s b)"
    and "\<not> dirty (bufs s b)" and "bdev (bufs s b) = 1" and "blockno (bufs s b) < disksize s"
  shows "iderw b s = Inr (set_buf b ((bufs s b)\<lparr>bdata := disk s (blockno (bufs s b)),
     flags := flags (bufs s b) OR B_VALID\<rparr>) s)"
  using assms flags_only_valid [of "bufs s b"]
  by (simp add: iderw_def Let_def dirty_def)

lemma iderw_write:
  assumes "holdingsleep (curpid s) (block_lock (bufs s b))" and "dirty (bufs s b)"
    and "bdev (bufs s b) = 1" and "blockno (bufs s b) < disksize s"
  shows "iderw b s = Inr (set_buf b ((bufs s b)\<lparr>flags := (flags (bufs s b) AND NOT B_DIRTY) OR B_VALID\<rparr>)
     (s\<lparr>disk := (disk s)(blockno (bufs s b) := bdata (bufs s b)),
        dwrites := dwrites s @ [(blockno (bufs s b), bdata (bufs s b))]\<rparr>))"
  using assms flags_only_valid [of "bufs s b"]
  by (simp add: iderw_def Let_def dirty_def)

end
