(* ===== verification/Bio.thy ===== *)
theory Bio
  imports Buf
begin

text \<open>
  The buffer cache, \<^verbatim>\<open>bio.c\<close>. The buffers form a ring through \<open>bnext\<close>/\<open>bprev\<close> with
  \<^const>\<open>HEAD\<close> as its head, most recently used first. The lock \<^verbatim>\<open>bcache.lock\<close> makes each
  of the list manipulations atomic; sleep locks are explicit.
\<close>

section \<open>The operations\<close>

definition bnx :: "(nat \<Rightarrow> buf) \<Rightarrow> nat \<Rightarrow> nat" where
  "bnx bs p = bnext (bs p)"

definition bpv :: "(nat \<Rightarrow> buf) \<Rightarrow> nat \<Rightarrow> nat" where
  "bpv bs p = bprev (bs p)"

definition set_next :: "nat \<Rightarrow> nat \<Rightarrow> (nat \<Rightarrow> buf) \<Rightarrow> nat \<Rightarrow> buf" where
  "set_next p v bs = bs(p := (bs p)\<lparr>bnext := v\<rparr>)"

definition set_prev :: "nat \<Rightarrow> nat \<Rightarrow> (nat \<Rightarrow> buf) \<Rightarrow> nat \<Rightarrow> buf" where
  "set_prev p v bs = bs(p := (bs p)\<lparr>bprev := v\<rparr>)"

text \<open>The statements that link a buffer in at the head of the ring, in the order of the code.\<close>

definition link_front :: "nat \<Rightarrow> (nat \<Rightarrow> buf) \<Rightarrow> nat \<Rightarrow> buf" where
  "link_front b bs =
     (let bs = set_next b (bnx bs HEAD) bs;
          bs = set_prev b HEAD bs;
          bs = set_prev (bnx bs HEAD) b bs
      in set_next HEAD b bs)"

definition unlink :: "nat \<Rightarrow> (nat \<Rightarrow> buf) \<Rightarrow> nat \<Rightarrow> buf" where
  "unlink b bs =
     (let bs = set_prev (bnx bs b) (bpv bs b) bs
      in set_next (bpv bs b) (bnx bs b) bs)"

definition binit_body :: "nat \<Rightarrow> (nat \<Rightarrow> buf) \<Rightarrow> nat \<Rightarrow> buf" where
  "binit_body b bs =
     link_front b (bs(b := (bs b)\<lparr>block_lock := initsleeplock ''buffer''\<rparr>))"

definition binit :: "'a bio_scheme \<Rightarrow> 'a bio_scheme" where
  "binit s =
     (let bs = set_next HEAD HEAD (set_prev HEAD HEAD (bufs s))
      in s\<lparr>bufs := fold binit_body [0..<NBUF] bs\<rparr>)"

definition lock_buf :: "nat \<Rightarrow> 'a bio_scheme \<Rightarrow> (nat \<times> 'a bio_scheme) res" where
  "lock_buf b s =
     rbind (acquiresleep (curpid s) (block_lock (bufs s b)))
       (\<lambda>lk. Inr (b, set_buf b ((bufs s b)\<lparr>block_lock := lk\<rparr>) s))"

definition bget :: "uint \<Rightarrow> uint \<Rightarrow> 'a bio_scheme \<Rightarrow> (nat \<times> 'a bio_scheme) res" where
  "bget dev bn s =
     (case walk NBUF (\<lambda>b. b = HEAD \<or> bdev (bufs s b) = dev \<and> blockno (bufs s b) = bn)
             (bnx (bufs s)) (bnx (bufs s) HEAD) of
        None \<Rightarrow> Inl Diverge
      | Some b \<Rightarrow>
          if b \<noteq> HEAD
          then lock_buf b (set_buf b ((bufs s b)\<lparr>refcnt := refcnt (bufs s b) + 1\<rparr>) s)
          else case walk NBUF (\<lambda>b. b = HEAD \<or> refcnt (bufs s b) = 0 \<and> flags (bufs s b) AND B_DIRTY = 0)
                      (bpv (bufs s)) (bpv (bufs s) HEAD) of
                 None \<Rightarrow> Inl Diverge
               | Some b \<Rightarrow>
                   if b \<noteq> HEAD
                   then lock_buf b (set_buf b ((bufs s b)\<lparr>bdev := dev, blockno := bn, flags := 0, refcnt := 1\<rparr>) s)
                   else Inl (Panic ''bget: no buffers''))"

definition bread :: "uint \<Rightarrow> uint \<Rightarrow> 'a bio_scheme \<Rightarrow> (nat \<times> 'a bio_scheme) res" where
  "bread dev bn s =
     rbind (bget dev bn s) (\<lambda>(b, s).
       if flags (bufs s b) AND B_VALID = 0
       then rbind (iderw b s) (\<lambda>s. Inr (b, s))
       else Inr (b, s))"

definition bwrite :: "nat \<Rightarrow> 'a bio_scheme \<Rightarrow> 'a bio_scheme res" where
  "bwrite b s =
     (if \<not> holdingsleep (curpid s) (block_lock (bufs s b)) then Inl (Panic ''bwrite'')
      else iderw b (set_buf b ((bufs s b)\<lparr>flags := flags (bufs s b) OR B_DIRTY\<rparr>) s))"

definition brelse :: "nat \<Rightarrow> 'a bio_scheme \<Rightarrow> 'a bio_scheme res" where
  "brelse b s =
     (if \<not> holdingsleep (curpid s) (block_lock (bufs s b)) then Inl (Panic ''brelse'')
      else let bs = (bufs s)(b := (bufs s b)\<lparr>block_lock := releasesleep (block_lock (bufs s b))\<rparr>);
               bs = bs(b := (bs b)\<lparr>refcnt := refcnt (bs b) - 1\<rparr>)
           in Inr (s\<lparr>bufs := if refcnt (bs b) = 0 then link_front b (unlink b bs) else bs\<rparr>))"

section \<open>The ring\<close>

lemma set_links [simp]:
  "bnx (set_next p v bs) = (bnx bs)(p := v)" "bpv (set_next p v bs) = bpv bs"
  "bpv (set_prev p v bs) = (bpv bs)(p := v)" "bnx (set_prev p v bs) = bnx bs"
  by (auto simp: set_next_def set_prev_def bnx_def bpv_def)

lemma bnx_bpv_upd [simp]:
  "bnext bf = bnext (bs b) \<Longrightarrow> bnx (bs(b := bf)) = bnx bs"
  "bprev bf = bprev (bs b) \<Longrightarrow> bpv (bs(b := bf)) = bpv bs"
  by (auto simp: bnx_def bpv_def)

text \<open>What is left of a buffer when its links are ignored.\<close>

definition core :: "buf \<Rightarrow> buf" where
  "core b = b\<lparr>bprev := 0, bnext := 0\<rparr>"

lemma core_fields [simp]:
  "flags (core b) = flags b" "bdev (core b) = bdev b" "blockno (core b) = blockno b"
  "block_lock (core b) = block_lock b" "refcnt (core b) = refcnt b" "bdata (core b) = bdata b"
  "valid (core b) = valid b" "dirty (core b) = dirty b"
  by (simp_all add: core_def)

lemma core_set_links [simp]:
  "core (set_next p v bs q) = core (bs q)" "core (set_prev p v bs q) = core (bs q)"
  by (simp_all add: core_def set_next_def set_prev_def)

lemma core_link_front [simp]: "core (link_front b bs q) = core (bs q)"
  by (simp add: link_front_def Let_def)

lemma core_unlink [simp]: "core (unlink b bs q) = core (bs q)"
  by (simp add: unlink_def Let_def)

definition ring :: "(nat \<Rightarrow> buf) \<Rightarrow> nat list \<Rightarrow> bool" where
  "ring bs xs \<longleftrightarrow> dring (bnx bs) (bpv bs) HEAD xs"

lemma ring_link_front:
  assumes "ring bs xs" and "b \<notin> set (HEAD # xs)"
  shows "ring (link_front b bs) (b # xs)"
proof -
  have "b \<noteq> HEAD"
    using assms by auto
  then show ?thesis
    using dring_push [of "bnx bs" "bpv bs" HEAD xs b] assms
    by (simp add: ring_def link_front_def Let_def)
qed

lemma ring_unlink:
  assumes "ring bs (xs @ b # ys)"
  shows "ring (unlink b bs) (xs @ ys)"
proof -
  have "bnx bs b \<noteq> b"
    using assms dseg_next_in [of "bnx bs" "bpv bs" b ys HEAD]
    by (auto simp: ring_def dring_def dseg_split)
  then show ?thesis
    using dring_unlink [of "bnx bs" "bpv bs" HEAD xs b ys] assms
    by (simp add: ring_def unlink_def Let_def)
qed

lemma ring_to_front:
  assumes "ring bs (xs @ b # ys)"
  shows "ring (link_front b (unlink b bs)) (b # xs @ ys)"
  using assms ring_link_front [OF ring_unlink [OF assms], of b] by (auto simp: ring_def dring_def)

lemma ring_cong: "bnx bs' = bnx bs \<Longrightarrow> bpv bs' = bpv bs \<Longrightarrow> ring bs' xs = ring bs xs"
  by (simp add: ring_def)

lemma ring_binit_body:
  assumes "ring bs xs" and "b \<notin> set (HEAD # xs)"
  shows "ring (binit_body b bs) (b # xs)"
  unfolding binit_body_def
  by (rule ring_link_front) (use assms in \<open>simp_all add: ring_def\<close>)

lemma ring_fold_binit:
  assumes "ring bs xs" and "distinct ns" and "set ns \<inter> set (HEAD # xs) = {}"
  shows "ring (fold binit_body ns bs) (rev ns @ xs)"
  using assms
proof (induction ns arbitrary: bs xs)
  case Nil
  then show ?case by simp
next
  case (Cons n ns)
  then show ?case
    using Cons.IH [OF ring_binit_body, of bs xs n] by auto
qed

section \<open>Abstraction: a write-back cache over a disk\<close>

text \<open>
  What the file system sees of the cache: the current contents of every block of device 1,
  what is on the disk, the blocks pinned by \<open>B_DIRTY\<close>, the blocks the running process holds
  locked, and the disk writes so far.
\<close>

record acache =
  aview :: "uint \<Rightarrow> bytes"
  adisk :: "uint \<Rightarrow> bytes"
  apinned :: "uint set"
  aheld :: "uint set"
  ahist :: "(uint \<times> bytes) list"
  alimit :: uint

definition caches :: "'a bio_scheme \<Rightarrow> nat \<Rightarrow> uint \<Rightarrow> bool" where
  "caches s i bn \<longleftrightarrow> i < NBUF \<and> bdev (bufs s i) = 1 \<and> blockno (bufs s i) = bn"

definition holds :: "'a bio_scheme \<Rightarrow> nat \<Rightarrow> uint \<Rightarrow> bool" where
  "holds s i bn \<longleftrightarrow> caches s i bn \<and> sl_locked (block_lock (bufs s i))"

definition view :: "'a bio_scheme \<Rightarrow> uint \<Rightarrow> bytes" where
  "view s bn = (case find (\<lambda>i. caches s i bn) [0..<NBUF] of
      None \<Rightarrow> disk s bn | Some i \<Rightarrow> bdata (bufs s i))"

definition abs_bio :: "'a bio_scheme \<Rightarrow> acache" where
  "abs_bio s = \<lparr>aview = view s, adisk = disk s,
     apinned = {bn. \<exists>i. caches s i bn \<and> dirty (bufs s i)},
     aheld = {bn. \<exists>i. holds s i bn},
     ahist = dwrites s, alimit = disksize s\<rparr>"

definition buf_ok :: "'a bio_scheme \<Rightarrow> buf \<Rightarrow> bool" where
  "buf_ok s b \<longleftrightarrow> length (bdata b) = BSIZE
     \<and> (if bdev b = 0 then \<not> valid b \<and> \<not> dirty b \<and> \<not> sl_locked (block_lock b)
        else bdev b = 1 \<and> valid b \<and> blockno b < disksize s)
     \<and> refcnt b = (if sl_locked (block_lock b) then 1 else 0)
     \<and> (sl_locked (block_lock b) \<longrightarrow> sl_pid (block_lock b) = curpid s)"

text \<open>
  The invariant. \<open>M\<close> is the set of blocks whose locked buffer was changed and neither written
  nor pinned yet; every other unpinned block agrees with the disk, so recycling its buffer
  loses nothing.
\<close>

definition bio_inv :: "uint set \<Rightarrow> 'a bio_scheme \<Rightarrow> bool" where
  "bio_inv M s \<longleftrightarrow>
     (\<exists>xs. ring (bufs s) xs \<and> set xs = {..<NBUF})
     \<and> (\<forall>i j bn. caches s i bn \<longrightarrow> caches s j bn \<longrightarrow> i = j)
     \<and> (\<forall>i < NBUF. buf_ok s (bufs s i))
     \<and> (\<forall>bn. length (disk s bn) = BSIZE)
     \<and> (\<forall>i bn. caches s i bn \<longrightarrow> bn \<notin> M \<longrightarrow> \<not> dirty (bufs s i) \<longrightarrow> bdata (bufs s i) = disk s bn)
     \<and> M \<subseteq> {bn. \<exists>i. holds s i bn}"

lemma abs_bio_sels [simp]:
  "aview (abs_bio s) = view s" "adisk (abs_bio s) = disk s"
  "ahist (abs_bio s) = dwrites s" "alimit (abs_bio s) = disksize s"
  by (simp_all add: abs_bio_def)

lemma apinned_iff: "bn \<in> apinned (abs_bio s) \<longleftrightarrow> (\<exists>i. caches s i bn \<and> dirty (bufs s i))"
  by (simp add: abs_bio_def)

lemma aheld_iff: "bn \<in> aheld (abs_bio s) \<longleftrightarrow> (\<exists>i. holds s i bn)"
  by (simp add: abs_bio_def)

lemma view_uncached: "(\<And>i. \<not> caches s i bn) \<Longrightarrow> view s bn = disk s bn"
proof -
  assume "\<And>i. \<not> caches s i bn"
  then have "find (\<lambda>i. caches s i bn) [0..<NBUF] = None"
    by (simp add: find_None_iff)
  then show ?thesis
    by (simp add: view_def)
qed

lemma view_caches:
  assumes "caches s i bn" and "\<And>j. caches s j bn \<Longrightarrow> j = i"
  shows "view s bn = bdata (bufs s i)"
proof -
  have "i \<in> set [0..<NBUF]"
    using assms(1) by (simp add: caches_def)
  then obtain j where j: "find (\<lambda>i. caches s i bn) [0..<NBUF] = Some j"
    using assms(1) by (metis (no_types, lifting) find_None_iff not_None_eq)
  then have "caches s j bn"
    by (metis (mono_tags, lifting) find_Some_iff)
  with assms(2) j show ?thesis
    by (simp add: view_def)
qed

lemma bio_inv_uniq: "bio_inv M s \<Longrightarrow> caches s i bn \<Longrightarrow> caches s j bn \<Longrightarrow> i = j"
  unfolding bio_inv_def by blast

lemma bio_inv_view: "bio_inv M s \<Longrightarrow> caches s i bn \<Longrightarrow> view s bn = bdata (bufs s i)"
  by (rule view_caches) (auto dest: bio_inv_uniq)

lemma bio_inv_buf_ok: "bio_inv M s \<Longrightarrow> caches s i bn \<Longrightarrow> buf_ok s (bufs s i)"
  by (simp add: bio_inv_def caches_def)

lemma bio_inv_clean:
  "bio_inv M s \<Longrightarrow> caches s i bn \<Longrightarrow> bn \<notin> M \<Longrightarrow> \<not> dirty (bufs s i) \<Longrightarrow> bdata (bufs s i) = disk s bn"
  unfolding bio_inv_def by blast

lemma bio_inv_disk: "bio_inv M s \<Longrightarrow> length (disk s bn) = BSIZE"
  by (simp add: bio_inv_def)

lemma pinned_caches: "bio_inv M s \<Longrightarrow> caches s i bn \<Longrightarrow> bn \<in> apinned (abs_bio s) \<longleftrightarrow> dirty (bufs s i)"
  unfolding apinned_iff using bio_inv_uniq by metis

lemma bio_inv_M: "bio_inv M s \<Longrightarrow> bn \<in> M \<Longrightarrow> \<exists>i. holds s i bn"
  unfolding bio_inv_def by blast

lemma bio_inv_length: "bio_inv M s \<Longrightarrow> length (view s bn) = BSIZE"
proof (cases "\<exists>i. caches s i bn")
  case True
  then show "bio_inv M s \<Longrightarrow> ?thesis"
    using bio_inv_buf_ok bio_inv_view by (metis buf_ok_def)
qed (simp add: view_uncached bio_inv_disk)

lemma bio_inv_coherent:
  assumes "bio_inv M s" and "bn \<notin> M" and "bn \<notin> apinned (abs_bio s)"
  shows "view s bn = disk s bn"
proof (cases "\<exists>i. caches s i bn")
  case True
  then show ?thesis
    using assms by (metis apinned_iff bio_inv_clean bio_inv_view)
qed (simp add: view_uncached)

lemma ring_walks:
  assumes "ring bs xs" and "set xs = {..<NBUF}"
  shows "walk NBUF (\<lambda>b. b = HEAD \<or> P b) (bnx bs) (bnx bs HEAD) = Some (first_or (\<lambda>b. b = HEAD \<or> P b) HEAD xs)"
    and "walk NBUF (\<lambda>b. b = HEAD \<or> P b) (bpv bs) (bpv bs HEAD) = Some (first_or (\<lambda>b. b = HEAD \<or> P b) HEAD (rev xs))"
proof -
  have "length xs = NBUF"
    using assms distinct_card [of xs] by (simp add: ring_def dring_def)
  then show "walk NBUF (\<lambda>b. b = HEAD \<or> P b) (bnx bs) (bnx bs HEAD) = Some (first_or (\<lambda>b. b = HEAD \<or> P b) HEAD xs)"
    and "walk NBUF (\<lambda>b. b = HEAD \<or> P b) (bpv bs) (bpv bs HEAD) = Some (first_or (\<lambda>b. b = HEAD \<or> P b) HEAD (rev xs))"
    using assms(1) walk_forward [of "bnx bs" "bpv bs" HEAD xs HEAD "\<lambda>b. b = HEAD \<or> P b" NBUF]
      walk_backward [of "bnx bs" "bpv bs" HEAD xs HEAD "\<lambda>b. b = HEAD \<or> P b" NBUF]
    unfolding ring_def dring_def by simp_all
qed

section \<open>The operations on the abstraction\<close>

text \<open>
  A change of one buffer: \<open>s'\<close> is \<open>s\<close> with buffer \<open>i\<close> replaced by \<open>bf\<close>, up to the
  links, which still form a ring.
\<close>

definition buf_upd :: "nat \<Rightarrow> buf \<Rightarrow> 'a bio_scheme \<Rightarrow> 'a bio_scheme \<Rightarrow> bool" where
  "buf_upd i bf s s' \<longleftrightarrow> i < NBUF
     \<and> (\<forall>j. core (bufs s' j) = core (((bufs s)(i := bf)) j))
     \<and> (\<exists>xs. ring (bufs s') xs \<and> set xs = {..<NBUF})
     \<and> disksize s' = disksize s \<and> curpid s' = curpid s"

lemma core_eqD:
  assumes "core b' = core b"
  shows "flags b' = flags b" "bdev b' = bdev b" "blockno b' = blockno b"
    "block_lock b' = block_lock b" "refcnt b' = refcnt b" "bdata b' = bdata b"
    "valid b' = valid b" "dirty b' = dirty b"
  using assms by (metis core_fields)+

lemma buf_updD:
  assumes "buf_upd i bf s s'"
  shows "bdev (bufs s' j) = bdev (if j = i then bf else bufs s j)"
    "blockno (bufs s' j) = blockno (if j = i then bf else bufs s j)"
    "block_lock (bufs s' j) = block_lock (if j = i then bf else bufs s j)"
    "refcnt (bufs s' j) = refcnt (if j = i then bf else bufs s j)"
    "bdata (bufs s' j) = bdata (if j = i then bf else bufs s j)"
    "valid (bufs s' j) = valid (if j = i then bf else bufs s j)"
    "dirty (bufs s' j) = dirty (if j = i then bf else bufs s j)"
    "disksize s' = disksize s" "curpid s' = curpid s" "i < NBUF"
proof -
  have "core (bufs s' j) = core (if j = i then bf else bufs s j)"
    using assms by (simp add: buf_upd_def fun_upd_def)
  from core_eqD [OF this] show
    "bdev (bufs s' j) = bdev (if j = i then bf else bufs s j)"
    "blockno (bufs s' j) = blockno (if j = i then bf else bufs s j)"
    "block_lock (bufs s' j) = block_lock (if j = i then bf else bufs s j)"
    "refcnt (bufs s' j) = refcnt (if j = i then bf else bufs s j)"
    "bdata (bufs s' j) = bdata (if j = i then bf else bufs s j)"
    "valid (bufs s' j) = valid (if j = i then bf else bufs s j)"
    "dirty (bufs s' j) = dirty (if j = i then bf else bufs s j)"
    by blast+
qed (use assms in \<open>simp_all add: buf_upd_def\<close>)

lemma buf_upd_set_buf:
  assumes "bio_inv M s" and "i < NBUF" and "bnext bf = bnext (bufs s i)" and "bprev bf = bprev (bufs s i)"
    and "bufs s' = (bufs s)(i := bf)" and "disksize s' = disksize s" and "curpid s' = curpid s"
  shows "buf_upd i bf s s'"
  using assms by (auto simp: buf_upd_def bio_inv_def ring_def)

lemma buf_upd_caches:
  assumes "buf_upd i bf s s'" and "bdev bf = 1" and "caches s i (blockno bf)"
  shows "caches s' j b = caches s j b"
  using assms(2,3) by (auto simp: caches_def buf_updD(1,2) [OF assms(1)])

lemma buf_upd_same_inv:
  assumes inv: "bio_inv M s" and upd: "buf_upd i bf s s'" and key: "caches s i (blockno bf)" "bdev bf = 1"
    and ok: "buf_ok s bf"
    and dsk: "\<And>b. b \<noteq> blockno bf \<Longrightarrow> disk s' b = disk s b" "length (disk s' (blockno bf)) = BSIZE"
    and M: "\<And>b. b \<noteq> blockno bf \<Longrightarrow> b \<in> M' \<longleftrightarrow> b \<in> M"
    and Mi: "blockno bf \<in> M' \<longrightarrow> sl_locked (block_lock bf)"
    and coh: "blockno bf \<notin> M' \<longrightarrow> \<not> dirty bf \<longrightarrow> bdata bf = disk s' (blockno bf)"
  shows "bio_inv M' s'"
proof -
  note c = buf_upd_caches [OF upd key(2,1)] and u = buf_updD [OF upd] and q = bio_inv_uniq [OF inv]
  have holds: "holds s' j b \<longleftrightarrow> caches s j b \<and> (if j = i then sl_locked (block_lock bf) else holds s j b)" for j b
    unfolding holds_def c u(3) by auto
  show ?thesis
    unfolding bio_inv_def
  proof (intro conjI allI impI subsetI CollectI)
    show "\<exists>xs. ring (bufs s') xs \<and> set xs = {..<NBUF}"
      using upd by (simp add: buf_upd_def)
    show "j = k" if "caches s' j b" "caches s' k b" for j k b
      using that unfolding c by (rule q)
    show "buf_ok s' (bufs s' j)" if "j < NBUF" for j
      using inv ok that unfolding bio_inv_def by (cases "j = i") (simp_all add: buf_ok_def u)
    show "length (disk s' b) = BSIZE" for b
      using dsk inv by (cases "b = blockno bf") (auto simp: bio_inv_disk)
    show "bdata (bufs s' j) = disk s' b" if "caches s' j b" "b \<notin> M'" "\<not> dirty (bufs s' j)" for j b
    proof (cases "b = blockno bf")
      case True
      then have "j = i"
        using that(1) key q unfolding c by blast
      with True that coh show ?thesis
        unfolding u(5,7) by simp
    next
      case False
      then have "j \<noteq> i"
        using that(1) key unfolding c by (auto simp: caches_def)
      with False that show ?thesis
        using bio_inv_clean [OF inv] M dsk(1) unfolding c u(5,7) by simp
    qed
    show "\<exists>j. holds s' j b" if "b \<in> M'" for b
    proof (cases "b = blockno bf")
      case True
      with that Mi key show ?thesis
        unfolding holds by auto
    next
      case False
      with that M inv obtain j where "holds s j b"
        unfolding bio_inv_def by blast
      moreover from this False key have "j \<noteq> i"
        by (auto simp: holds_def caches_def)
      ultimately show ?thesis
        unfolding holds by (auto simp: holds_def)
    qed
  qed
qed

lemma buf_upd_same_abs:
  assumes inv: "bio_inv M s" and upd: "buf_upd i bf s s'" and key: "caches s i (blockno bf)" "bdev bf = 1"
    and dsk: "\<And>b. b \<noteq> blockno bf \<Longrightarrow> disk s' b = disk s b"
  shows "view s' = (view s)(blockno bf := bdata bf)"
    and "apinned (abs_bio s') = (if dirty bf then insert (blockno bf) (apinned (abs_bio s)) else apinned (abs_bio s) - {blockno bf})"
    and "aheld (abs_bio s') = (if sl_locked (block_lock bf) then insert (blockno bf) (aheld (abs_bio s)) else aheld (abs_bio s) - {blockno bf})"
proof -
  note c = buf_upd_caches [OF upd key(2,1)] and u = buf_updD [OF upd] and q = bio_inv_uniq [OF inv]
  have other: "caches s j b \<Longrightarrow> j = i \<longleftrightarrow> b = blockno bf" for j b
    using key(1) q by (auto simp: caches_def)
  show "view s' = (view s)(blockno bf := bdata bf)"
  proof
    fix b
    show "view s' b = ((view s)(blockno bf := bdata bf)) b"
    proof (cases "\<exists>j. caches s j b")
      case True
      then obtain j where j: "caches s j b" ..
      have "view s' b = bdata (bufs s' j)"
        by (rule view_caches) (use j q in \<open>auto simp: c\<close>)
      then show ?thesis
        using j other [OF j] bio_inv_view [OF inv j] by (simp add: u)
    next
      case False
      then have "b \<noteq> blockno bf"
        using key by auto
      with False show ?thesis
        by (simp add: view_uncached c dsk)
    qed
  qed
  show "apinned (abs_bio s') = (if dirty bf then insert (blockno bf) (apinned (abs_bio s)) else apinned (abs_bio s) - {blockno bf})"
    by (rule set_eqI) (use key other in \<open>auto simp: apinned_iff c u(7)\<close>)
  show "aheld (abs_bio s') = (if sl_locked (block_lock bf) then insert (blockno bf) (aheld (abs_bio s)) else aheld (abs_bio s) - {blockno bf})"
    by (rule set_eqI) (use key other in \<open>auto simp: aheld_iff holds_def c u(3)\<close>)
qed

text \<open>Recycling an idle, clean buffer \<open>i\<close> for a block that is not cached.\<close>

lemma buf_upd_recycle:
  assumes inv: "bio_inv M s" and upd: "buf_upd i bf s s'"
    and idle: "\<not> sl_locked (block_lock (bufs s i))" "\<not> dirty (bufs s i)"
    and fresh: "\<And>j. \<not> caches s j (blockno bf)"
    and bf: "bdev bf = 1" "buf_ok s bf" "\<not> dirty bf" "sl_locked (block_lock bf)" "bdata bf = disk s (blockno bf)"
    and dsk: "disk s' = disk s" "dwrites s' = dwrites s"
  shows "bio_inv M s'"
    and "abs_bio s' = (abs_bio s)\<lparr>aheld := insert (blockno bf) (aheld (abs_bio s))\<rparr>"
    and "holds s' i (blockno bf)"
    and "holds s j b \<Longrightarrow> holds s' j b"
proof -
  note u = buf_updD [OF upd] and q = bio_inv_uniq [OF inv]
  have c: "caches s' j b \<longleftrightarrow> (if j = i then b = blockno bf else caches s j b)" for j b
    using bf(1) u(10) by (auto simp: caches_def u(1,2))
  have h: "holds s' j b \<longleftrightarrow> (if j = i then b = blockno bf else holds s j b)" for j b
    using bf(4) by (auto simp: holds_def c u(3))
  have hi: "\<not> holds s i b" for b
    using idle by (simp add: holds_def)
  show "holds s' i (blockno bf)" "holds s j b \<Longrightarrow> holds s' j b"
    using hi by (auto simp: h)
  have uq: "j = k" if "caches s' j b" "caches s' k b" for j k b
    using that fresh q by (auto simp: c split: if_splits)
  have Mf: "blockno bf \<notin> M"
    using inv fresh unfolding bio_inv_def holds_def by blast
  show "bio_inv M s'"
    unfolding bio_inv_def
  proof (intro conjI allI impI)
    show "\<exists>xs. ring (bufs s') xs \<and> set xs = {..<NBUF}"
      using upd by (simp add: buf_upd_def)
    show "j = k" if "caches s' j b" "caches s' k b" for j k b
      using that by (rule uq)
    show "buf_ok s' (bufs s' j)" if "j < NBUF" for j
      using inv bf that unfolding bio_inv_def by (cases "j = i") (simp_all add: buf_ok_def u)
    show "length (disk s' b) = BSIZE" for b
      using inv by (simp add: bio_inv_disk dsk)
    show "bdata (bufs s' j) = disk s' b" if "caches s' j b" "b \<notin> M" "\<not> dirty (bufs s' j)" for j b
      using that bf(5) bio_inv_clean [OF inv, of j b] by (simp add: c u dsk split: if_splits)
    show "M \<subseteq> {b. \<exists>j. holds s' j b}"
    proof
      fix b
      assume "b \<in> M"
      then obtain j where "holds s j b"
        using bio_inv_M [OF inv] by blast
      with hi [of b] have "holds s' j b"
        by (auto simp: h)
      then show "b \<in> {b. \<exists>j. holds s' j b}"
        by blast
    qed
  qed
  have "view s' b = view s b" for b
  proof (cases "\<exists>j. caches s' j b")
    case True
    then obtain j where j: "caches s' j b" ..
    then have "view s' b = bdata (bufs s' j)"
      by (rule view_caches) (use j uq in blast)
    then show ?thesis
      using j bf(5) fresh bio_inv_view [OF inv, of j b]
      by (simp add: c u view_uncached split: if_splits)
  next
    case False
    then have nc: "\<And>j. \<not> caches s' j b" by blast
    show ?thesis
    proof (cases "caches s i b")
      case True
      moreover have "b \<notin> M"
        using True inv q idle(1) unfolding bio_inv_def holds_def by blast
      ultimately show ?thesis
        using idle bio_inv_view [OF inv] bio_inv_clean [OF inv] by (simp add: view_uncached [OF nc] dsk)
    next
      case False
      then have "\<And>j. \<not> caches s j b"
        using nc c by (metis (full_types))
      then show ?thesis
        by (simp add: view_uncached [OF nc] view_uncached dsk)
    qed
  qed
  moreover have "caches s' j b \<and> dirty (bufs s' j) \<longleftrightarrow> caches s j b \<and> dirty (bufs s j)" for j b
    using idle bf(3) by (cases "j = i") (auto simp: c u(7))
  moreover have "(\<exists>j. holds s' j b) \<longleftrightarrow> b = blockno bf \<or> (\<exists>j. holds s j b)" for b
    using h hi by metis
  ultimately show "abs_bio s' = (abs_bio s)\<lparr>aheld := insert (blockno bf) (aheld (abs_bio s))\<rparr>"
    by (auto simp: abs_bio_def dsk u(8) fun_eq_iff)
qed

lemma finite_abs_sets: "finite (apinned (abs_bio s))" "finite (aheld (abs_bio s))"
proof -
  have "apinned (abs_bio s) \<union> aheld (abs_bio s) \<subseteq> (\<lambda>i. blockno (bufs s i)) ` {..<NBUF}"
    by (auto simp: apinned_iff aheld_iff holds_def caches_def)
  then have "finite (apinned (abs_bio s) \<union> aheld (abs_bio s))"
    by (rule finite_subset) simp
  then show "finite (apinned (abs_bio s))" "finite (aheld (abs_bio s))"
    by simp_all
qed

lemma idle_buffer:
  assumes inv: "bio_inv M s" and room: "card (apinned (abs_bio s) \<union> aheld (abs_bio s)) < NBUF"
  shows "\<exists>i < NBUF. refcnt (bufs s i) = 0 \<and> \<not> dirty (bufs s i)"
proof (rule ccontr)
  assume none: "\<not> ?thesis"
  have used: "caches s i (blockno (bufs s i)) \<and> (dirty (bufs s i) \<or> holds s i (blockno (bufs s i)))" if "i < NBUF" for i
  proof -
    have "buf_ok s (bufs s i)"
      using inv that by (simp add: bio_inv_def)
    then show ?thesis
      using none that by (auto simp: buf_ok_def caches_def holds_def split: if_splits)
  qed
  have "inj_on (\<lambda>i. blockno (bufs s i)) {..<NBUF}"
    using used bio_inv_uniq [OF inv] by (intro inj_onI) (metis lessThan_iff)
  then have "card ((\<lambda>i. blockno (bufs s i)) ` {..<NBUF}) = NBUF"
    by (simp add: card_image)
  moreover have "(\<lambda>i. blockno (bufs s i)) ` {..<NBUF} \<subseteq> apinned (abs_bio s) \<union> aheld (abs_bio s)"
    using used by (auto simp: apinned_iff aheld_iff) blast
  ultimately show False
    using room card_mono [OF finite_UnI [OF finite_abs_sets]] by (metis not_le)
qed

lemma bget_hit:
  assumes inv: "bio_inv M s" and i: "caches s i bn"
  shows "bget 1 bn s = lock_buf i (set_buf i ((bufs s i)\<lparr>refcnt := refcnt (bufs s i) + 1\<rparr>) s)"
proof -
  let ?P = "\<lambda>b. b = HEAD \<or> bdev (bufs s b) = 1 \<and> blockno (bufs s b) = bn"
  from inv obtain xs where xs: "ring (bufs s) xs" "set xs = {..<NBUF}"
    unfolding bio_inv_def by blast
  let ?b = "first_or ?P HEAD xs"
  have b: "?b \<noteq> HEAD"
    using first_or_none [of ?P HEAD xs i] i xs by (auto simp: caches_def ring_def dring_def)
  then have "caches s ?b bn"
    using first_or_sat [OF b] first_or_in [of ?P HEAD xs] xs by (auto simp: caches_def)
  then have "?b = i"
    using i inv by (blast dest: bio_inv_uniq)
  then show ?thesis
    using b ring_walks(1) [OF xs, of "\<lambda>b. bdev (bufs s b) = 1 \<and> blockno (bufs s b) = bn"]
    by (simp add: bget_def)
qed

lemma bget_miss:
  assumes inv: "bio_inv M s" and miss: "\<And>i. \<not> caches s i bn"
    and idle: "\<exists>i < NBUF. refcnt (bufs s i) = 0 \<and> \<not> dirty (bufs s i)"
  shows "\<exists>i < NBUF. refcnt (bufs s i) = 0 \<and> \<not> dirty (bufs s i) \<and>
     bget 1 bn s = lock_buf i (set_buf i ((bufs s i)\<lparr>bdev := 1, blockno := bn, flags := 0, refcnt := 1\<rparr>) s)"
proof -
  let ?P = "\<lambda>b. b = HEAD \<or> bdev (bufs s b) = 1 \<and> blockno (bufs s b) = bn"
  let ?Q = "\<lambda>b. b = HEAD \<or> refcnt (bufs s b) = 0 \<and> flags (bufs s b) AND B_DIRTY = 0"
  from inv obtain xs where xs: "ring (bufs s) xs" "set xs = {..<NBUF}"
    unfolding bio_inv_def by blast
  have p: "first_or ?P HEAD xs = HEAD"
  proof (rule ccontr)
    assume "first_or ?P HEAD xs \<noteq> HEAD"
    then have "caches s (first_or ?P HEAD xs) bn"
      using first_or_sat [of ?P HEAD xs] first_or_in [of ?P HEAD xs] xs by (auto simp: caches_def)
    with miss show False by blast
  qed
  let ?b = "first_or ?Q HEAD (rev xs)"
  have b: "?b \<noteq> HEAD"
    using first_or_none [of ?Q HEAD "rev xs"] idle xs by (auto simp: ring_def dring_def dirty_def)
  then have "?b < NBUF" "refcnt (bufs s ?b) = 0 \<and> \<not> dirty (bufs s ?b)"
    using first_or_sat [OF b] first_or_in [of ?Q HEAD "rev xs"] xs by (auto simp: dirty_def)
  moreover have "bget 1 bn s = lock_buf ?b (set_buf ?b ((bufs s ?b)\<lparr>bdev := 1, blockno := bn, flags := 0, refcnt := 1\<rparr>) s)"
    using b p ring_walks(1) [OF xs, of "\<lambda>b. bdev (bufs s b) = 1 \<and> blockno (bufs s b) = bn"]
      ring_walks(2) [OF xs, of "\<lambda>b. refcnt (bufs s b) = 0 \<and> flags (bufs s b) AND B_DIRTY = 0"]
    by (simp add: bget_def)
  ultimately show ?thesis by blast
qed

lemma abs_bio_eqI:
  assumes "view s' = aview a" "disk s' = adisk a" "apinned (abs_bio s') = apinned a"
    "aheld (abs_bio s') = aheld a" "dwrites s' = ahist a" "disksize s' = alimit a"
  shows "abs_bio s' = a"
  using assms by (simp add: abs_bio_def)

lemma holds_caches: "holds s i bn \<Longrightarrow> caches s i bn"
  by (simp add: holds_def)

lemma holds_data: "bio_inv M s \<Longrightarrow> holds s i bn \<Longrightarrow> bdata (bufs s i) = view s bn"
  using bio_inv_view holds_caches by metis

lemma holds_holding:
  assumes "bio_inv M s" and "holds s i bn"
  shows "holdingsleep (curpid s) (block_lock (bufs s i))" and "buf_ok s (bufs s i)"
    and "bdev (bufs s i) = 1" and "blockno (bufs s i) = bn" and "bn < disksize s" and "i < NBUF"
    and "valid (bufs s i)"
proof -
  show ok: "buf_ok s (bufs s i)"
    using assms bio_inv_buf_ok holds_caches by blast
  show k: "bdev (bufs s i) = 1" "blockno (bufs s i) = bn" "i < NBUF"
    using assms(2) by (auto simp: holds_def caches_def)
  from ok k assms(2) show "holdingsleep (curpid s) (block_lock (bufs s i))" "bn < disksize s" "valid (bufs s i)"
    by (auto simp: buf_ok_def holdingsleep_def holds_def)
qed

lemma bread_hit:
  assumes inv: "bio_inv M s" and i: "caches s i bn" and free: "bn \<notin> aheld (abs_bio s)"
  shows "\<exists>s'. bread 1 bn s = Inr (i, s') \<and> bio_inv M s' \<and> holds s' i bn \<and> bio.more s' = bio.more s
     \<and> abs_bio s' = (abs_bio s)\<lparr>aheld := insert bn (aheld (abs_bio s))\<rparr>
     \<and> (\<forall>j b. holds s j b \<longrightarrow> holds s' j b)"
proof -
  have ul: "\<not> sl_locked (block_lock (bufs s i))"
    using i free by (auto simp: aheld_iff holds_def)
  have ok: "buf_ok s (bufs s i)" and k: "bdev (bufs s i) = 1" "blockno (bufs s i) = bn" "i < NBUF"
    using inv i bio_inv_buf_ok by (auto simp: caches_def)
  let ?bf = "(bufs s i)\<lparr>refcnt := refcnt (bufs s i) + 1,
    block_lock := (block_lock (bufs s i))\<lparr>sl_locked := True, sl_pid := curpid s\<rparr>\<rparr>"
  let ?s = "set_buf i ?bf (set_buf i ((bufs s i)\<lparr>refcnt := refcnt (bufs s i) + 1\<rparr>) s)"
  have okb: "buf_ok s ?bf"
    using ok ul k by (simp add: buf_ok_def)
  have upd: "buf_upd i ?bf s ?s"
    by (rule buf_upd_set_buf [OF inv k(3)]) simp_all
  have key: "caches s i (blockno ?bf)" "bdev ?bf = 1"
    using i k by (simp_all)
  have c: "caches ?s j b = caches s j b" for j b
    by (rule buf_upd_caches [OF upd key(2,1)])
  have inv': "bio_inv M ?s"
    using bio_inv_clean [OF inv i] bio_inv_disk [OF inv] k
    by (intro buf_upd_same_inv [OF inv upd key okb]) simp_all
  note abs = buf_upd_same_abs [OF inv upd key]
  have "abs_bio ?s = (abs_bio s)\<lparr>aheld := insert bn (aheld (abs_bio s))\<rparr>"
    by (rule abs_bio_eqI)
      (use bio_inv_view [OF inv i] pinned_caches [OF inv i] in \<open>auto simp: abs k\<close>)
  moreover have "bread 1 bn s = Inr (i, ?s)"
    using ok k ul by (simp add: bread_def bget_hit [OF inv i] lock_buf_def acquiresleep_free buf_ok_def valid_def)
  moreover have "holds ?s i bn" "\<forall>j b. holds s j b \<longrightarrow> holds ?s j b"
    using i by (simp_all add: holds_def c)
  ultimately show ?thesis
    using inv' by (intro exI [of _ ?s] conjI) simp_all
qed

lemma bread_miss:
  assumes inv: "bio_inv M s" and miss: "\<And>i. \<not> caches s i bn" and bn: "bn < disksize s"
    and idle: "\<exists>i < NBUF. refcnt (bufs s i) = 0 \<and> \<not> dirty (bufs s i)"
  shows "\<exists>i s'. bread 1 bn s = Inr (i, s') \<and> bio_inv M s' \<and> holds s' i bn \<and> bio.more s' = bio.more s
     \<and> abs_bio s' = (abs_bio s)\<lparr>aheld := insert bn (aheld (abs_bio s))\<rparr>
     \<and> (\<forall>j b. holds s j b \<longrightarrow> holds s' j b)"
proof -
  obtain i where i: "i < NBUF" "refcnt (bufs s i) = 0" "\<not> dirty (bufs s i)"
    and get: "bget 1 bn s = lock_buf i (set_buf i ((bufs s i)\<lparr>bdev := 1, blockno := bn, flags := 0, refcnt := 1\<rparr>) s)"
    using bget_miss [OF inv miss idle] by blast
  have ok: "buf_ok s (bufs s i)"
    using inv i by (simp add: bio_inv_def)
  then have ul: "\<not> sl_locked (block_lock (bufs s i))"
    using i by (simp add: buf_ok_def split: if_splits)
  let ?nb = "(bufs s i)\<lparr>bdev := 1, blockno := bn, flags := 0, refcnt := 1,
    block_lock := (block_lock (bufs s i))\<lparr>sl_locked := True, sl_pid := curpid s\<rparr>\<rparr>"
  let ?bf = "?nb\<lparr>bdata := disk s bn, flags := 0 OR B_VALID\<rparr>"
  let ?t = "set_buf i ?nb (set_buf i ((bufs s i)\<lparr>bdev := 1, blockno := bn, flags := 0, refcnt := 1\<rparr>) s)"
  let ?s = "set_buf i ?bf ?t"
  have vd: "valid ?bf" "\<not> dirty ?bf" "\<not> valid ?nb" "\<not> dirty ?nb"
    by (simp_all add: valid_def dirty_def)
  have okb: "buf_ok s ?bf"
    using vd(1) bn bio_inv_disk [OF inv] by (simp add: buf_ok_def)
  have upd: "buf_upd i ?bf s ?s"
    by (rule buf_upd_set_buf [OF inv i(1)]) simp_all
  have "iderw i ?t = Inr ?s"
    using iderw_read [of ?t i] vd(3,4) bn by (simp add: holdingsleep_def)
  then have "bread 1 bn s = Inr (i, ?s)"
    using vd(3) ul by (simp add: bread_def get lock_buf_def acquiresleep_free valid_def)
  moreover note buf_upd_recycle [OF inv upd ul i(3) _ _ okb vd(2)]
  then have "bio_inv M ?s" "abs_bio ?s = (abs_bio s)\<lparr>aheld := insert bn (aheld (abs_bio s))\<rparr>"
    "holds ?s i bn" "\<And>j b. holds s j b \<Longrightarrow> holds ?s j b"
    using miss by simp_all
  ultimately show ?thesis
    by (intro exI [of _ i] exI [of _ ?s] conjI) simp_all
qed

lemma bread_refines:
  assumes inv: "bio_inv M s" and bn: "bn < disksize s" and free: "bn \<notin> aheld (abs_bio s)"
    and room: "bn \<in> apinned (abs_bio s) \<or> card (apinned (abs_bio s) \<union> aheld (abs_bio s)) < NBUF"
  shows "\<exists>i s'. bread 1 bn s = Inr (i, s') \<and> bio_inv M s' \<and> holds s' i bn \<and> bio.more s' = bio.more s
     \<and> abs_bio s' = (abs_bio s)\<lparr>aheld := insert bn (aheld (abs_bio s))\<rparr>
     \<and> (\<forall>j b. holds s j b \<longrightarrow> holds s' j b)"
proof (cases "\<exists>i. caches s i bn")
  case True
  with bread_hit [OF inv _ free] show ?thesis by blast
next
  case False
  then have "bn \<notin> apinned (abs_bio s)"
    by (simp add: apinned_iff)
  with False room show ?thesis
    by (intro bread_miss [OF inv _ bn idle_buffer [OF inv]]) simp_all
qed

lemma set_data_refines:
  assumes inv: "bio_inv M s" and i: "holds s i bn" and d: "length d = BSIZE"
  shows "bio_inv (insert bn M) (set_data i d s) \<and> bio.more (set_data i d s) = bio.more s
     \<and> abs_bio (set_data i d s) = (abs_bio s)\<lparr>aview := (view s)(bn := d)\<rparr>
     \<and> (\<forall>j b. holds (set_data i d s) j b = holds s j b)"
proof -
  note h = holds_holding [OF inv i]
  let ?bf = "(bufs s i)\<lparr>bdata := d\<rparr>" and ?s = "set_data i d s"
  have upd: "buf_upd i ?bf s ?s"
    by (rule buf_upd_set_buf [OF inv h(6)]) simp_all
  have key: "caches s i (blockno ?bf)" "bdev ?bf = 1"
    using i h by (simp_all add: holds_def)
  have lk: "sl_locked (block_lock (bufs s i))"
    using i by (simp add: holds_def)
  have "buf_ok s ?bf"
    using h(2) d by (simp add: buf_ok_def)
  then have "bio_inv (insert bn M) ?s"
    using bio_inv_disk [OF inv] lk h
    by (intro buf_upd_same_inv [OF inv upd key]) simp_all
  moreover note abs = buf_upd_same_abs [OF inv upd key]
  have "abs_bio ?s = (abs_bio s)\<lparr>aview := (view s)(bn := d)\<rparr>"
    by (rule abs_bio_eqI)
      (use lk i pinned_caches [OF inv holds_caches [OF i]] in \<open>auto simp: abs h aheld_iff\<close>)
  moreover have "holds ?s j b = holds s j b" for j b
    using buf_upd_caches [OF upd key(2,1)] by (simp add: holds_def)
  ultimately show ?thesis
    by simp
qed

lemma bwrite_refines:
  assumes inv: "bio_inv M s" and i: "holds s i bn"
  shows "\<exists>s'. bwrite i s = Inr s' \<and> bio_inv (M - {bn}) s' \<and> bio.more s' = bio.more s
     \<and> abs_bio s' = (abs_bio s)\<lparr>adisk := (disk s)(bn := view s bn), apinned := apinned (abs_bio s) - {bn},
          ahist := dwrites s @ [(bn, view s bn)]\<rparr>
     \<and> (\<forall>j b. holds s' j b = holds s j b)"
proof -
  note h = holds_holding [OF inv i] and d = holds_data [OF inv i]
  define nb where "nb = (bufs s i)\<lparr>flags := flags (bufs s i) OR B_DIRTY\<rparr>"
  define bf where "bf = nb\<lparr>flags := (flags nb AND NOT B_DIRTY) OR B_VALID\<rparr>"
  define s' where "s' = set_buf i bf ((set_buf i nb s)\<lparr>disk := (disk s)(bn := view s bn),
    dwrites := dwrites s @ [(bn, view s bn)]\<rparr>)"
  have vd: "valid bf" "\<not> dirty bf" "dirty nb"
    unfolding bf_def by (rule flags_written, rule flags_written) (simp add: nb_def)
  have nb: "bdev nb = 1" "blockno nb = bn" "block_lock nb = block_lock (bufs s i)" "bdata nb = view s bn"
    using h d by (simp_all add: nb_def)
  have bf: "bdev bf = 1" "blockno bf = bn" "block_lock bf = block_lock (bufs s i)" "bdata bf = view s bn"
    "bnext bf = bnext (bufs s i)" "bprev bf = bprev (bufs s i)" "refcnt bf = refcnt (bufs s i)"
    using h d by (simp_all add: bf_def nb_def)
  have s': "bufs s' = (bufs s)(i := bf)" "disk s' = (disk s)(bn := view s bn)" "disksize s' = disksize s"
    "curpid s' = curpid s" "dwrites s' = dwrites s @ [(bn, view s bn)]" "bio.more s' = bio.more s"
    by (simp_all add: s'_def)
  have run: "bwrite i s = Inr s'"
    using iderw_write [of "set_buf i nb s" i] vd(3) h nb by (simp add: bwrite_def s'_def bf_def nb_def [symmetric])
  have upd: "buf_upd i bf s s'"
    by (rule buf_upd_set_buf [OF inv h(6)]) (simp_all add: bf s')
  have key: "caches s i (blockno bf)" "bdev bf = 1"
    using i by (simp_all add: bf holds_def)
  have lk: "sl_locked (block_lock (bufs s i))"
    using i by (simp add: holds_def)
  have "buf_ok s bf"
    using h(2,5) vd(1) bio_inv_length [OF inv] by (simp add: buf_ok_def bf)
  then have "bio_inv (M - {bn}) s'"
    by (rule buf_upd_same_inv [OF inv upd key])
      (use bio_inv_length [OF inv] in \<open>simp_all add: bf s'\<close>)
  moreover have dsk: "\<And>b. b \<noteq> blockno bf \<Longrightarrow> disk s' b = disk s b"
    by (simp add: bf s')
  have abs: "view s' = view s" "apinned (abs_bio s') = apinned (abs_bio s) - {bn}"
    "aheld (abs_bio s') = insert bn (aheld (abs_bio s))"
    using buf_upd_same_abs [OF inv upd key dsk] vd lk by (simp_all add: bf)
  have "abs_bio s' = (abs_bio s)\<lparr>adisk := (disk s)(bn := view s bn), apinned := apinned (abs_bio s) - {bn},
          ahist := dwrites s @ [(bn, view s bn)]\<rparr>"
    by (rule abs_bio_eqI) (use i in \<open>auto simp: abs s' aheld_iff\<close>)
  moreover have "holds s' j b = holds s j b" for j b
    using buf_upd_caches [OF upd key(2,1)] by (simp add: holds_def s' bf)
  ultimately show ?thesis
    using run s'(6) by blast
qed

lemma brelse_refines:
  assumes inv: "bio_inv M s" and i: "holds s i bn" and M: "bn \<notin> M"
  shows "\<exists>s'. brelse i s = Inr s' \<and> bio_inv M s' \<and> bio.more s' = bio.more s
     \<and> abs_bio s' = (abs_bio s)\<lparr>aheld := aheld (abs_bio s) - {bn}\<rparr>
     \<and> (\<forall>j b. j \<noteq> i \<longrightarrow> holds s j b \<longrightarrow> holds s' j b)"
proof -
  note h = holds_holding [OF inv i] and d = holds_data [OF inv i]
  have lk: "sl_locked (block_lock (bufs s i))"
    using i by (simp add: holds_def)
  let ?bf = "(bufs s i)\<lparr>block_lock := releasesleep (block_lock (bufs s i)), refcnt := 0\<rparr>"
  let ?s = "s\<lparr>bufs := link_front i (unlink i ((bufs s)(i := ?bf)))\<rparr>"
  have run: "brelse i s = Inr ?s"
    using h(1,2) lk by (simp add: brelse_def Let_def buf_ok_def)
  obtain xs where xs: "ring (bufs s) xs" "set xs = {..<NBUF}"
    using inv unfolding bio_inv_def by blast
  then obtain us vs where sp: "xs = us @ i # vs"
    using h(6) by (metis lessThan_iff split_list)
  have "ring ((bufs s)(i := ?bf)) (us @ i # vs)"
    using xs sp by (simp add: ring_def)
  then have "ring (bufs ?s) (i # us @ vs)"
    by (simp add: ring_to_front)
  moreover have "set (i # us @ vs) = {..<NBUF}"
    using xs sp by auto
  ultimately have upd: "buf_upd i ?bf s ?s"
    using h(6) unfolding buf_upd_def by (intro conjI exI [of _ "i # us @ vs"]) auto
  have key: "caches s i (blockno ?bf)" "bdev ?bf = 1"
    using i h by (simp_all add: holds_def)
  have "buf_ok s ?bf"
    using h by (simp add: buf_ok_def)
  then have "bio_inv M ?s"
    using bio_inv_disk [OF inv] bio_inv_clean [OF inv holds_caches [OF i]] M
    by (intro buf_upd_same_inv [OF inv upd key]) (simp_all add: h)
  moreover note abs = buf_upd_same_abs [OF inv upd key]
  have "abs_bio ?s = (abs_bio s)\<lparr>aheld := aheld (abs_bio s) - {bn}\<rparr>"
    by (rule abs_bio_eqI)
      (use pinned_caches [OF inv holds_caches [OF i]] in \<open>auto simp: abs h d [symmetric]\<close>)
  moreover have "holds ?s j b" if "j \<noteq> i" "holds s j b" for j b
    using that buf_upd_caches [OF upd key(2,1)] buf_updD(3) [OF upd, of j] by (simp add: holds_def)
  ultimately show ?thesis
    using run by (intro exI [of _ ?s]) simp
qed

text \<open>The static, zeroed buffers \<^verbatim>\<open>binit\<close> starts from.\<close>

definition zero_buf :: buf where
  "zero_buf = \<lparr>flags = 0, bdev = 0, blockno = 0, block_lock = \<lparr>sl_locked = False, sl_name = [], sl_pid = 0\<rparr>,
     refcnt = 0, bprev = 0, bnext = 0, qnext = None, bdata = replicate BSIZE 0\<rparr>"

lemma core_binit_body:
  "core (binit_body b bs q) = core (if q = b then (bs b)\<lparr>block_lock := initsleeplock ''buffer''\<rparr> else bs q)"
  by (simp add: binit_body_def)

lemma core_fold_binit:
  "core (fold binit_body ns bs q)
     = core (if q \<in> set ns then (bs q)\<lparr>block_lock := initsleeplock ''buffer''\<rparr> else bs q)"
proof (induction ns arbitrary: bs)
  case (Cons n ns)
  have "core ((binit_body n bs q)\<lparr>block_lock := l\<rparr>) = (core (binit_body n bs q))\<lparr>block_lock := l\<rparr>" for l
    by (simp add: core_def)
  moreover have "(core b)\<lparr>block_lock := l\<rparr> = core (b\<lparr>block_lock := l\<rparr>)" for l b
    by (simp add: core_def)
  ultimately show ?case
    using Cons [of "binit_body n bs"] by (auto simp: core_binit_body)
qed simp

lemma binit_core:
  assumes "bufs s = (\<lambda>_. zero_buf)"
  shows "core (bufs (binit s) i) = core (if i < NBUF then zero_buf\<lparr>block_lock := initsleeplock ''buffer''\<rparr> else zero_buf)"
  unfolding binit_def Let_def
  using assms by (simp add: core_fold_binit) (simp add: core_def set_next_def set_prev_def)

lemma binit_ring: "ring (bufs (binit s)) (rev [0..<NBUF])"
proof -
  let ?bs = "set_next HEAD HEAD (set_prev HEAD HEAD (bufs s))"
  have "ring ?bs []"
    by (simp add: ring_def dring_def)
  then show ?thesis
    using ring_fold_binit [of ?bs "[]" "[0..<NBUF]"] by (simp add: binit_def Let_def del: upt_rec_numeral)
qed

lemma binit_refines:
  assumes z: "bufs s = (\<lambda>_. zero_buf)" and d: "\<And>bn. length (disk s bn) = BSIZE"
  shows "bio_inv {} (binit s)"
    and "abs_bio (binit s) = \<lparr>aview = disk s, adisk = disk s, apinned = {}, aheld = {},
        ahist = dwrites s, alimit = disksize s\<rparr>"
proof -
  note c = core_eqD [OF binit_core [OF z]]
  have f: "disk (binit s) = disk s" "dwrites (binit s) = dwrites s" "disksize (binit s) = disksize s"
    by (simp_all add: binit_def Let_def)
  have nc: "\<not> caches (binit s) i bn" for i bn
    by (simp add: caches_def c zero_buf_def)
  have "buf_ok (binit s) (bufs (binit s) i)" for i
    by (simp add: buf_ok_def c) (simp add: zero_buf_def valid_def dirty_def initsleeplock_def)
  then show "bio_inv {} (binit s)"
    using d binit_ring [of s] nc by (auto simp: bio_inv_def f intro!: exI [of _ "rev [0..<NBUF]"] simp del: upt_rec_numeral)
  show "abs_bio (binit s) = \<lparr>aview = disk s, adisk = disk s, apinned = {}, aheld = {},
        ahist = dwrites s, alimit = disksize s\<rparr>"
    using nc by (intro abs_bio_eqI) (auto simp: view_uncached f apinned_iff aheld_iff holds_def)
qed

section \<open>Order of use\<close>

lemma brelse_front:
  assumes inv: "bio_inv M s" and i: "holds s i bn" and xs: "ring (bufs s) xs" "set xs = {..<NBUF}"
  shows "\<exists>s'. brelse i s = Inr s' \<and> ring (bufs s') (i # remove1 i xs)"
proof -
  note h = holds_holding [OF inv i]
  let ?bf = "(bufs s i)\<lparr>block_lock := releasesleep (block_lock (bufs s i)), refcnt := 0\<rparr>"
  let ?s = "s\<lparr>bufs := link_front i (unlink i ((bufs s)(i := ?bf)))\<rparr>"
  have run: "brelse i s = Inr ?s"
    using h(1,2) i by (simp add: brelse_def Let_def buf_ok_def holds_def)
  obtain us vs where sp: "xs = us @ i # vs" "i \<notin> set us"
    using xs(2) h(6) by (metis lessThan_iff split_list_first)
  have "ring ((bufs s)(i := ?bf)) (us @ i # vs)"
    using xs sp by (simp add: ring_def)
  then have "ring (bufs ?s) (i # us @ vs)"
    by (simp add: ring_to_front)
  moreover have "remove1 i xs = us @ vs"
    using sp by (simp add: remove1_append)
  ultimately show ?thesis
    using run by auto
qed

lemma first_or_split:
  assumes "first_or P z xs \<noteq> z"
  shows "\<exists>us vs. xs = us @ first_or P z xs # vs \<and> (\<forall>u \<in> set us. \<not> P u) \<and> P (first_or P z xs)"
  using assms
proof (induction xs)
  case (Cons x xs)
  show ?case
  proof (cases "P x")
    case True
    then show ?thesis
      by (intro exI [of _ "[]"] exI [of _ xs]) simp
  next
    case False
    with Cons obtain us vs where "xs = us @ first_or P z xs # vs" "\<forall>u \<in> set us. \<not> P u" "P (first_or P z xs)"
      by auto
    with False show ?thesis
      by (intro exI [of _ "x # us"] exI [of _ vs]) auto
  qed
qed simp

lemma bget_lru:
  assumes inv: "bio_inv M s" and xs: "ring (bufs s) xs" "set xs = {..<NBUF}"
    and miss: "\<forall>i. \<not> caches s i bn" and idle: "\<exists>i < NBUF. refcnt (bufs s i) = 0 \<and> \<not> dirty (bufs s i)"
  shows "\<exists>us j vs s'. xs = us @ j # vs \<and> bget 1 bn s = Inr (j, s') \<and> refcnt (bufs s j) = 0 \<and> \<not> dirty (bufs s j)
          \<and> (\<forall>k \<in> set vs. refcnt (bufs s k) \<noteq> 0 \<or> dirty (bufs s k))"
proof -
  let ?P = "\<lambda>b. b = HEAD \<or> bdev (bufs s b) = 1 \<and> blockno (bufs s b) = bn"
  let ?Q = "\<lambda>b. b = HEAD \<or> refcnt (bufs s b) = 0 \<and> flags (bufs s b) AND B_DIRTY = 0"
  have p: "first_or ?P HEAD xs = HEAD"
    using first_or_sat [of ?P HEAD xs] first_or_in [of ?P HEAD xs] xs miss by (auto simp: caches_def)
  let ?b = "first_or ?Q HEAD (rev xs)"
  have b: "?b \<noteq> HEAD"
    using first_or_none [of ?Q HEAD "rev xs"] idle xs by (auto simp: ring_def dring_def dirty_def)
  obtain us vs where sp: "rev xs = us @ ?b # vs" "\<forall>u \<in> set us. \<not> ?Q u" "?Q ?b"
    using first_or_split [OF b] by blast
  have idle_b: "refcnt (bufs s ?b) = 0 \<and> \<not> dirty (bufs s ?b)" "?b < NBUF"
    using sp(3) b first_or_in [of ?Q HEAD "rev xs"] xs by (auto simp: dirty_def)
  have "\<not> sl_locked (block_lock (bufs s ?b))"
    using inv idle_b by (auto simp: bio_inv_def buf_ok_def split: if_splits)
  then have "\<exists>s'. bget 1 bn s = Inr (?b, s')"
    using b p ring_walks(1) [OF xs, of "\<lambda>b. bdev (bufs s b) = 1 \<and> blockno (bufs s b) = bn"]
      ring_walks(2) [OF xs, of "\<lambda>b. refcnt (bufs s b) = 0 \<and> flags (bufs s b) AND B_DIRTY = 0"]
    by (simp add: bget_def lock_buf_def acquiresleep_free)
  moreover have "xs = rev vs @ ?b # rev us"
    using arg_cong [OF sp(1), of rev] by simp
  moreover have "\<forall>k \<in> set (rev us). refcnt (bufs s k) \<noteq> 0 \<or> dirty (bufs s k)"
    using sp(2) by (auto simp: dirty_def)
  ultimately show ?thesis
    using idle_b by blast
qed

section \<open>Main results\<close>

definition boot_bio :: bio where
  "boot_bio = binit \<lparr>curpid = 1, bufs = (\<lambda>_. zero_buf), disk = (\<lambda>b. replicate BSIZE (ucast b)), disksize = 100, dwrites = []\<rparr>"

lemma boot_bio_facts:
  "bio_inv {} boot_bio"
  "abs_bio boot_bio = \<lparr>aview = \<lambda>b. replicate BSIZE (ucast b), adisk = \<lambda>b. replicate BSIZE (ucast b),
     apinned = {}, aheld = {}, ahist = [], alimit = 100\<rparr>"
  "disksize boot_bio = 100"
proof -
  let ?s = "\<lparr>curpid = 1, bufs = (\<lambda>_. zero_buf), disk = (\<lambda>b. replicate BSIZE (ucast b)), disksize = 100, dwrites = []\<rparr>"
  show "bio_inv {} boot_bio"
    unfolding boot_bio_def by (rule binit_refines) simp_all
  show "abs_bio boot_bio = \<lparr>aview = \<lambda>b. replicate BSIZE (ucast b), adisk = \<lambda>b. replicate BSIZE (ucast b),
     apinned = {}, aheld = {}, ahist = [], alimit = 100\<rparr>"
    unfolding boot_bio_def by (subst binit_refines(2)) simp_all
  show "disksize boot_bio = 100"
    by (simp add: boot_bio_def binit_def Let_def)
qed

text \<open>
  C4: the buffer cache is a coherent cache. If \<^verbatim>\<open>bread\<close> is asked for a block that the process
  does not hold, and the block is pinned or fewer than NBUF blocks are pinned or held, it returns
  a locked buffer that holds the current contents of exactly that block; no block changes its
  contents or its pinned state, no disk write happens, the other locked buffers stay locked, and
  the invariant of the cache (one ring of all buffers, no block cached twice, clean buffers agree
  with the disk) is kept.
\<close>

theorem bread_returns_block:
  assumes "bio_inv M s" and "bn < disksize s" and "bn \<notin> aheld (abs_bio s)"
    and "bn \<in> apinned (abs_bio s) \<or> card (apinned (abs_bio s) \<union> aheld (abs_bio s)) < NBUF"
  shows "\<exists>i s'. bread 1 bn s = Inr (i, s') \<and> bio_inv M s' \<and> holds s' i bn \<and> bdata (bufs s' i) = view s bn
     \<and> abs_bio s' = (abs_bio s)\<lparr>aheld := insert bn (aheld (abs_bio s))\<rparr>
     \<and> (\<forall>j b. holds s j b \<longrightarrow> holds s' j b)"
proof -
  obtain i s' where r: "bread 1 bn s = Inr (i, s')" "bio_inv M s'" "holds s' i bn"
     "abs_bio s' = (abs_bio s)\<lparr>aheld := insert bn (aheld (abs_bio s))\<rparr>" "\<forall>j b. holds s j b \<longrightarrow> holds s' j b"
    using bread_refines [OF assms] by blast
  moreover have "bdata (bufs s' i) = view s bn"
    using holds_data [OF r(2,3)] arg_cong [OF r(4), of aview] by simp
  ultimately show ?thesis
    by blast
qed

theorem bread_returns_block_witness:
  "\<exists>i s'. bread 1 7 boot_bio = Inr (i, s') \<and> bio_inv {} s' \<and> holds s' i 7 \<and> bdata (bufs s' i) = replicate BSIZE 7"
proof -
  have "view boot_bio = (\<lambda>b. replicate BSIZE (ucast b))"
    using arg_cong [OF boot_bio_facts(2), of aview] by simp
  then show ?thesis
    using bread_returns_block [OF boot_bio_facts(1), of 7] boot_bio_facts(2,3) by auto
qed

text \<open>
  C20: replacement is least recently used. With the buffers in the ring order \<open>xs\<close>, releasing a
  buffer moves it to the front and keeps the order of the others; and a block that is not cached
  gets the idle, clean buffer that is furthest from the front.
\<close>

theorem lru_replacement:
  assumes inv: "bio_inv M s" and xs: "ring (bufs s) xs" "set xs = {..<NBUF}"
  shows "(holds s i bn \<and> bn \<notin> M \<longrightarrow> (\<exists>s'. brelse i s = Inr s' \<and> ring (bufs s') (i # remove1 i xs)))
    \<and> ((\<forall>j. \<not> caches s j c) \<and> (\<exists>j < NBUF. refcnt (bufs s j) = 0 \<and> \<not> dirty (bufs s j)) \<longrightarrow>
       (\<exists>us j vs s'. xs = us @ j # vs \<and> bget 1 c s = Inr (j, s') \<and> refcnt (bufs s j) = 0 \<and> \<not> dirty (bufs s j)
          \<and> (\<forall>k \<in> set vs. refcnt (bufs s k) \<noteq> 0 \<or> dirty (bufs s k))))"
proof (intro conjI impI)
  assume h: "holds s i bn \<and> bn \<notin> M"
  then show "\<exists>s'. brelse i s = Inr s' \<and> ring (bufs s') (i # remove1 i xs)"
    using brelse_front [OF inv _ xs] by blast
next
  assume miss: "(\<forall>j. \<not> caches s j c) \<and> (\<exists>j < NBUF. refcnt (bufs s j) = 0 \<and> \<not> dirty (bufs s j))"
  then show "\<exists>us j vs s'. xs = us @ j # vs \<and> bget 1 c s = Inr (j, s') \<and> refcnt (bufs s j) = 0 \<and> \<not> dirty (bufs s j)
          \<and> (\<forall>k \<in> set vs. refcnt (bufs s k) \<noteq> 0 \<or> dirty (bufs s k))"
    using bget_lru [OF inv xs] by blast
qed

lemma set_rev_upt: "set (rev [0..<n]) = {..<n}"
  by auto

theorem lru_replacement_witness:
  "\<exists>us j vs s'. rev [0..<NBUF] = us @ j # vs \<and> bget 1 7 boot_bio = Inr (j, s')
     \<and> (\<forall>k \<in> set vs. refcnt (bufs boot_bio k) \<noteq> 0 \<or> dirty (bufs boot_bio k))"
proof -
  have r: "ring (bufs boot_bio) (rev [0..<NBUF])"
    unfolding boot_bio_def by (rule binit_ring)
  have none: "\<not> caches boot_bio j 7" for j
    unfolding boot_bio_def by (simp add: caches_def core_eqD [OF binit_core] zero_buf_def)
  moreover have "refcnt (bufs boot_bio 0) = 0 \<and> \<not> dirty (bufs boot_bio 0)"
    unfolding boot_bio_def by (simp add: core_eqD [OF binit_core] dirty_def) (simp add: zero_buf_def)
  then have "\<exists>j < NBUF. refcnt (bufs boot_bio j) = 0 \<and> \<not> dirty (bufs boot_bio j)"
    by (intro exI [of _ 0]) simp
  ultimately show ?thesis
    using conjunct2 [OF lru_replacement [OF boot_bio_facts(1) r, of 0 0 7]] set_rev_upt by blast
qed

end
