(* ===== verification/Block_Layer.thy ===== *)
theory Block_Layer
  imports Bio
begin

text \<open>
  The contract between the buffer cache and its clients, the log and the file system: what
  \<^verbatim>\<open>bread\<close>, \<^verbatim>\<open>bwrite\<close>, \<^verbatim>\<open>brelse\<close> and a change of a locked buffer do to the
  abstract cache. The idioms of the clients (read a block, copy a block to another and write it,
  change a block) are derived once from the contract.
\<close>

locale block_cache =
  fixes rd :: "uint \<Rightarrow> 's \<Rightarrow> (nat \<times> 's) res"
    and wr :: "nat \<Rightarrow> 's \<Rightarrow> 's res"
    and rel :: "nat \<Rightarrow> 's \<Rightarrow> 's res"
    and dat :: "nat \<Rightarrow> 's \<Rightarrow> bytes"
    and put :: "nat \<Rightarrow> bytes \<Rightarrow> 's \<Rightarrow> 's"
    and inv :: "uint set \<Rightarrow> 's \<Rightarrow> bool"
    and abs :: "'s \<Rightarrow> acache"
    and hld :: "'s \<Rightarrow> nat \<Rightarrow> uint \<Rightarrow> bool"
    and rest :: "'s \<Rightarrow> 'r"
  assumes rd_law: "\<lbrakk>inv M s; bn < alimit (abs s); bn \<notin> aheld (abs s);
      bn \<in> apinned (abs s) \<or> card (apinned (abs s) \<union> aheld (abs s)) < NBUF\<rbrakk> \<Longrightarrow>
      \<exists>i s'. rd bn s = Inr (i, s') \<and> inv M s' \<and> hld s' i bn \<and> rest s' = rest s
        \<and> abs s' = (abs s)\<lparr>aheld := insert bn (aheld (abs s))\<rparr>
        \<and> (\<forall>j b. hld s j b \<longrightarrow> hld s' j b)"
    and wr_law: "\<lbrakk>inv M s; hld s i bn\<rbrakk> \<Longrightarrow>
      \<exists>s'. wr i s = Inr s' \<and> inv (M - {bn}) s' \<and> rest s' = rest s
        \<and> abs s' = (abs s)\<lparr>adisk := (adisk (abs s))(bn := aview (abs s) bn),
             apinned := apinned (abs s) - {bn}, ahist := ahist (abs s) @ [(bn, aview (abs s) bn)]\<rparr>
        \<and> (\<forall>j b. hld s' j b = hld s j b)"
    and rel_law: "\<lbrakk>inv M s; hld s i bn; bn \<notin> M\<rbrakk> \<Longrightarrow>
      \<exists>s'. rel i s = Inr s' \<and> inv M s' \<and> rest s' = rest s
        \<and> abs s' = (abs s)\<lparr>aheld := aheld (abs s) - {bn}\<rparr>
        \<and> (\<forall>j b. j \<noteq> i \<longrightarrow> hld s j b \<longrightarrow> hld s' j b)"
    and put_law: "\<lbrakk>inv M s; hld s i bn; length d = BSIZE\<rbrakk> \<Longrightarrow>
      inv (insert bn M) (put i d s) \<and> rest (put i d s) = rest s
        \<and> abs (put i d s) = (abs s)\<lparr>aview := (aview (abs s))(bn := d)\<rparr>
        \<and> (\<forall>j b. hld (put i d s) j b = hld s j b)"
    and dat_law: "\<lbrakk>inv M s; hld s i bn\<rbrakk> \<Longrightarrow> dat i s = aview (abs s) bn \<and> bn \<in> aheld (abs s)"
    and hld_inj: "\<lbrakk>inv M s; hld s i b; hld s i b'\<rbrakk> \<Longrightarrow> b = b'"
    and len_law: "inv M s \<Longrightarrow> length (aview (abs s) bn) = BSIZE"
    and fin_law: "inv M s \<Longrightarrow> finite (apinned (abs s)) \<and> finite (aheld (abs s))"
begin

lemma read_release:
  assumes "inv M s" and "bn < alimit (abs s)" and "bn \<notin> aheld (abs s)" and "bn \<notin> M"
    and "bn \<in> apinned (abs s) \<or> card (apinned (abs s) \<union> aheld (abs s)) < NBUF"
  shows "\<exists>i s1 s2. rd bn s = Inr (i, s1) \<and> dat i s1 = aview (abs s) bn \<and> rel i s1 = Inr s2
    \<and> inv M s2 \<and> abs s2 = abs s \<and> rest s1 = rest s \<and> rest s2 = rest s"
proof -
  obtain i s1 where 1: "rd bn s = Inr (i, s1)" "inv M s1" "hld s1 i bn" "rest s1 = rest s"
    "abs s1 = (abs s)\<lparr>aheld := insert bn (aheld (abs s))\<rparr>"
    using rd_law [OF assms(1,2,3,5)] by blast
  obtain s2 where 2: "rel i s1 = Inr s2" "inv M s2" "rest s2 = rest s1"
    "abs s2 = (abs s1)\<lparr>aheld := aheld (abs s1) - {bn}\<rparr>"
    using rel_law [OF 1(2,3) assms(4)] by blast
  have "abs s2 = abs s"
    using 1 2 assms(3) by simp
  moreover have "dat i s1 = aview (abs s) bn"
    using dat_law [OF 1(2,3)] 1(5) by simp
  ultimately show ?thesis
    using 1 2 by metis
qed

lemma read_two:
  assumes "inv M s" and "a < alimit (abs s)" and "b < alimit (abs s)" and "a \<noteq> b" and "aheld (abs s) = {}"
    and "card (apinned (abs s)) < NBUF" and "b \<in> apinned (abs s) \<or> card (apinned (abs s)) + 1 < NBUF"
  shows "\<exists>i s1 j s2. rd a s = Inr (i, s1) \<and> rd b s1 = Inr (j, s2) \<and> i \<noteq> j \<and> inv M s2 \<and> rest s1 = rest s
    \<and> rest s2 = rest s \<and> hld s2 i a \<and> hld s2 j b \<and> abs s2 = (abs s)\<lparr>aheld := {a, b}\<rparr>"
proof -
  obtain i s1 where 1: "rd a s = Inr (i, s1)" "inv M s1" "hld s1 i a" "rest s1 = rest s"
    "abs s1 = (abs s)\<lparr>aheld := {a}\<rparr>"
    using rd_law [OF assms(1,2)] assms(5,6) by auto
  have "card (apinned (abs s) \<union> {a}) \<le> card (apinned (abs s)) + 1"
    using fin_law [OF assms(1)] by (simp add: card_insert_if)
  then obtain j s2 where 2: "rd b s1 = Inr (j, s2)" "inv M s2" "hld s2 j b" "rest s2 = rest s1"
    "abs s2 = (abs s1)\<lparr>aheld := {b, a}\<rparr>" "hld s2 i a"
    using rd_law [OF 1(2), of b] 1(3,5) assms(3,4,7) by auto
  have "i \<noteq> j"
    using hld_inj [OF 2(2)] 2(3,6) assms(4) by blast
  then show ?thesis
    using 1 2 by (intro exI [of _ i] exI [of _ s1] exI [of _ j] exI [of _ s2]) (simp add: insert_commute)
qed

lemma copy_write_release:
  assumes inv: "inv {} s" and h: "hld s p a" "hld s q b" and ne: "p \<noteq> q" "a \<noteq> b"
    and held: "aheld (abs s) = {a, b}"
  shows "\<exists>s1 s2 s3. wr q (put q (dat p s) s) = Inr s1 \<and> rel p s1 = Inr s2 \<and> rel q s2 = Inr s3
    \<and> inv {} s3 \<and> rest s1 = rest s \<and> rest s2 = rest s \<and> rest s3 = rest s
    \<and> abs s3 = (abs s)\<lparr>aview := (aview (abs s))(b := aview (abs s) a),
         adisk := (adisk (abs s))(b := aview (abs s) a), apinned := apinned (abs s) - {b},
         aheld := {}, ahist := ahist (abs s) @ [(b, aview (abs s) a)]\<rparr>"
proof -
  let ?d = "aview (abs s) a" and ?p = "put q (dat p s) s"
  have d: "dat p s = ?d"
    using dat_law [OF inv h(1)] by simp
  note put = put_law [OF inv h(2) len_law [OF inv, of a], folded d]
  obtain s1 where 1: "wr q ?p = Inr s1" "inv {} s1" "rest s1 = rest s" "hld s1 p a" "hld s1 q b"
    "abs s1 = (abs ?p)\<lparr>adisk := (adisk (abs s))(b := ?d), apinned := apinned (abs s) - {b},
       ahist := ahist (abs s) @ [(b, ?d)]\<rparr>"
    using wr_law [of "{b}" ?p q b] put h d by auto
  obtain s2 where 2: "rel p s1 = Inr s2" "inv {} s2" "rest s2 = rest s" "hld s2 q b"
    "abs s2 = (abs s1)\<lparr>aheld := {a, b} - {a}\<rparr>"
    using rel_law [OF 1(2,4)] 1 ne held put by auto
  obtain s3 where 3: "rel q s2 = Inr s3" "inv {} s3" "rest s3 = rest s"
    "abs s3 = (abs s2)\<lparr>aheld := {}\<rparr>"
    using rel_law [OF 2(2,4)] 2 ne by auto
  show ?thesis
    using 1 2 3 put d by (intro exI [of _ s1] exI [of _ s2] exI [of _ s3]) simp
qed

lemma change_write_release:
  assumes inv: "inv {} s" and bn: "bn < alimit (abs s)" and held: "aheld (abs s) = {}"
    and room: "card (apinned (abs s)) < NBUF"
  shows "\<exists>i s1. rd bn s = Inr (i, s1) \<and> rest s1 = rest s \<and> dat i s1 = aview (abs s) bn \<and>
    (\<forall>d. length d = BSIZE \<longrightarrow> (\<exists>s2 s3. wr i (put i d s1) = Inr s2 \<and> rel i s2 = Inr s3 \<and> inv {} s3
       \<and> rest s2 = rest s \<and> rest s3 = rest s
       \<and> abs s3 = (abs s)\<lparr>aview := (aview (abs s))(bn := d), adisk := (adisk (abs s))(bn := d),
            apinned := apinned (abs s) - {bn}, ahist := ahist (abs s) @ [(bn, d)]\<rparr>))"
proof -
  obtain i s1 where 1: "rd bn s = Inr (i, s1)" "inv {} s1" "hld s1 i bn" "rest s1 = rest s"
    "abs s1 = (abs s)\<lparr>aheld := {bn}\<rparr>"
    using rd_law [OF inv bn] held room by auto
  have "\<exists>s2 s3. wr i (put i d s1) = Inr s2 \<and> rel i s2 = Inr s3 \<and> inv {} s3
       \<and> rest s2 = rest s \<and> rest s3 = rest s
       \<and> abs s3 = (abs s)\<lparr>aview := (aview (abs s))(bn := d), adisk := (adisk (abs s))(bn := d),
            apinned := apinned (abs s) - {bn}, ahist := ahist (abs s) @ [(bn, d)]\<rparr>"
    if d: "length d = BSIZE" for d
  proof -
    note put = put_law [OF 1(2,3) d]
    obtain s2 where 2: "wr i (put i d s1) = Inr s2" "inv {} s2" "rest s2 = rest s" "hld s2 i bn"
      "abs s2 = (abs (put i d s1))\<lparr>adisk := (adisk (abs s))(bn := d), apinned := apinned (abs s) - {bn},
         ahist := ahist (abs s) @ [(bn, d)]\<rparr>"
      using wr_law [of "{bn}" "put i d s1" i bn] put 1 by auto
    obtain s3 where 3: "rel i s2 = Inr s3" "inv {} s3" "rest s3 = rest s" "abs s3 = (abs s2)\<lparr>aheld := {}\<rparr>"
      using rel_law [OF 2(2,4)] 2 1 put by auto
    show ?thesis
      using 1 2 3 put held by (intro exI [of _ s2] exI [of _ s3]) simp
  qed
  moreover have "dat i s1 = aview (abs s) bn"
    using dat_law [OF 1(2,3)] 1(5) by simp
  ultimately show ?thesis
    using 1 by blast
qed

end

text \<open>The cache of \<^verbatim>\<open>bio.c\<close> over the in-memory disk keeps the contract.\<close>

interpretation bc: block_cache "bread 1" bwrite brelse "\<lambda>i s. bdata (bufs s i)" set_data
  bio_inv abs_bio holds bio.more
proof unfold_locales
  show "\<lbrakk>bio_inv M s; holds s i b; holds s i b'\<rbrakk> \<Longrightarrow> b = b'" for M s i b b'
    by (simp add: holds_def caches_def)
  show "\<lbrakk>bio_inv M s; holds s i bn\<rbrakk> \<Longrightarrow> bdata (bufs s i) = aview (abs_bio s) bn \<and> bn \<in> aheld (abs_bio s)" for M s i bn
    by (auto simp: holds_data aheld_iff)
  show "\<exists>s'. brelse i s = Inr s' \<and> bio_inv M s' \<and> bio.more s' = bio.more s
        \<and> abs_bio s' = (abs_bio s)\<lparr>aheld := aheld (abs_bio s) - {bn}\<rparr>
        \<and> (\<forall>j b. j \<noteq> i \<longrightarrow> holds s j b \<longrightarrow> holds s' j b)"
    if "bio_inv M s" "holds s i bn" "bn \<notin> M" for M s i bn
    using that by (rule brelse_refines)
qed (simp_all add: bread_refines bwrite_refines set_data_refines bio_inv_length finite_abs_sets)

end
