(* ===== verification/Log.thy ===== *)
theory Log
  imports Block_Layer
begin

text \<open>
  The write-ahead log, \<^verbatim>\<open>log.c\<close>, over the buffer cache, with the super block it is
  configured from (\<^verbatim>\<open>fs.h\<close>, \<^verbatim>\<open>readsb\<close> of \<^verbatim>\<open>fs.c\<close>). The in-memory
  \<^verbatim>\<open>struct log\<close> extends the state of the block layer. Block numbers and \<^verbatim>\<open>log.start\<close>
  are 32-bit words, as \<^verbatim>\<open>bread\<close> takes them; the counters are C ints.
\<close>

section \<open>The super block\<close>

record superblock =
  sb_size :: uint
  nblocks :: uint
  ninodes :: uint
  nlog :: uint
  logstart :: uint
  inodestart :: uint
  bmapstart :: uint

definition sb_of_bytes :: "bytes \<Rightarrow> superblock" where
  "sb_of_bytes d = \<lparr>sb_size = get32 d 0, nblocks = get32 d 4, ninodes = get32 d 8, nlog = get32 d 12,
     logstart = get32 d 16, inodestart = get32 d 20, bmapstart = get32 d 24\<rparr>"

definition readsb :: "uint \<Rightarrow> 'a bio_scheme \<Rightarrow> (superblock \<times> 'a bio_scheme) res" where
  "readsb dev s =
     rbind (bread dev 1 s) (\<lambda>(bp, s).
     let sb = sb_of_bytes (bdata (bufs s bp)) in
     rbind (brelse bp s) (\<lambda>s. Inr (sb, s)))"

section \<open>The log\<close>

abbreviation MAXOPBLOCKS :: int where "MAXOPBLOCKS \<equiv> 10"
abbreviation LOGSIZE :: nat where "LOGSIZE \<equiv> 30"

record logheader =
  ln :: int
  lblock :: "uint list"

record xlog =
  lstart :: uint
  lsize :: int
  outstanding :: int
  committing :: bool
  ldev :: uint
  lh :: logheader

record log_sys = bio +
  lg :: xlog

definition set_lh :: "logheader \<Rightarrow> 'a log_sys_scheme \<Rightarrow> 'a log_sys_scheme" where
  "set_lh h s = s\<lparr>lg := (lg s)\<lparr>lh := h\<rparr>\<rparr>"

text \<open>An access to \<^verbatim>\<open>log.lh.block\<close>, an array of \<^verbatim>\<open>LOGSIZE\<close> ints.\<close>

definition lh_at :: "nat \<Rightarrow> 'a log_sys_scheme \<Rightarrow> uint res" where
  "lh_at i s = (if i < LOGSIZE then Inr (lblock (lh (lg s)) ! i) else Inl Fault)"

definition install_body :: "nat \<Rightarrow> 'a log_sys_scheme \<Rightarrow> 'a log_sys_scheme res" where
  "install_body tail s =
     rbind (bread (ldev (lg s)) (lstart (lg s) + of_nat tail + 1) s) (\<lambda>(lbuf, s).
     rbind (lh_at tail s) (\<lambda>bn.
     rbind (bread (ldev (lg s)) bn s) (\<lambda>(dbuf, s).
     rbind (bwrite dbuf (set_data dbuf (blit (bdata (bufs s dbuf)) 0 (bdata (bufs s lbuf))) s)) (\<lambda>s.
     rbind (brelse lbuf s) (\<lambda>s.
     brelse dbuf s)))))"

definition install_trans :: "'a log_sys_scheme \<Rightarrow> 'a log_sys_scheme res" where
  "install_trans s = for_each install_body [0..<nat (ln (lh (lg s)))] s"

definition lh_n :: "bytes \<Rightarrow> int" where
  "lh_n d = sint (get32 d 0)"

definition lh_block :: "bytes \<Rightarrow> nat \<Rightarrow> uint" where
  "lh_block d i = get32 d (4 + 4 * i)"

definition read_head :: "'a log_sys_scheme \<Rightarrow> 'a log_sys_scheme res" where
  "read_head s =
     rbind (bread (ldev (lg s)) (lstart (lg s)) s) (\<lambda>(buf, s).
     let d = bdata (bufs s buf) in
     rbind (guard (lh_n d \<le> int LOGSIZE) Fault) (\<lambda>_.
     let bl = fold (\<lambda>i bl. bl[i := lh_block d i]) [0..<nat (lh_n d)] (lblock (lh (lg s)));
         s = set_lh \<lparr>ln = lh_n d, lblock = bl\<rparr> s in
     brelse buf s))"

definition head_bytes :: "int \<Rightarrow> uint list \<Rightarrow> bytes \<Rightarrow> bytes" where
  "head_bytes n bl d =
     fold (\<lambda>i d. put32 d (4 + 4 * i) (bl ! i)) [0..<nat n] (put32 d 0 (word_of_int n))"

definition write_head :: "'a log_sys_scheme \<Rightarrow> 'a log_sys_scheme res" where
  "write_head s =
     rbind (bread (ldev (lg s)) (lstart (lg s)) s) (\<lambda>(buf, s).
     rbind (guard (ln (lh (lg s)) \<le> int LOGSIZE) Fault) (\<lambda>_.
     let s = set_data buf (head_bytes (ln (lh (lg s))) (lblock (lh (lg s))) (bdata (bufs s buf))) s in
     rbind (bwrite buf s) (\<lambda>s.
     brelse buf s)))"

definition recover_from_log :: "'a log_sys_scheme \<Rightarrow> 'a log_sys_scheme res" where
  "recover_from_log s =
     rbind (read_head s) (\<lambda>s.
     rbind (install_trans s) (\<lambda>s.
     write_head (set_lh ((lh (lg s))\<lparr>ln := 0\<rparr>) s)))"

text \<open>
  \<^verbatim>\<open>initlog\<close>: its check on \<^verbatim>\<open>sizeof(struct logheader)\<close> compares the constants
  4 + 4 * LOGSIZE and BSIZE.
\<close>

definition initlog :: "uint \<Rightarrow> 'a log_sys_scheme \<Rightarrow> 'a log_sys_scheme res" where
  "initlog dev s =
     (if BSIZE \<le> 4 + 4 * LOGSIZE then Inl (Panic ''initlog: too big logheader'')
      else rbind (readsb dev s) (\<lambda>(sb, s).
        recover_from_log (s\<lparr>lg := (lg s)\<lparr>lstart := logstart sb, lsize := sint (nlog sb), ldev := dev\<rparr>\<rparr>)))"

definition begin_op :: "'a log_sys_scheme \<Rightarrow> 'a log_sys_scheme res" where
  "begin_op s =
     (if committing (lg s) then Inl Sleep
      else if int LOGSIZE < ln (lh (lg s)) + (outstanding (lg s) + 1) * MAXOPBLOCKS then Inl Sleep
      else Inr (s\<lparr>lg := (lg s)\<lparr>outstanding := outstanding (lg s) + 1\<rparr>\<rparr>))"

definition write_log_body :: "nat \<Rightarrow> 'a log_sys_scheme \<Rightarrow> 'a log_sys_scheme res" where
  "write_log_body tail s =
     rbind (bread (ldev (lg s)) (lstart (lg s) + of_nat tail + 1) s) (\<lambda>(to, s).
     rbind (lh_at tail s) (\<lambda>bn.
     rbind (bread (ldev (lg s)) bn s) (\<lambda>(from, s).
     rbind (bwrite to (set_data to (blit (bdata (bufs s to)) 0 (bdata (bufs s from))) s)) (\<lambda>s.
     rbind (brelse from s) (\<lambda>s.
     brelse to s)))))"

definition write_log :: "'a log_sys_scheme \<Rightarrow> 'a log_sys_scheme res" where
  "write_log s = for_each write_log_body [0..<nat (ln (lh (lg s)))] s"

definition commit :: "'a log_sys_scheme \<Rightarrow> 'a log_sys_scheme res" where
  "commit s =
     (if 0 < ln (lh (lg s))
      then rbind (write_log s) (\<lambda>s.
           rbind (write_head s) (\<lambda>s.
           rbind (install_trans s) (\<lambda>s.
           write_head (set_lh ((lh (lg s))\<lparr>ln := 0\<rparr>) s))))
      else Inr s)"

definition end_op :: "'a log_sys_scheme \<Rightarrow> 'a log_sys_scheme res" where
  "end_op s =
     (let s = s\<lparr>lg := (lg s)\<lparr>outstanding := outstanding (lg s) - 1\<rparr>\<rparr> in
      if committing (lg s) then Inl (Panic ''log.committing'')
      else if outstanding (lg s) = 0
      then rbind (commit (s\<lparr>lg := (lg s)\<lparr>committing := True\<rparr>\<rparr>))
             (\<lambda>s. Inr (s\<lparr>lg := (lg s)\<lparr>committing := False\<rparr>\<rparr>))
      else Inr s)"

text \<open>The search of \<^verbatim>\<open>log_write\<close> for a block already logged: the index of the first match, or \<open>n\<close>.\<close>

function log_find :: "uint list \<Rightarrow> uint \<Rightarrow> nat \<Rightarrow> nat \<Rightarrow> nat" where
  "log_find bl b i n = (if i < n \<and> bl ! i \<noteq> b then log_find bl b (Suc i) n else i)"
  by pat_completeness auto
termination
  by (relation "measure (\<lambda>(bl, b, i, n). n - i)") auto

declare log_find.simps [simp del]

definition log_write :: "nat \<Rightarrow> 'a log_sys_scheme \<Rightarrow> 'a log_sys_scheme res" where
  "log_write b s =
     (let n = ln (lh (lg s)); bl = lblock (lh (lg s)) in
      if int LOGSIZE \<le> n \<or> lsize (lg s) - 1 \<le> n then Inl (Panic ''too big a transaction'')
      else if outstanding (lg s) < 1 then Inl (Panic ''log_write outside of trans'')
      else let i = log_find bl (blockno (bufs s b)) 0 (nat n);
               s = set_lh \<lparr>ln = (if int i = n then n + 1 else n), lblock = bl[i := blockno (bufs s b)]\<rparr> s
           in Inr (set_buf b ((bufs s b)\<lparr>flags := flags (bufs s b) OR B_DIRTY\<rparr>) s))"

end
