(* ===== verification/Log_Crash.thy ===== *)
theory Log_Crash
  imports Log
begin

text \<open>
  Crash safety of the log. A crash cuts the sequence of disk writes of \<^verbatim>\<open>commit\<close>
  short; \<^verbatim>\<open>recover_from_log\<close> then runs on the next boot. \<open>replay\<close> says what
  recovery makes of a disk; recovery implements it, and on every prefix of a commit it gives
  either all the old blocks or all the new ones.
\<close>

section \<open>Disk writes\<close>

definition apply_writes :: "(uint \<times> bytes) list \<Rightarrow> (uint \<Rightarrow> bytes) \<Rightarrow> uint \<Rightarrow> bytes" where
  "apply_writes ws d = fold (\<lambda>(b, v) d. d(b := v)) ws d"

lemma apply_writes_simps [simp]:
  "apply_writes [] d = d" "apply_writes ((b, v) # ws) d = apply_writes ws (d(b := v))"
  "apply_writes (ws @ vs) d = apply_writes vs (apply_writes ws d)"
  by (simp_all add: apply_writes_def)

lemma apply_writes_other: "b \<notin> fst ` set ws \<Longrightarrow> apply_writes ws d b = d b"
  by (induction ws arbitrary: d) auto

lemma apply_writes_cong:
  assumes "d b = d' b"
  shows "apply_writes ws d b = apply_writes ws d' b"
  using assms
proof (induction ws arbitrary: d d')
  case (Cons w ws)
  show ?case
    using Cons.prems by (cases w) (simp, rule Cons.IH, simp)
qed simp

lemma apply_writes_in:
  assumes "(b, v) \<in> set ws" and "distinct (map fst ws)"
  shows "apply_writes ws d b = v"
  using assms
proof (induction ws arbitrary: d)
  case (Cons w ws)
  then show ?case
    by (cases w) (auto simp: apply_writes_other)
qed simp

lemma apply_writes_last:
  assumes "b \<in> fst ` set ws"
  shows "apply_writes ws d b = apply_writes ws d' b"
  using assms
proof (induction ws arbitrary: d d')
  case (Cons w ws)
  obtain c v where w: "w = (c, v)"
    by (cases w)
  show ?case
  proof (cases "b \<in> fst ` set ws")
    case True
    then show ?thesis
      unfolding w apply_writes_simps by (rule Cons.IH)
  next
    case False
    with Cons.prems w show ?thesis
      unfolding w apply_writes_simps by (intro apply_writes_cong) auto
  qed
qed simp

section \<open>The log region\<close>

definition in_log :: "uint \<Rightarrow> uint \<Rightarrow> bool" where
  "in_log st b \<longleftrightarrow> unat st \<le> unat b \<and> unat b < unat st + LOGSIZE"

definition log_slot :: "uint \<Rightarrow> nat \<Rightarrow> uint" where
  "log_slot st i = st + of_nat i + 1"

text \<open>The log region lies inside the disk.\<close>

definition log_area :: "uint \<Rightarrow> uint \<Rightarrow> bool" where
  "log_area st lim \<longleftrightarrow> unat st + LOGSIZE \<le> unat lim"

lemma unat_log_slot:
  assumes "log_area st lim" and "i < 29"
  shows "unat (log_slot st i) = unat st + i + 1"
proof -
  have "unat st + 30 < 4294967296"
    using assms(1) unat_uint_lt [of lim] by (simp add: log_area_def del: unat_uint_lt)
  then show ?thesis
    using assms(2) unat_plus_small [of st "of_nat i"] unat_plus_small [of "st + of_nat i" 1]
    by (simp add: log_slot_def)
qed

lemma log_slot_props:
  assumes "log_area st lim" and "i < 29"
  shows "in_log st (log_slot st i)" "log_slot st i < lim" "log_slot st i \<noteq> st"
proof -
  note u = unat_log_slot [OF assms]
  show "in_log st (log_slot st i)"
    using u assms(2) by (simp add: in_log_def)
  show "log_slot st i < lim"
    using u assms by (simp add: word_less_nat_alt log_area_def)
  show "log_slot st i \<noteq> st"
    using u by auto
qed

lemma log_slot_inj:
  assumes "log_area st lim" and "i < 29" and "j < 29"
  shows "log_slot st i = log_slot st j \<longleftrightarrow> i = j"
proof
  assume "log_slot st i = log_slot st j"
  then have "unat st + i + 1 = unat st + j + 1"
    using unat_log_slot [OF assms(1,2)] unat_log_slot [OF assms(1,3)] by metis
  then show "i = j"
    by linarith
qed simp

lemma log_start_props: "log_area st lim \<Longrightarrow> in_log st st" "log_area st lim \<Longrightarrow> st < lim"
  by (simp_all add: in_log_def log_area_def word_less_nat_alt)

lemma in_log_ne: "in_log st b \<Longrightarrow> \<not> in_log st c \<Longrightarrow> b \<noteq> c"
  by auto

section \<open>The loops of the log\<close>

text \<open>Writing blocks through the cache, on the abstract state.\<close>

definition abs_write :: "(uint \<times> bytes) list \<Rightarrow> acache \<Rightarrow> acache" where
  "abs_write ws a = a\<lparr>aview := apply_writes ws (aview a), adisk := apply_writes ws (adisk a),
     apinned := apinned a - fst ` set ws, ahist := ahist a @ ws\<rparr>"

lemma abs_write_Nil [simp]: "abs_write [] a = a"
  by (simp add: abs_write_def)

lemma abs_write_append: "abs_write (ws @ vs) a = abs_write vs (abs_write ws a)"
  by (simp add: abs_write_def image_Un Diff_eq Int_assoc)

lemma abs_write_sels [simp]:
  "aview (abs_write ws a) = apply_writes ws (aview a)" "adisk (abs_write ws a) = apply_writes ws (adisk a)"
  "apinned (abs_write ws a) = apinned a - fst ` set ws" "aheld (abs_write ws a) = aheld a"
  "ahist (abs_write ws a) = ahist a @ ws" "alimit (abs_write ws a) = alimit a"
  by (simp_all add: abs_write_def)

lemma lg_more: "bio.more s' = bio.more s \<Longrightarrow> lg s' = lg s"
  by (cases s; cases s') simp

lemma view_abs: "view s = aview (abs_bio s)" "disk s = adisk (abs_bio s)"
  "disksize s = alimit (abs_bio s)" "dwrites s = ahist (abs_bio s)"
  by simp_all

text \<open>
  A log whose header describes \<open>n\<close> home blocks, none in the log region. At most
  LOGSIZE - 1 blocks fit: the first block of the region is the header.
\<close>

definition log_wf :: "nat \<Rightarrow> uint list \<Rightarrow> 'a log_sys_scheme \<Rightarrow> bool" where
  "log_wf n bl s \<longleftrightarrow> ldev (lg s) = 1 \<and> ln (lh (lg s)) = int n \<and> lblock (lh (lg s)) = bl
     \<and> length bl = LOGSIZE \<and> n < LOGSIZE \<and> log_area (lstart (lg s)) (disksize s)
     \<and> (\<forall>i < n. bl ! i < disksize s \<and> \<not> in_log (lstart (lg s)) (bl ! i))"

lemma log_wf_more:
  "log_wf n bl s \<Longrightarrow> bio.more s' = bio.more s \<Longrightarrow> alimit (abs_bio s') = alimit (abs_bio s) \<Longrightarrow> log_wf n bl s'"
  using lg_more [of s' s] by (simp add: log_wf_def)

lemma abs_write_one:
  assumes "aheld a = {}"
  shows "a\<lparr>aheld := H, aview := (aview a)(b := v), adisk := (adisk a)(b := v), apinned := apinned a - {b},
      aheld := {}, ahist := ahist a @ [(b, v)]\<rparr> = abs_write [(b, v)] a"
  using assms by (cases a) (simp add: abs_write_def)

lemma install_body_ok:
  assumes inv: "bio_inv {} s" and wf: "log_wf n bl s" and i: "i < n" and held: "aheld (abs_bio s) = {}"
    and room: "card (apinned (abs_bio s)) < NBUF"
      "bl ! i \<in> apinned (abs_bio s) \<or> card (apinned (abs_bio s)) + 1 < NBUF"
  shows "\<exists>s'. install_body i s = Inr s' \<and> bio_inv {} s' \<and> bio.more s' = bio.more s
    \<and> abs_bio s' = abs_write [(bl ! i, view s (log_slot (lstart (lg s)) i))] (abs_bio s)"
proof -
  let ?a = "log_slot (lstart (lg s)) i" and ?b = "bl ! i"
  have c: "log_area (lstart (lg s)) (disksize s)" "i < 29" "?b < disksize s" "\<not> in_log (lstart (lg s)) ?b"
    "ldev (lg s) = 1" "lblock (lh (lg s)) = bl"
    using wf i by (auto simp: log_wf_def)
  note slot = log_slot_props [OF c(1,2)]
  have ne: "?a \<noteq> ?b"
    using slot(1) c(4) by (rule in_log_ne)
  obtain p s1 q s2 where r: "bread 1 ?a s = Inr (p, s1)" "bread 1 ?b s1 = Inr (q, s2)" "p \<noteq> q"
    "bio_inv {} s2" "bio.more s1 = bio.more s" "bio.more s2 = bio.more s" "holds s2 p ?a" "holds s2 q ?b"
    "abs_bio s2 = (abs_bio s)\<lparr>aheld := {?a, ?b}\<rparr>"
    using bc.read_two [OF inv _ _ ne held room] slot(2) c(3) by auto
  obtain s3 s4 s5 where w: "bwrite q (set_data q (bdata (bufs s2 p)) s2) = Inr s3" "brelse p s3 = Inr s4"
    "brelse q s4 = Inr s5" "bio_inv {} s5" "bio.more s5 = bio.more s2"
    "abs_bio s5 = abs_write [(?b, view s ?a)] (abs_bio s)"
    using bc.copy_write_release [OF r(4,7,8,3) ne] r(9) abs_write_one [OF held] by auto
  have "length (bdata (bufs s2 p)) = length (bdata (bufs s2 q))"
    using bio_inv_length [OF r(4)] holds_data [OF r(4,7)] holds_data [OF r(4,8)] by simp
  then have "install_body i s = Inr s5"
    using r(1,2) w(1-3) c lg_more [OF r(5)] lg_more [OF r(6)]
    by (simp add: install_body_def log_slot_def [symmetric] lh_at_def)
  then show ?thesis
    using w r by auto
qed

lemma write_log_body_ok:
  assumes inv: "bio_inv {} s" and wf: "log_wf n bl s" and i: "i < n" and held: "aheld (abs_bio s) = {}"
    and room: "card (apinned (abs_bio s)) < NBUF"
      "bl ! i \<in> apinned (abs_bio s) \<or> card (apinned (abs_bio s)) + 1 < NBUF"
  shows "\<exists>s'. write_log_body i s = Inr s' \<and> bio_inv {} s' \<and> bio.more s' = bio.more s
    \<and> abs_bio s' = abs_write [(log_slot (lstart (lg s)) i, view s (bl ! i))] (abs_bio s)"
proof -
  let ?a = "log_slot (lstart (lg s)) i" and ?b = "bl ! i"
  have c: "log_area (lstart (lg s)) (disksize s)" "i < 29" "?b < disksize s" "\<not> in_log (lstart (lg s)) ?b"
    "ldev (lg s) = 1" "lblock (lh (lg s)) = bl"
    using wf i by (auto simp: log_wf_def)
  note slot = log_slot_props [OF c(1,2)]
  have ne: "?a \<noteq> ?b"
    using slot(1) c(4) by (rule in_log_ne)
  obtain p s1 q s2 where r: "bread 1 ?a s = Inr (p, s1)" "bread 1 ?b s1 = Inr (q, s2)" "p \<noteq> q"
    "bio_inv {} s2" "bio.more s1 = bio.more s" "bio.more s2 = bio.more s" "holds s2 p ?a" "holds s2 q ?b"
    "abs_bio s2 = (abs_bio s)\<lparr>aheld := {?a, ?b}\<rparr>"
    using bc.read_two [OF inv _ _ ne held room] slot(2) c(3) by auto
  obtain s3 s4 s5 where w: "bwrite p (set_data p (bdata (bufs s2 q)) s2) = Inr s3" "brelse q s3 = Inr s4"
    "brelse p s4 = Inr s5" "bio_inv {} s5" "bio.more s5 = bio.more s2"
    "abs_bio s5 = abs_write [(?a, view s ?b)] (abs_bio s)"
    using bc.copy_write_release [OF r(4,8,7) r(3) [symmetric] ne [symmetric]] r(9) abs_write_one [OF held]
    by (auto simp: insert_commute)
  have "length (bdata (bufs s2 p)) = length (bdata (bufs s2 q))"
    using bio_inv_length [OF r(4)] holds_data [OF r(4,7)] holds_data [OF r(4,8)] by simp
  then have "write_log_body i s = Inr s5"
    using r(1,2) w(1-3) c lg_more [OF r(5)] lg_more [OF r(6)]
    by (simp add: write_log_body_def log_slot_def [symmetric] lh_at_def)
  then show ?thesis
    using w r by auto
qed

definition install_writes :: "uint \<Rightarrow> uint list \<Rightarrow> nat \<Rightarrow> (uint \<Rightarrow> bytes) \<Rightarrow> (uint \<times> bytes) list" where
  "install_writes st bl n v = map (\<lambda>i. (bl ! i, v (log_slot st i))) [0..<n]"

definition log_writes :: "uint \<Rightarrow> uint list \<Rightarrow> nat \<Rightarrow> (uint \<Rightarrow> bytes) \<Rightarrow> (uint \<times> bytes) list" where
  "log_writes st bl n v = map (\<lambda>i. (log_slot st i, v (bl ! i))) [0..<n]"

lemma fst_install_writes: "n \<le> length bl \<Longrightarrow> fst ` set (install_writes st bl n v) = set (take n bl)"
  by (simp add: install_writes_def image_image nth_image [symmetric])

lemma fst_log_writes: "fst ` set (log_writes st bl n v) = log_slot st ` {0..<n}"
  by (simp add: log_writes_def image_image)

lemma take_in_home:
  assumes "log_wf n bl s" and "b \<in> set (take n bl)"
  shows "\<not> in_log (lstart (lg s)) b"
  using assms by (auto simp: log_wf_def in_set_conv_nth)

lemma slot_not_home:
  assumes "log_wf n bl s" and "i < n" and "k \<le> n"
  shows "log_slot (lstart (lg s)) i \<notin> set (take k bl)"
proof -
  have "in_log (lstart (lg s)) (log_slot (lstart (lg s)) i)"
    using assms by (intro log_slot_props(1)) (auto simp: log_wf_def)
  moreover have "set (take k bl) \<subseteq> set (take n bl)"
    by (rule set_take_subset_set_take [OF assms(3)])
  ultimately show ?thesis
    using take_in_home [OF assms(1)] by blast
qed

lemma install_trans_ok:
  assumes inv: "bio_inv {} s" and wf: "log_wf n bl s" and held: "aheld (abs_bio s) = {}"
    and room: "card (apinned (abs_bio s)) < NBUF"
      "\<And>i. i < n \<Longrightarrow> bl ! i \<in> apinned (abs_bio s) - set (take i bl)
         \<or> card (apinned (abs_bio s) - set (take i bl)) + 1 < NBUF"
  shows "\<exists>s'. install_trans s = Inr s' \<and> bio_inv {} s' \<and> bio.more s' = bio.more s
    \<and> abs_bio s' = abs_write (install_writes (lstart (lg s)) bl n (view s)) (abs_bio s)"
proof -
  define st where "st = lstart (lg s)"
  let ?I = "\<lambda>k t. bio_inv {} t \<and> bio.more t = bio.more s
    \<and> abs_bio t = abs_write (install_writes st bl k (view s)) (abs_bio s)"
  have len: "n \<le> length bl"
    using wf by (simp add: log_wf_def)
  have step: "\<exists>t'. install_body k t = Inr t' \<and> ?I (Suc k) t'" if k: "k < n" and I: "?I k t" for k t
  proof -
    have wft: "log_wf n bl t"
      using wf I by (intro log_wf_more [OF wf]) simp_all
    have pin: "apinned (abs_bio t) = apinned (abs_bio s) - set (take k bl)"
      using I k len by (simp add: fst_install_writes)
    have "card (apinned (abs_bio t)) < NBUF"
      unfolding pin using room(1) card_mono [OF finite_abs_sets(1), of _ s] by (meson Diff_subset le_less_trans)
    moreover have "view t (log_slot st k) = view s (log_slot st k)"
      using I k len slot_not_home [OF wf k, of k] unfolding view_abs(1) [of t]
      by (simp add: apply_writes_other fst_install_writes st_def)
    ultimately show ?thesis
      using install_body_ok [OF _ wft k] room(2) [OF k] I held lg_more [of t s]
      unfolding pin by (auto simp: st_def install_writes_def abs_write_append)
  qed
  have "?I 0 s"
    using inv by (simp add: install_writes_def)
  from for_each_upt [where I = ?I and f = install_body and n = n, OF this step] show ?thesis
    using wf by (auto simp: install_trans_def log_wf_def st_def)
qed

lemma write_log_ok:
  assumes inv: "bio_inv {} s" and wf: "log_wf n bl s" and held: "aheld (abs_bio s) = {}"
    and pin: "apinned (abs_bio s) = set (take n bl)" and room: "card (apinned (abs_bio s)) < NBUF"
  shows "\<exists>s'. write_log s = Inr s' \<and> bio_inv {} s' \<and> bio.more s' = bio.more s
    \<and> abs_bio s' = abs_write (log_writes (lstart (lg s)) bl n (view s)) (abs_bio s)
    \<and> apinned (abs_bio s') = set (take n bl)"
proof -
  define st where "st = lstart (lg s)"
  let ?I = "\<lambda>k t. bio_inv {} t \<and> bio.more t = bio.more s
    \<and> abs_bio t = abs_write (log_writes st bl k (view s)) (abs_bio s)"
  have len: "n \<le> length bl"
    using wf by (simp add: log_wf_def)
  have pinned: "apinned (abs_bio t) = set (take n bl)" if k: "k \<le> n" and I: "?I k t" for k t
    using I k pin slot_not_home [OF wf, of _ n] by (auto simp: fst_log_writes st_def)
  have step: "\<exists>t'. write_log_body k t = Inr t' \<and> ?I (Suc k) t'" if k: "k < n" and I: "?I k t" for k t
  proof -
    have wft: "log_wf n bl t"
      using wf I by (intro log_wf_more [OF wf]) simp_all
    have p: "apinned (abs_bio t) = set (take n bl)"
      using pinned [OF less_imp_le [OF k] I] .
    have b: "bl ! k \<in> set (take n bl)"
      using k len by (metis in_set_conv_nth length_take min.absorb2 nth_take)
    have "log_slot st i \<noteq> bl ! k" if "i < k" for i
      using slot_not_home [OF wf, of i n] that k b by (auto simp: st_def)
    then have "bl ! k \<notin> fst ` set (log_writes st bl k (view s))"
      unfolding fst_log_writes by (metis atLeastLessThan_iff imageE)
    then have "view t (bl ! k) = view s (bl ! k)"
      using I unfolding view_abs(1) [of t] by (simp add: apply_writes_other)
    moreover have "aheld (abs_bio t) = {}" "card (apinned (abs_bio t)) < NBUF" "bl ! k \<in> apinned (abs_bio t)"
      using I held p room pin b by simp_all
    then obtain t' where "write_log_body k t = Inr t'" "bio_inv {} t'" "bio.more t' = bio.more t"
      "abs_bio t' = abs_write [(log_slot (lstart (lg t)) k, view t (bl ! k))] (abs_bio t)"
      using write_log_body_ok [OF _ wft k] I by blast
    ultimately show ?thesis
      using I lg_more [of t s] by (simp add: st_def log_writes_def abs_write_append)
  qed
  have "?I 0 s"
    using inv by (simp add: log_writes_def)
  from for_each_upt [where I = ?I and f = write_log_body and n = n, OF this step] obtain t where "for_each write_log_body [0..<n] s = Inr t" "?I n t"
    by blast
  then show ?thesis
    using wf pinned [of n t] by (auto simp: write_log_def log_wf_def st_def)
qed

section \<open>The header block\<close>

lemma fold_put_get:
  assumes "4 + 4 * n \<le> length d"
  shows "get32 (fold (\<lambda>i d. put32 d (4 + 4 * i) (bl ! i)) [0..<n] d) 0 = get32 d 0
    \<and> length (fold (\<lambda>i d. put32 d (4 + 4 * i) (bl ! i)) [0..<n] d) = length d
    \<and> (\<forall>j < n. get32 (fold (\<lambda>i d. put32 d (4 + 4 * i) (bl ! i)) [0..<n] d) (4 + 4 * j) = bl ! j)"
  using assms
proof (induction n)
  case (Suc n)
  then have IH: "get32 (fold (\<lambda>i d. put32 d (4 + 4 * i) (bl ! i)) [0..<n] d) 0 = get32 d 0"
    "length (fold (\<lambda>i d. put32 d (4 + 4 * i) (bl ! i)) [0..<n] d) = length d"
    "\<And>j. j < n \<Longrightarrow> get32 (fold (\<lambda>i d. put32 d (4 + 4 * i) (bl ! i)) [0..<n] d) (4 + 4 * j) = bl ! j"
    by auto
  show ?case
    using Suc.prems IH by (auto simp: less_Suc_eq)
qed simp

lemma head_bytes_props:
  assumes "length d = BSIZE" and "n \<le> LOGSIZE"
  shows "lh_n (head_bytes (int n) bl d) = int n" "length (head_bytes (int n) bl d) = BSIZE"
    "j < n \<Longrightarrow> lh_block (head_bytes (int n) bl d) j = bl ! j"
proof -
  note f = fold_put_get [of n "put32 d 0 (word_of_int (int n))" bl]
  have "sint (word_of_int (int n) :: uint) = int n"
    using assms(2) sint_of_nat_small [of n] by simp
  then show "lh_n (head_bytes (int n) bl d) = int n" "length (head_bytes (int n) bl d) = BSIZE"
    "j < n \<Longrightarrow> lh_block (head_bytes (int n) bl d) j = bl ! j"
    using f assms by (simp_all add: lh_n_def lh_block_def head_bytes_def del: of_int_of_nat_eq)
qed

lemma lg_upd_abs [simp]:
  "bio_inv M (s\<lparr>lg := g\<rparr>) = bio_inv M s" "abs_bio (s\<lparr>lg := g\<rparr>) = abs_bio s"
  "holds (s\<lparr>lg := g\<rparr>) = holds s" "view (s\<lparr>lg := g\<rparr>) = view s"
proof -
  have c: "caches (s\<lparr>lg := g\<rparr>) = caches s"
    by (simp add: fun_eq_iff caches_def)
  show h: "holds (s\<lparr>lg := g\<rparr>) = holds s"
    by (simp add: fun_eq_iff holds_def c)
  show "bio_inv M (s\<lparr>lg := g\<rparr>) = bio_inv M s"
    by (simp add: bio_inv_def c h buf_ok_def)
  show v: "view (s\<lparr>lg := g\<rparr>) = view s"
    by (rule ext) (simp add: view_def c split: option.split)
  show "abs_bio (s\<lparr>lg := g\<rparr>) = abs_bio s"
    by (simp add: abs_bio_def c h v)
qed

lemma set_lh_abs [simp]:
  "bio_inv M (set_lh h s) = bio_inv M s" "abs_bio (set_lh h s) = abs_bio s"
  "holds (set_lh h s) = holds s" "bufs (set_lh h s) = bufs s"
  "view (set_lh h s) = view s" "disk (set_lh h s) = disk s"
  "disksize (set_lh h s) = disksize s" "dwrites (set_lh h s) = dwrites s"
  by (simp_all add: set_lh_def)

lemma caches_set_lh: "caches (set_lh h s) i b = caches s i b"
  by (simp add: caches_def)

lemma lg_set_lh [simp]: "lg (set_lh h s) = (lg s)\<lparr>lh := h\<rparr>"
  by (simp add: set_lh_def)

lemma fold_list_update: "n \<le> length bl \<Longrightarrow> fold (\<lambda>i bl. bl[i := f i]) [0..<n] bl = map f [0..<n] @ drop n bl"
proof (induction n)
  case (Suc n)
  then show ?case
    by (simp add: list_update_append Cons_nth_drop_Suc [symmetric])
qed simp

lemma write_head_ok:
  assumes inv: "bio_inv {} s" and dev: "ldev (lg s) = 1" and st: "lstart (lg s) < disksize s"
    and n: "ln (lh (lg s)) = int n" "n \<le> LOGSIZE"
    and held: "aheld (abs_bio s) = {}" and room: "card (apinned (abs_bio s)) < NBUF"
  shows "\<exists>s'. write_head s = Inr s' \<and> bio_inv {} s' \<and> bio.more s' = bio.more s
    \<and> abs_bio s' = abs_write [(lstart (lg s),
         head_bytes (int n) (lblock (lh (lg s))) (view s (lstart (lg s))))] (abs_bio s)"
proof -
  let ?st = "lstart (lg s)"
  let ?d = "head_bytes (int n) (lblock (lh (lg s))) (view s ?st)"
  have len: "length ?d = BSIZE"
    using head_bytes_props(2) [OF bio_inv_length [OF inv] n(2)] .
  obtain i s1 where r: "bread 1 ?st s = Inr (i, s1)" "bio.more s1 = bio.more s" "bdata (bufs s1 i) = view s ?st"
    "\<And>d. length d = BSIZE \<Longrightarrow> (\<exists>s2 s3. bwrite i (set_data i d s1) = Inr s2 \<and> brelse i s2 = Inr s3 \<and> bio_inv {} s3
       \<and> bio.more s3 = bio.more s
       \<and> abs_bio s3 = (abs_bio s)\<lparr>aview := (view s)(?st := d), adisk := (disk s)(?st := d),
            apinned := apinned (abs_bio s) - {?st}, ahist := dwrites s @ [(?st, d)]\<rparr>)"
    using bc.change_write_release [OF inv _ held room, of ?st, simplified] st by blast
  from r(4) [OF len] obtain s2 s3 where "bwrite i (set_data i ?d s1) = Inr s2" "brelse i s2 = Inr s3"
    "bio_inv {} s3" "bio.more s3 = bio.more s" "abs_bio s3 = abs_write [(?st, ?d)] (abs_bio s)"
    by (simp add: abs_write_def) blast
  then show ?thesis
    using r dev n lg_more [OF r(2)] by (intro exI [of _ s3]) (simp add: write_head_def Let_def)
qed

lemma read_head_ok:
  assumes inv: "bio_inv {} s" and dev: "ldev (lg s) = 1" and st: "lstart (lg s) < disksize s"
    and n: "lh_n (view s (lstart (lg s))) = int n" "n \<le> LOGSIZE" and bl: "length (lblock (lh (lg s))) = LOGSIZE"
    and held: "aheld (abs_bio s) = {}" and room: "card (apinned (abs_bio s)) < NBUF"
  shows "\<exists>s'. read_head s = Inr s' \<and> bio_inv {} s' \<and> abs_bio s' = abs_bio s
    \<and> lg s' = (lg s)\<lparr>lh := \<lparr>ln = int n,
        lblock = map (lh_block (view s (lstart (lg s)))) [0..<n] @ drop n (lblock (lh (lg s)))\<rparr>\<rparr>"
proof -
  let ?st = "lstart (lg s)"
  obtain i s1 where r: "bread 1 ?st s = Inr (i, s1)" "bio_inv {} s1" "holds s1 i ?st" "bio.more s1 = bio.more s"
    "abs_bio s1 = (abs_bio s)\<lparr>aheld := {?st}\<rparr>"
    using bread_refines [OF inv st] held room by auto
  have d: "bdata (bufs s1 i) = view s ?st"
    using holds_data [OF r(2,3)] arg_cong [OF r(5), of aview] by simp
  let ?h = "\<lparr>ln = int n, lblock = map (lh_block (view s ?st)) [0..<n] @ drop n (lblock (lh (lg s)))\<rparr>"
  obtain s2 where w: "brelse i (set_lh ?h s1) = Inr s2" "bio_inv {} s2" "bio.more s2 = bio.more (set_lh ?h s1)"
    "abs_bio s2 = (abs_bio s1)\<lparr>aheld := aheld (abs_bio s1) - {?st}\<rparr>"
    using brelse_refines [of "{}" "set_lh ?h s1" i ?st] r by auto
  have "abs_bio s2 = abs_bio s"
    using w(4) r(5) held by simp
  moreover have "lg s2 = (lg s)\<lparr>lh := ?h\<rparr>"
    using lg_more [OF w(3)] lg_more [OF r(4)] by simp
  moreover have "read_head s = Inr s2"
    using r w(1) d n dev bl lg_more [OF r(4)] fold_list_update [of n "lblock (lh (lg s))" "lh_block (view s ?st)"]
    by (simp add: read_head_def Let_def)
  ultimately show ?thesis
    using w(2) by blast
qed

section \<open>Commit\<close>

definition commit_writes :: "uint \<Rightarrow> uint list \<Rightarrow> nat \<Rightarrow> (uint \<Rightarrow> bytes) \<Rightarrow> (uint \<times> bytes) list" where
  "commit_writes st bl n v =
     log_writes st bl n v @ (st, head_bytes (int n) bl (v st)) # map (\<lambda>b. (b, v b)) (take n bl)
     @ [(st, head_bytes 0 bl (head_bytes (int n) bl (v st)))]"

text \<open>A log with its transaction complete and every block it names pinned in the cache.\<close>

definition log_ready :: "nat \<Rightarrow> uint list \<Rightarrow> 'a log_sys_scheme \<Rightarrow> bool" where
  "log_ready n bl s \<longleftrightarrow> bio_inv {} s \<and> log_wf n bl s \<and> distinct (take n bl)
     \<and> apinned (abs_bio s) = set (take n bl) \<and> aheld (abs_bio s) = {}"

lemma start_not_home: "log_wf n bl s \<Longrightarrow> k \<le> n \<Longrightarrow> lstart (lg s) \<notin> set (take k bl)"
  using take_in_home [of n bl s "lstart (lg s)"] log_start_props(1) set_take_subset_set_take [of k n bl]
  unfolding log_wf_def by blast

lemma start_not_slot: "log_wf n bl s \<Longrightarrow> lstart (lg s) \<notin> log_slot (lstart (lg s)) ` {0..<n}"
proof
  assume wf: "log_wf n bl s" and "lstart (lg s) \<in> log_slot (lstart (lg s)) ` {0..<n}"
  then obtain i where "i < n" "log_slot (lstart (lg s)) i = lstart (lg s)"
    by auto
  then show False
    using wf log_slot_props(3) [of "lstart (lg s)" "disksize s" i] by (auto simp: log_wf_def)
qed

lemma log_writes_slot:
  assumes "log_wf n bl s" and "i < n"
  shows "apply_writes (log_writes (lstart (lg s)) bl n v) d (log_slot (lstart (lg s)) i) = v (bl ! i)"
proof (rule apply_writes_in)
  show "(log_slot (lstart (lg s)) i, v (bl ! i)) \<in> set (log_writes (lstart (lg s)) bl n v)"
    using assms(2) by (auto simp: log_writes_def)
  have "inj_on (log_slot (lstart (lg s))) {0..<n}"
    using assms(1) log_slot_inj unfolding log_wf_def by (intro inj_onI) (auto simp: log_slot_inj)
  then show "distinct (map fst (log_writes (lstart (lg s)) bl n v))"
    by (simp add: log_writes_def distinct_map comp_def)
qed

lemma install_after_log:
  assumes wf: "log_wf n bl s"
  shows "install_writes (lstart (lg s)) bl n
      (apply_writes (log_writes (lstart (lg s)) bl n v @ [(lstart (lg s), h)]) d) = map (\<lambda>b. (b, v b)) (take n bl)"
proof -
  have "log_slot (lstart (lg s)) i \<noteq> lstart (lg s)" if "i < n" for i
    using start_not_slot [OF wf] that by force
  moreover have "n \<le> length bl"
    using wf by (simp add: log_wf_def)
  ultimately show ?thesis
    by (intro nth_equalityI) (simp_all add: install_writes_def log_writes_slot [OF wf])
qed

lemma card_take: "log_wf n bl s \<Longrightarrow> card (set (take k bl)) < NBUF \<or> n < k"
  using card_length [of "take k bl"] by (simp add: log_wf_def) linarith

lemma pinned_later:
  assumes "distinct (take n bl)" and "i < n" and "n \<le> length bl"
  shows "bl ! i \<in> set (take n bl) - set (take i bl)"
proof -
  have "take n bl ! i \<notin> set (take i (take n bl))"
    using assms by (simp add: distinct_conv_nth in_set_conv_nth)
  moreover have "bl ! i \<in> set (take n bl)"
    using assms by (metis in_set_conv_nth length_take min.absorb2 nth_take)
  ultimately show ?thesis
    using assms by (simp add: min_def)
qed

lemma commit_ok:
  assumes ready: "log_ready n bl s" and n: "0 < n"
  shows "\<exists>s'. commit s = Inr s' \<and> bio_inv {} s' \<and> lg s' = (lg s)\<lparr>lh := (lh (lg s))\<lparr>ln := 0\<rparr>\<rparr>
    \<and> abs_bio s' = abs_write (commit_writes (lstart (lg s)) bl n (view s)) (abs_bio s)"
proof -
  let ?st = "lstart (lg s)" and ?W = "log_writes (lstart (lg s)) bl n (view s)"
  have inv: "bio_inv {} s" and wf: "log_wf n bl s" and dist: "distinct (take n bl)"
    and pin: "apinned (abs_bio s) = set (take n bl)" and held: "aheld (abs_bio s) = {}"
    using ready by (auto simp: log_ready_def)
  have room: "card (set (take n bl)) < NBUF"
    using card_take [OF wf, of n] by simp
  have L: "ldev (lg s) = 1" "ln (lh (lg s)) = int n" "lblock (lh (lg s)) = bl" "n \<le> LOGSIZE" "?st < disksize s" "n \<le> length bl"
    using wf log_start_props(2) by (auto simp: log_wf_def)
  obtain s1 where 1: "write_log s = Inr s1" "bio_inv {} s1" "bio.more s1 = bio.more s"
    "abs_bio s1 = abs_write ?W (abs_bio s)" "apinned (abs_bio s1) = set (take n bl)"
    using write_log_ok [OF inv wf held pin] room pin by auto
  note g1 = lg_more [OF 1(3)]
  have "?st \<notin> fst ` set ?W"
    using start_not_slot [OF wf] by (simp add: fst_log_writes)
  then have v1: "view s1 ?st = view s ?st"
    unfolding view_abs(1) [of s1] 1(4) by (simp add: apply_writes_other)
  let ?h = "head_bytes (int n) bl (view s ?st)"
  obtain s2 where 2: "write_head s1 = Inr s2" "bio_inv {} s2" "bio.more s2 = bio.more s"
    "abs_bio s2 = abs_write (?W @ [(?st, ?h)]) (abs_bio s)"
    using write_head_ok [OF 1(2), of n] 1 g1 L v1 room held view_abs(3) [of s1]
    by (auto simp: abs_write_append)
  note g2 = lg_more [OF 2(3)]
  have pin2: "apinned (abs_bio s2) = set (take n bl)" "aheld (abs_bio s2) = {}"
    using 2(4) 1(4,5) held start_not_home [OF wf, of n] by (simp_all add: abs_write_append)
  have wf2: "log_wf n bl s2"
    using 2 by (intro log_wf_more [OF wf]) simp_all
  have "view s2 = apply_writes (?W @ [(?st, ?h)]) (view s)"
    unfolding view_abs(1) [of s2] 2(4) by simp
  then have iw: "install_writes ?st bl n (view s2) = map (\<lambda>b. (b, view s b)) (take n bl)"
    using install_after_log [OF wf] by simp
  obtain s3 where 3: "install_trans s2 = Inr s3" "bio_inv {} s3" "bio.more s3 = bio.more s"
    "abs_bio s3 = abs_write (?W @ [(?st, ?h)] @ map (\<lambda>b. (b, view s b)) (take n bl)) (abs_bio s)"
    using install_trans_ok [OF 2(2) wf2 pin2(2), unfolded pin2 g2 iw] room pinned_later [OF dist _ L(6)] 2(3,4)
    by (auto simp: abs_write_append [symmetric])
  note g3 = lg_more [OF 3(3)]
  have "view s3 ?st = ?h"
    unfolding view_abs(1) [of s3] 3(4) using start_not_home [OF wf, of n]
    by (simp add: apply_writes_other image_image)
  moreover have "aheld (abs_bio s3) = {}" "apinned (abs_bio s3) = {}" "disksize s3 = disksize s"
    unfolding view_abs(3) 3(4) using held pin by (auto simp: image_Un image_image)
  ultimately obtain s4 where 4: "write_head (set_lh ((lh (lg s3))\<lparr>ln := 0\<rparr>) s3) = Inr s4" "bio_inv {} s4"
    "bio.more s4 = bio.more (set_lh ((lh (lg s3))\<lparr>ln := 0\<rparr>) s3)"
    "abs_bio s4 = abs_write [(?st, head_bytes 0 bl ?h)] (abs_bio s3)"
    using write_head_ok [of "set_lh ((lh (lg s3))\<lparr>ln := 0\<rparr>) s3" 0] 3(2) g3 L by auto
  show ?thesis
    using 1 2 3 4 n L g3 lg_more [OF 4(3)]
    by (intro exI [of _ s4]) (simp add: commit_def commit_writes_def abs_write_append [symmetric])
qed

section \<open>Recovery\<close>

text \<open>What a disk says once its committed transaction, if any, is installed.\<close>

definition logged :: "uint \<Rightarrow> (uint \<Rightarrow> bytes) \<Rightarrow> (uint \<times> bytes) list" where
  "logged st d = map (\<lambda>i. (lh_block (d st) i, d (log_slot st i))) [0..<nat (lh_n (d st))]"

definition replay :: "uint \<Rightarrow> (uint \<Rightarrow> bytes) \<Rightarrow> uint \<Rightarrow> bytes" where
  "replay st d = apply_writes (logged st d) d"

definition log_image :: "uint \<Rightarrow> uint \<Rightarrow> (uint \<Rightarrow> bytes) \<Rightarrow> bool" where
  "log_image st lim d \<longleftrightarrow> log_area st lim \<and> 0 \<le> lh_n (d st) \<and> lh_n (d st) < int LOGSIZE
     \<and> (\<forall>i < nat (lh_n (d st)). lh_block (d st) i < lim \<and> \<not> in_log st (lh_block (d st) i))"

definition recovery_writes :: "uint \<Rightarrow> (uint \<Rightarrow> bytes) \<Rightarrow> (uint \<times> bytes) list" where
  "recovery_writes st d = logged st d @ [(st, head_bytes 0 [] (d st))]"

lemma head_bytes_0: "head_bytes 0 bl d = head_bytes 0 bl' d"
  by (simp add: head_bytes_def)

lemma recover_ok:
  assumes inv: "bio_inv {} s" and clean: "apinned (abs_bio s) = {}" "aheld (abs_bio s) = {}" "view s = disk s"
    and dev: "ldev (lg s) = 1" and bl: "length (lblock (lh (lg s))) = LOGSIZE"
    and img: "log_image (lstart (lg s)) (disksize s) (disk s)"
  shows "\<exists>s'. recover_from_log s = Inr s' \<and> bio_inv {} s' \<and> ln (lh (lg s')) = 0
    \<and> abs_bio s' = abs_write (recovery_writes (lstart (lg s)) (disk s)) (abs_bio s)"
proof -
  define st where "st = lstart (lg s)"
  define n where "n = nat (lh_n (disk s st))"
  define xs where "xs = map (lh_block (disk s st)) [0..<n] @ drop n (lblock (lh (lg s)))"
  have n: "lh_n (disk s st) = int n" "n < LOGSIZE" "st < disksize s" "log_area st (disksize s)"
    using img log_start_props(2) by (auto simp: log_image_def n_def st_def)
  have xs: "length xs = LOGSIZE" "\<And>i. i < n \<Longrightarrow> xs ! i = lh_block (disk s st) i"
    using bl n by (auto simp: xs_def nth_append)
  obtain s1 where 1: "read_head s = Inr s1" "bio_inv {} s1" "abs_bio s1 = abs_bio s"
    "lg s1 = (lg s)\<lparr>lh := \<lparr>ln = int n, lblock = xs\<rparr>\<rparr>"
    using read_head_ok [OF inv dev, of n] n bl clean by (auto simp: st_def xs_def)
  have f1: "disksize s1 = disksize s" "view s1 = disk s" "lstart (lg s1) = st"
    using clean(3) unfolding view_abs(1,3) 1(3) by (simp_all add: 1(4) st_def)
  have wf: "log_wf n xs s1"
    using img n xs dev by (simp add: log_wf_def 1(4) f1 log_image_def st_def [symmetric])
  have iw: "install_writes st xs n (disk s) = logged st (disk s)"
    by (simp add: install_writes_def logged_def n_def [symmetric] xs)
  obtain s2 where 2: "install_trans s1 = Inr s2" "bio_inv {} s2" "bio.more s2 = bio.more s1"
    "abs_bio s2 = abs_write (logged st (disk s)) (abs_bio s)"
    using install_trans_ok [OF 1(2) wf] clean by (auto simp: 1(3) f1 iw)
  note g2 = lg_more [OF 2(3)]
  have "st \<notin> fst ` set (logged st (disk s))"
    using start_not_home [OF wf order_refl] n(2) fst_install_writes [of n xs st "disk s"] f1 xs(1)
    by (simp add: iw)
  then have "view s2 st = disk s st" "disksize s2 = disksize s"
    "aheld (abs_bio s2) = {}" "apinned (abs_bio s2) = {}"
    using clean unfolding view_abs(1,3) 2(4) by (simp_all add: apply_writes_other)
  then obtain s3 where 3: "write_head (set_lh ((lh (lg s2))\<lparr>ln := 0\<rparr>) s2) = Inr s3" "bio_inv {} s3"
    "bio.more s3 = bio.more (set_lh ((lh (lg s2))\<lparr>ln := 0\<rparr>) s2)"
    "abs_bio s3 = abs_write [(st, head_bytes 0 xs (disk s st))] (abs_bio s2)"
    using write_head_ok [of "set_lh ((lh (lg s2))\<lparr>ln := 0\<rparr>) s2" 0] 2(2) g2 n dev by (auto simp: 1(4) st_def)
  have "abs_bio s3 = abs_write (recovery_writes st (disk s)) (abs_bio s)"
    using 3(4) 2(4) head_bytes_0 [of xs _ "[]"] by (simp add: recovery_writes_def abs_write_append)
  moreover have "ln (lh (lg s3)) = 0"
    using lg_more [OF 3(3)] by simp
  ultimately show ?thesis
    using 1(1) 2(1) 3(1,2) by (simp add: recover_from_log_def st_def)
qed

section \<open>Crashes\<close>

lemma replay_clean: "lh_n (d st) \<le> 0 \<Longrightarrow> replay st d = d"
  by (simp add: replay_def logged_def)

lemma fst_logged: "fst ` set (logged st d) = lh_block (d st) ` {0..<nat (lh_n (d st))}"
  by (simp add: logged_def image_image)

lemma log_image_st:
  assumes "log_image st lim d"
  shows "st \<notin> fst ` set (logged st d)" "i < 29 \<Longrightarrow> log_slot st i \<notin> fst ` set (logged st d)"
proof -
  have home: "\<not> in_log st b" if "b \<in> fst ` set (logged st d)" for b
    using that assms by (auto simp: fst_logged log_image_def)
  have area: "log_area st lim"
    using assms by (simp add: log_image_def)
  show "st \<notin> fst ` set (logged st d)"
    using home log_start_props(1) [OF area] by blast
  show "i < 29 \<Longrightarrow> log_slot st i \<notin> fst ` set (logged st d)"
    using home log_slot_props(1) [OF area] by blast
qed

lemma apply_take_other: "b \<notin> fst ` set ws \<Longrightarrow> apply_writes (take k ws) d b = d b"
  by (rule apply_writes_other) (auto dest: in_set_takeD)

text \<open>Recovery that is itself interrupted can be repeated: the replayed disk stays the same.\<close>

lemma replay_crash:
  assumes img: "log_image st lim d" and b: "\<not> in_log st b" and len: "length (d st) = BSIZE"
  shows "replay st (apply_writes (take k (recovery_writes st d)) d) b = replay st d b"
proof (cases "k \<le> length (logged st d)")
  case True
  let ?d = "apply_writes (take k (logged st d)) d"
  have "?d st = d st"
    using log_image_st(1) [OF img] by (rule apply_take_other)
  moreover have "?d (log_slot st i) = d (log_slot st i)" if "i < nat (lh_n (d st))" for i
  proof (intro apply_take_other log_image_st(2) [OF img])
    have "nat (lh_n (d st)) \<le> 29"
      using img by (simp add: log_image_def nat_le_iff)
    with that show "i < 29"
      by linarith
  qed
  ultimately have "logged st ?d = logged st d"
    by (simp add: logged_def)
  moreover have "apply_writes (logged st d) ?d b = apply_writes (logged st d) d b"
  proof (cases "b \<in> fst ` set (logged st d)")
    case False
    then show ?thesis
      by (intro apply_writes_cong apply_take_other)
  qed (rule apply_writes_last)
  ultimately show ?thesis
    using True by (simp add: replay_def recovery_writes_def)
next
  case False
  then have "apply_writes (take k (recovery_writes st d)) d = (replay st d)(st := head_bytes 0 [] (d st))"
    by (simp add: recovery_writes_def replay_def)
  moreover have "lh_n (head_bytes 0 [] (d st)) = 0"
    using head_bytes_props(1) [of "d st" 0] len by simp
  moreover have "b \<noteq> st"
    using b img log_start_props(1) by (auto simp: log_image_def)
  ultimately show ?thesis
    by (simp add: replay_clean)
qed

text \<open>
  A transaction on an empty log: the cache contents \<open>v\<close> differ from the disk \<open>d0\<close> only in
  the \<open>n\<close> home blocks it names.
\<close>

definition txn :: "uint \<Rightarrow> uint \<Rightarrow> uint list \<Rightarrow> nat \<Rightarrow> (uint \<Rightarrow> bytes) \<Rightarrow> (uint \<Rightarrow> bytes) \<Rightarrow> bool" where
  "txn st lim bl n v d0 \<longleftrightarrow> log_area st lim \<and> n < LOGSIZE \<and> length bl = LOGSIZE \<and> distinct (take n bl)
     \<and> (\<forall>i < n. bl ! i < lim \<and> \<not> in_log st (bl ! i)) \<and> (\<forall>b. b \<notin> set (take n bl) \<longrightarrow> v b = d0 b)
     \<and> length (v st) = BSIZE \<and> lh_n (d0 st) = 0"

abbreviation home_writes :: "uint list \<Rightarrow> nat \<Rightarrow> (uint \<Rightarrow> bytes) \<Rightarrow> (uint \<times> bytes) list" where
  "home_writes bl n v \<equiv> map (\<lambda>b. (b, v b)) (take n bl)"

lemma log_ready_txn:
  assumes "log_ready n bl s" and "lh_n (disk s (lstart (lg s))) = 0"
  shows "txn (lstart (lg s)) (disksize s) bl n (view s) (disk s)"
proof -
  have "bio_inv {} s" "apinned (abs_bio s) = set (take n bl)"
    using assms(1) by (auto simp: log_ready_def)
  then have "b \<notin> set (take n bl) \<Longrightarrow> view s b = disk s b" "length (view s b) = BSIZE" for b
    using bio_inv_coherent [of "{}" s b] bio_inv_length by auto
  then show ?thesis
    using assms by (auto simp: txn_def log_ready_def log_wf_def)
qed

lemma txn_outside:
  assumes "txn st lim bl n v d0" and "\<not> in_log st b"
  shows "b \<notin> fst ` set (log_writes st bl n v)" "b \<noteq> st"
  using assms log_slot_props(1) [of st lim] log_start_props(1) [of st lim]
  by (auto simp: txn_def fst_log_writes)

lemma txn_inside:
  assumes "txn st lim bl n v d0" and "in_log st b"
  shows "b \<notin> fst ` set (home_writes bl n v)"
  using assms by (auto simp: txn_def image_image in_set_conv_nth)

lemma txn_start:
  assumes "txn st lim bl n v d0"
  shows "in_log st st" "st \<notin> fst ` set (log_writes st bl n v)"
proof -
  have area: "log_area st lim" "n < LOGSIZE"
    using assms by (auto simp: txn_def)
  then have "log_slot st i \<noteq> st" if "i < n" for i
    using log_slot_props(3) [of st lim i] that by simp
  then show "st \<notin> fst ` set (log_writes st bl n v)"
    unfolding fst_log_writes by (metis atLeastLessThan_iff imageE)
  show "in_log st st"
    by (rule log_start_props(1) [OF area(1)])
qed

lemma txn_header:
  assumes "txn st lim bl n v d0" and "h = head_bytes (int n) bl (v st)"
  shows "lh_n h = int n" "j < n \<Longrightarrow> lh_block h j = bl ! j" "lh_n (head_bytes 0 bl h) = 0"
proof -
  have l: "length (v st) = BSIZE" "n \<le> LOGSIZE"
    using assms(1) by (auto simp: txn_def)
  note p = head_bytes_props [OF l]
  show "lh_n h = int n" "j < n \<Longrightarrow> lh_block h j = bl ! j"
    using p by (simp_all add: assms(2))
  show "lh_n (head_bytes 0 bl h) = 0"
    using head_bytes_props(1) [of h 0 bl] p(2) by (simp add: assms(2))
qed

lemma crash_before_commit_point:
  assumes t: "txn st lim bl n v d0" and d: "d = apply_writes (take k (log_writes st bl n v)) d0"
  shows "\<not> in_log st b \<Longrightarrow> replay st d b = d0 b" and "log_image st lim d"
proof -
  have st: "d st = d0 st"
    unfolding d by (rule apply_take_other [OF txn_start(2) [OF t]])
  moreover have e: "lh_n (d0 st) = 0"
    using t by (simp add: txn_def)
  ultimately have "replay st d = d"
    by (simp add: replay_clean)
  then show "\<not> in_log st b \<Longrightarrow> replay st d b = d0 b"
    unfolding d by (simp add: apply_take_other [OF txn_outside(1) [OF t]])
  show "log_image st lim d"
    using t st e by (simp add: log_image_def txn_def)
qed

lemma home_writes_apply:
  assumes t: "txn st lim bl n v d0" and d: "\<And>c. \<not> in_log st c \<Longrightarrow> d c = d0 c \<or> d c = v c \<and> c \<in> set (take n bl)"
    and b: "\<not> in_log st b"
  shows "apply_writes (home_writes bl n v) d b = v b"
proof (cases "b \<in> set (take n bl)")
  case True
  then show ?thesis
    using t by (intro apply_writes_in) (auto simp: txn_def comp_def)
next
  case False
  then have "d b = v b"
    using d [OF b] t by (auto simp: txn_def)
  with False show ?thesis
    by (simp add: apply_writes_other image_image)
qed

lemma crash_while_installing:
  assumes t: "txn st lim bl n v d0"
    and d: "d = apply_writes (take k (home_writes bl n v))
      ((apply_writes (log_writes st bl n v) d0)(st := head_bytes (int n) bl (v st)))"
  shows "\<not> in_log st b \<Longrightarrow> replay st d b = v b" and "log_image st lim d"
proof -
  let ?h = "head_bytes (int n) bl (v st)" and ?H = "home_writes bl n v"
  let ?d = "(apply_writes (log_writes st bl n v) d0)(st := ?h)"
  note h = txn_header [OF t refl]
  have area: "log_area st lim" "n < LOGSIZE" "length bl = LOGSIZE" "distinct (take n bl)"
    "\<And>i. i < n \<Longrightarrow> bl ! i < lim \<and> \<not> in_log st (bl ! i)"
    using t by (auto simp: txn_def)
  have inside: "d c = ?d c" if "in_log st c" for c
    unfolding d by (rule apply_take_other [OF txn_inside [OF t that]])
  have dst: "d st = ?h"
    using inside [OF txn_start(1) [OF t]] by simp
  have slot: "d (log_slot st i) = v (bl ! i)" if "i < n" for i
  proof -
    have "inj_on (log_slot st) {0..<n}"
      using log_slot_inj [OF area(1)] area(2) by (intro inj_onI) simp
    then have "apply_writes (log_writes st bl n v) d0 (log_slot st i) = v (bl ! i)"
      using that by (intro apply_writes_in) (auto simp: log_writes_def distinct_map comp_def)
    then show ?thesis
      using inside [of "log_slot st i"] log_slot_props [OF area(1), of i] area(2) that by simp
  qed
  have "logged st d = map (\<lambda>i. (bl ! i, v (bl ! i))) [0..<n]"
    by (simp add: logged_def dst h slot)
  then have lg: "logged st d = ?H"
    using area by (intro nth_equalityI) simp_all
  have "d c = d0 c \<or> d c = v c \<and> c \<in> set (take n bl)" if c: "\<not> in_log st c" for c
  proof (cases "c \<in> fst ` set (take k ?H)")
    case True
    have tk: "take k ?H = map (\<lambda>b. (b, v b)) (take k (take n bl))"
      by (simp only: take_map)
    with True have c1: "c \<in> set (take k (take n bl))"
      by (auto simp del: take_take)
    moreover have "d c = v c"
      unfolding d tk
      by (rule apply_writes_in)
        (use c1 distinct_take [OF area(4), of k] in \<open>auto simp: comp_def simp del: take_take\<close>)
    ultimately show ?thesis
      by (blast dest: in_set_takeD)
  next
    case False
    then have "d c = ?d c"
      unfolding d by (rule apply_writes_other)
    then show ?thesis
      using txn_outside [OF t c] by (simp add: apply_writes_other)
  qed
  then show "\<not> in_log st b \<Longrightarrow> replay st d b = v b"
    unfolding replay_def lg by (intro home_writes_apply [OF t])
  show "log_image st lim d"
    using area by (simp add: log_image_def dst h)
qed

lemma crash_after_commit:
  assumes t: "txn st lim bl n v d0"
    and d: "d = (apply_writes (home_writes bl n v)
      ((apply_writes (log_writes st bl n v) d0)(st := head_bytes (int n) bl (v st))))
      (st := head_bytes 0 bl (head_bytes (int n) bl (v st)))"
  shows "\<not> in_log st b \<Longrightarrow> replay st d b = v b" and "log_image st lim d"
proof -
  have e: "lh_n (d st) = 0"
    unfolding d by (simp add: txn_header(3) [OF t refl])
  then have r: "replay st d = d"
    by (simp add: replay_clean)
  let ?d = "(apply_writes (log_writes st bl n v) d0)(st := head_bytes (int n) bl (v st))"
  have "?d c = d0 c" if "\<not> in_log st c" for c
    using txn_outside [OF t that] by (simp add: apply_writes_other)
  then show "replay st d b = v b" if "\<not> in_log st b"
    using home_writes_apply [OF t _ that, of ?d] txn_outside(2) [OF t that] r
    by (simp add: d)
  show "log_image st lim d"
    using t e by (simp add: log_image_def txn_def)
qed

text \<open>A crash after \<open>k\<close> of the disk writes of a commit.\<close>

lemma commit_crash_replay:
  assumes t: "txn st lim bl n v d0" and d: "d = apply_writes (take k (commit_writes st bl n v)) d0"
  shows "(\<forall>b. \<not> in_log st b \<longrightarrow> replay st d b = (if k \<le> n then d0 b else v b)) \<and> log_image st lim d"
proof -
  have len: "length (log_writes st bl n v) = n" "length (home_writes bl n v) = n"
    using t by (auto simp: log_writes_def txn_def)
  have "k \<le> n \<or> (\<exists>j. k = n + 1 + j \<and> j \<le> n) \<or> 2 * n + 2 \<le> k"
    by presburger
  then consider (before) "k \<le> n" | (installing) j where "k = n + 1 + j" "j \<le> n" | (after) "2 * n + 2 \<le> k"
    by blast
  then show ?thesis
  proof cases
    case before
    then have "d = apply_writes (take k (log_writes st bl n v)) d0"
      using len by (simp add: d commit_writes_def)
    with before show ?thesis
      using crash_before_commit_point [OF t] by simp
  next
    case installing
    then have "d = apply_writes (take j (home_writes bl n v))
      ((apply_writes (log_writes st bl n v) d0)(st := head_bytes (int n) bl (v st)))"
      using len by (simp add: d commit_writes_def)
    with installing show ?thesis
      using crash_while_installing [OF t] by simp
  next
    case after
    then have "take k (commit_writes st bl n v) = commit_writes st bl n v"
      using len by (simp add: commit_writes_def)
    then have "d = (apply_writes (home_writes bl n v)
      ((apply_writes (log_writes st bl n v) d0)(st := head_bytes (int n) bl (v st))))
      (st := head_bytes 0 bl (head_bytes (int n) bl (v st)))"
      by (simp add: d commit_writes_def)
    with after show ?thesis
      using crash_after_commit [OF t] by simp
  qed
qed

section \<open>Booting after a crash\<close>

text \<open>A crash loses the memory and keeps the disk; the machine boots with zeroed statics.\<close>

definition zero_log :: xlog where
  "zero_log = \<lparr>lstart = 0, lsize = 0, outstanding = 0, committing = False, ldev = 0,
     lh = \<lparr>ln = 0, lblock = replicate LOGSIZE 0\<rparr>\<rparr>"

definition reboot :: "(uint \<Rightarrow> bytes) \<Rightarrow> 'a log_sys_scheme \<Rightarrow> 'a log_sys_scheme" where
  "reboot d s = binit (s\<lparr>bufs := (\<lambda>_. zero_buf), disk := d, lg := zero_log\<rparr>)"

text \<open>The disk after the first \<open>k\<close> writes of a run from \<open>s\<close> to \<open>s'\<close>.\<close>

definition crash_disk :: "nat \<Rightarrow> 'a bio_scheme \<Rightarrow> 'a bio_scheme \<Rightarrow> uint \<Rightarrow> bytes" where
  "crash_disk k s s' = apply_writes (take k (drop (length (dwrites s)) (dwrites s'))) (disk s)"

lemma reboot_abs:
  assumes "\<And>b. length (d b) = BSIZE"
  shows "bio_inv {} (reboot d s)" "lg (reboot d s) = zero_log"
    "abs_bio (reboot d s) = \<lparr>aview = d, adisk = d, apinned = {}, aheld = {}, ahist = dwrites s, alimit = disksize s\<rparr>"
proof -
  let ?s = "s\<lparr>bufs := (\<lambda>_. zero_buf), disk := d, lg := zero_log\<rparr>"
  show "bio_inv {} (reboot d s)"
    unfolding reboot_def by (rule binit_refines(1)) (simp_all add: assms)
  show "lg (reboot d s) = zero_log"
    by (simp add: reboot_def binit_def Let_def)
  have "abs_bio (binit ?s) = \<lparr>aview = disk ?s, adisk = disk ?s, apinned = {}, aheld = {},
      ahist = dwrites ?s, alimit = disksize ?s\<rparr>"
    by (rule binit_refines(2)) (simp_all add: assms)
  then show "abs_bio (reboot d s) = \<lparr>aview = d, adisk = d, apinned = {}, aheld = {}, ahist = dwrites s, alimit = disksize s\<rparr>"
    by (simp add: reboot_def)
qed

lemma initlog_reboot:
  assumes len: "\<And>b. length (d b) = BSIZE" and img: "log_image (logstart (sb_of_bytes (d 1))) (disksize s) d"
  shows "\<exists>r. initlog 1 (reboot d s) = Inr r \<and> bio_inv {} r \<and> ln (lh (lg r)) = 0
    \<and> dwrites r = dwrites s @ recovery_writes (logstart (sb_of_bytes (d 1))) d
    \<and> disk r = apply_writes (recovery_writes (logstart (sb_of_bytes (d 1))) d) d"
proof -
  note b = reboot_abs [where s = s and d = d, OF len]
  let ?st = "logstart (sb_of_bytes (d 1))"
  have "(1 :: uint) < disksize s"
    using img by (simp add: log_image_def log_area_def word_less_nat_alt)
  then obtain i s1 s2 where r: "bread 1 1 (reboot d s) = Inr (i, s1)" "bdata (bufs s1 i) = d 1" "brelse i s1 = Inr s2"
    "bio_inv {} s2" "abs_bio s2 = abs_bio (reboot d s)" "bio.more s2 = bio.more (reboot d s)"
    using bc.read_release [OF b(1), of 1] b(3) by auto
  let ?g = "zero_log\<lparr>lstart := ?st, lsize := sint (nlog (sb_of_bytes (d 1))), ldev := 1\<rparr>"
  have lg2: "lg s2 = zero_log"
    using lg_more [OF r(6)] b(2) by simp
  have f: "view s2 = d" "disk s2 = d" "disksize s2 = disksize s" "dwrites s2 = dwrites s"
    unfolding view_abs r(5) b(3) by simp_all
  obtain s3 where 3: "recover_from_log (s2\<lparr>lg := ?g\<rparr>) = Inr s3" "bio_inv {} s3" "ln (lh (lg s3)) = 0"
    "abs_bio s3 = abs_write (recovery_writes ?st d) (abs_bio s2)"
    using recover_ok [of "s2\<lparr>lg := ?g\<rparr>"] r(4,5) b(3) img f by (auto simp: zero_log_def)
  have "disk s3 = apply_writes (recovery_writes ?st d) d" "dwrites s3 = dwrites s @ recovery_writes ?st d"
    unfolding view_abs 3(4) r(5) b(3) by simp_all
  moreover have "initlog 1 (reboot d s) = Inr s3"
    using r 3(1) lg2 by (simp add: initlog_def readsb_def Let_def)
  ultimately show ?thesis
    using 3 by blast
qed

section \<open>Adding a block to the transaction\<close>

lemma log_find_props:
  assumes "j \<le> n"
  shows "j \<le> log_find bl b j n \<and> log_find bl b j n \<le> n \<and> (log_find bl b j n < n \<longrightarrow> bl ! log_find bl b j n = b)
    \<and> (\<forall>m. j \<le> m \<longrightarrow> m < log_find bl b j n \<longrightarrow> bl ! m \<noteq> b)"
  using assms
proof (induction bl b j n rule: log_find.induct)
  case (1 bl b i n)
  show ?case
  proof (cases "i < n \<and> bl ! i \<noteq> b")
    case True
    then have "log_find bl b i n = log_find bl b (Suc i) n"
      by (subst log_find.simps) simp
    with 1 True show ?thesis
      by (auto simp: Suc_le_eq) (metis le_neq_implies_less)+
  next
    case False
    then have "log_find bl b i n = i"
      by (subst log_find.simps) auto
    with 1 False show ?thesis
      by auto
  qed
qed

lemma log_find_set:
  assumes "n \<le> length bl"
  shows "log_find bl b 0 n = n \<longleftrightarrow> b \<notin> set (take n bl)"
proof -
  note p = log_find_props [of 0 n bl b, simplified]
  show ?thesis
  proof
    assume "log_find bl b 0 n = n"
    with p show "b \<notin> set (take n bl)"
      by (auto simp: in_set_conv_nth)
  next
    assume "b \<notin> set (take n bl)"
    with p assms show "log_find bl b 0 n = n"
      by (metis in_set_conv_nth le_neq_implies_less length_take min.absorb2 nth_take)
  qed
qed

text \<open>The blocks a transaction names after \<open>b\<close> is logged: absorbed if it is there already.\<close>

definition log_add :: "uint \<Rightarrow> nat \<Rightarrow> uint list \<Rightarrow> nat \<times> uint list" where
  "log_add b n bl = (if b \<in> set (take n bl) then (n, bl) else (Suc n, bl[n := b]))"

lemma log_add_set:
  assumes "log_add b n bl = (m, xs)" and "n < length bl" and "distinct (take n bl)"
  shows "set (take m xs) = insert b (set (take n bl))" "distinct (take m xs)" "length xs = length bl"
  using assms by (auto simp: log_add_def take_Suc_conv_app_nth split: if_splits)

lemma log_write_ok:
  assumes inv: "bio_inv M s" and i: "holds s i bn" and lg: "ln (lh (lg s)) = int n" "lblock (lh (lg s)) = bl" "length bl = LOGSIZE"
    and room: "n < LOGSIZE" "int n < lsize (lg s) - 1" and out: "1 \<le> outstanding (lg s)"
    and add: "log_add bn n bl = (m, xs)"
  shows "\<exists>s'. log_write i s = Inr s' \<and> bio_inv (M - {bn}) s' \<and> (\<forall>j b. holds s' j b = holds s j b)
    \<and> abs_bio s' = (abs_bio s)\<lparr>apinned := insert bn (apinned (abs_bio s))\<rparr>
    \<and> lg s' = (lg s)\<lparr>lh := \<lparr>ln = int m, lblock = xs\<rparr>\<rparr>"
proof -
  let ?i = "log_find bl bn 0 n"
  note h = holds_holding [OF inv i]
  have n: "n \<le> length bl"
    using lg room by simp
  have "bl[?i := bn] = xs" "(if ?i = n then Suc n else n) = m"
    using add log_find_set [OF n, of bn] log_find_props [of 0 n bl bn]
    by (auto simp: log_add_def split: if_splits) (metis le_neq_implies_less list_update_id)
  then have run: "log_write i s = Inr (set_buf i ((bufs s i)\<lparr>flags := flags (bufs s i) OR B_DIRTY\<rparr>)
      (set_lh \<lparr>ln = int m, lblock = xs\<rparr> s))"
    using lg room out h by (auto simp: log_write_def Let_def add.commute)
  define bf where "bf = (bufs s i)\<lparr>flags := flags (bufs s i) OR B_DIRTY\<rparr>"
  define t where "t = set_lh \<lparr>ln = int m, lblock = xs\<rparr> s"
  define s' where "s' = set_buf i bf t"
  have inv_t: "bio_inv M t" "holds t i bn" "bufs t = bufs s" "disk t = disk s" "view t = view s"
    using inv i by (simp_all add: t_def)
  have bf: "blockno bf = bn" "bdev bf = 1" "block_lock bf = block_lock (bufs s i)" "bdata bf = view s bn" "dirty bf"
    "valid bf" "refcnt bf = refcnt (bufs s i)"
    using h holds_data [OF inv i] by (simp_all add: bf_def valid_def [symmetric])
  have upd: "buf_upd i bf t s'"
    by (rule buf_upd_set_buf [OF inv_t(1) h(6)]) (simp_all add: bf_def s'_def t_def)
  have key: "caches t i (blockno bf)" "bdev bf = 1"
    using inv_t bf by (simp_all add: holds_def)
  have lk: "sl_locked (block_lock (bufs s i))"
    using i by (simp add: holds_def)
  have "buf_ok t bf"
    using h(2) h(5) bio_inv_length [OF inv] by (simp add: buf_ok_def bf) (simp add: t_def set_lh_def)
  then have "bio_inv (M - {bn}) s'"
    by (rule buf_upd_same_inv [OF inv_t(1) upd key])
      (simp_all add: bf s'_def bio_inv_disk [OF inv_t(1)])
  moreover have abs: "view s' = view s" "apinned (abs_bio s') = insert bn (apinned (abs_bio s))"
    "aheld (abs_bio s') = insert bn (aheld (abs_bio s))"
    using buf_upd_same_abs [OF inv_t(1) upd key] inv_t lk by (simp_all add: bf s'_def) (simp_all add: t_def)
  have "abs_bio s' = (abs_bio s)\<lparr>apinned := insert bn (apinned (abs_bio s))\<rparr>"
  proof (rule abs_bio_eqI)
    show "aheld (abs_bio s') = aheld ((abs_bio s)\<lparr>apinned := insert bn (apinned (abs_bio s))\<rparr>)"
      using i by (auto simp: abs aheld_iff)
  qed (simp_all add: abs, simp_all add: s'_def t_def)
  moreover have "holds s' j b = holds s j b" for j b
    using buf_upd_caches [OF upd key(2,1), of j b] by (simp add: holds_def caches_set_lh s'_def t_def bf)
  moreover have "lg s' = (lg s)\<lparr>lh := \<lparr>ln = int m, lblock = xs\<rparr>\<rparr>"
    by (simp add: s'_def t_def set_buf_def)
  ultimately show ?thesis
    using run by (simp add: s'_def bf_def t_def)
qed

lemma apply_writes_length:
  assumes "\<forall>(b, v) \<in> set ws. length v = BSIZE" and "\<And>b. length (d b) = BSIZE"
  shows "length (apply_writes ws d b) = BSIZE"
  using assms by (induction ws arbitrary: d) auto

lemma commit_prefix_length:
  assumes "log_ready n bl s"
  shows "length (apply_writes (take k (commit_writes (lstart (lg s)) bl n (view s))) (disk s) b) = BSIZE"
proof (rule apply_writes_length)
  have inv: "bio_inv {} s" and n: "n \<le> LOGSIZE"
    using assms by (auto simp: log_ready_def log_wf_def)
  show "length (disk s b) = BSIZE" for b
    by (rule bio_inv_disk [OF inv])
  have "\<forall>(b, v) \<in> set (commit_writes (lstart (lg s)) bl n (view s)). length v = BSIZE"
    using bio_inv_length [OF inv] head_bytes_props(2) [OF bio_inv_length [OF inv] n]
      head_bytes_props(2) [of _ 0]
    by (auto simp: commit_writes_def log_writes_def)
  then show "\<forall>(b, v) \<in> set (take k (commit_writes (lstart (lg s)) bl n (view s))). length v = BSIZE"
    by (auto dest: in_set_takeD)
qed

lemma txn_untouched:
  assumes "txn st lim bl n v d0" and "b \<notin> set (take n bl)" and "\<not> in_log st b"
  shows "b \<notin> fst ` set (commit_writes st bl n v)"
  using assms(2) txn_outside [OF assms(1,3)] by (auto simp: commit_writes_def image_Un image_image)

text \<open>
  The use of the log that the comment before \<^verbatim>\<open>log_write\<close> describes: read a block, change
  it, log it, release it.
\<close>

definition update_block :: "uint \<Rightarrow> (bytes \<Rightarrow> bytes) \<Rightarrow> 'a log_sys_scheme \<Rightarrow> 'a log_sys_scheme res" where
  "update_block b f s =
     rbind (bread 1 b s) (\<lambda>(bp, s).
     rbind (log_write bp (set_data bp (f (bdata (bufs s bp))) s)) (\<lambda>s.
     brelse bp s))"

lemma update_block_ok:
  assumes ready: "log_ready n bl s" and b: "b < disksize s" "\<not> in_log (lstart (lg s)) b"
    and f: "length (f (view s b)) = BSIZE"
    and room: "n < 29" "int n < lsize (lg s) - 1" and out: "1 \<le> outstanding (lg s)"
    and add: "log_add b n bl = (m, xs)"
  shows "\<exists>s'. update_block b f s = Inr s' \<and> log_ready m xs s'
    \<and> lg s' = (lg s)\<lparr>lh := \<lparr>ln = int m, lblock = xs\<rparr>\<rparr>
    \<and> abs_bio s' = (abs_bio s)\<lparr>aview := (view s)(b := f (view s b)), apinned := set (take m xs)\<rparr>"
proof -
  have inv: "bio_inv {} s" and wf: "log_wf n bl s" and dist: "distinct (take n bl)"
    and pin: "apinned (abs_bio s) = set (take n bl)" and held: "aheld (abs_bio s) = {}"
    using ready by (auto simp: log_ready_def)
  have L: "ln (lh (lg s)) = int n" "lblock (lh (lg s)) = bl" "length bl = LOGSIZE" "n < LOGSIZE"
    using wf by (auto simp: log_wf_def)
  have "card (apinned (abs_bio s) \<union> aheld (abs_bio s)) < NBUF"
    using pin held card_take [OF wf, of n] by simp
  then obtain i s1 where 1: "bread 1 b s = Inr (i, s1)" "bio_inv {} s1" "holds s1 i b" "bio.more s1 = bio.more s"
    "abs_bio s1 = (abs_bio s)\<lparr>aheld := {b}\<rparr>"
    using bread_refines [OF inv b(1)] held by auto
  note g1 = lg_more [OF 1(4)]
  have d: "bdata (bufs s1 i) = view s b" "view s1 = view s"
    using holds_data [OF 1(2,3)] arg_cong [OF 1(5), of aview] by simp_all
  let ?t = "set_data i (f (view s b)) s1"
  have 2: "bio_inv {b} ?t" "bio.more ?t = bio.more s1" "holds ?t i b"
    "abs_bio ?t = (abs_bio s1)\<lparr>aview := (view s)(b := f (view s b))\<rparr>"
    using set_data_refines [OF 1(2,3) f] 1(3) d by auto
  have g2: "lg ?t = lg s"
    using lg_more [OF 2(2)] g1 by simp
  obtain s3 where 3: "log_write i ?t = Inr s3" "bio_inv {} s3" "holds s3 i b"
    "abs_bio s3 = (abs_bio ?t)\<lparr>apinned := insert b (apinned (abs_bio ?t))\<rparr>"
    "lg s3 = (lg s)\<lparr>lh := \<lparr>ln = int m, lblock = xs\<rparr>\<rparr>"
    using log_write_ok [OF 2(1,3), of n bl m xs] L room out add 2(3) unfolding g2 by auto
  obtain s4 where 4: "brelse i s3 = Inr s4" "bio_inv {} s4" "bio.more s4 = bio.more s3"
    "abs_bio s4 = (abs_bio s3)\<lparr>aheld := aheld (abs_bio s3) - {b}\<rparr>"
    using brelse_refines [OF 3(2,3)] by auto
  note la = log_add_set [OF add _ dist]
  have ab: "abs_bio s4 = (abs_bio s)\<lparr>aview := (view s)(b := f (view s b)), apinned := set (take m xs)\<rparr>"
    unfolding 4(4) 3(4) 2(4) 1(5) using pin held la L by (cases "abs_bio s") simp
  have "disksize s4 = disksize s"
    unfolding view_abs ab by simp
  moreover have "m < LOGSIZE" "\<And>i. i < m \<Longrightarrow> xs ! i < disksize s \<and> \<not> in_log (lstart (lg s)) (xs ! i)"
    using add wf b room by (auto simp: log_add_def log_wf_def nth_list_update less_Suc_eq split: if_splits)
  ultimately have "log_ready m xs s4"
    unfolding log_ready_def log_wf_def lg_more [OF 4(3)] 3(5) ab using 4(2) wf la L held
    by (auto simp: log_wf_def)
  moreover have "update_block b f s = Inr s4"
    using 1(1) 3(1) 4(1) d by (simp add: update_block_def)
  ultimately show ?thesis
    using ab lg_more [OF 4(3)] 3(5) by auto
qed

lemma log_image_crash:
  assumes img: "log_image st lim d" and len: "length (d st) = BSIZE"
  shows "log_image st lim (apply_writes (take k (recovery_writes st d)) d)"
proof (cases "k \<le> length (logged st d)")
  case True
  have "apply_writes (take k (logged st d)) d st = d st"
    using log_image_st(1) [OF img] by (rule apply_take_other)
  with True img show ?thesis
    by (simp add: recovery_writes_def log_image_def)
next
  case False
  then have "apply_writes (take k (recovery_writes st d)) d st = head_bytes 0 [] (d st)"
    by (simp add: recovery_writes_def)
  then show ?thesis
    using img head_bytes_props(1) [of "d st" 0] len by (simp add: log_image_def)
qed

lemma recovery_prefix_length:
  assumes len: "\<And>b. length (d b) = BSIZE"
  shows "length (apply_writes (take k (recovery_writes st d)) d b) = BSIZE"
proof (rule apply_writes_length)
  have "\<forall>(b, v) \<in> set (recovery_writes st d). length v = BSIZE"
    using len head_bytes_props(2) [of _ 0] by (auto simp: recovery_writes_def logged_def)
  then show "\<forall>(b, v) \<in> set (take k (recovery_writes st d)). length v = BSIZE"
    by (auto dest: in_set_takeD)
qed (rule len)

lemma update_block_full:
  assumes ready: "log_ready n bl s" and full: "n = 29" and size: "lsize (lg s) \<le> 30" and b: "b < disksize s"
  shows "update_block b f s = Inl (Panic ''too big a transaction'')"
proof -
  have inv: "bio_inv {} s" and wf: "log_wf n bl s"
    and pin: "apinned (abs_bio s) = set (take n bl)" and held: "aheld (abs_bio s) = {}"
    using ready by (auto simp: log_ready_def)
  have "card (apinned (abs_bio s) \<union> aheld (abs_bio s)) < NBUF"
    using pin held card_take [OF wf, of n] by simp
  then obtain i s1 where "bread 1 b s = Inr (i, s1)" "bio.more s1 = bio.more s"
    using bread_refines [OF inv b] held by auto
  moreover from this have "lg (set_data i d s1) = lg s" for d
    using lg_more [of s1 s] by (simp add: set_data_def set_buf_def)
  ultimately show ?thesis
    using wf full size by (simp add: update_block_def log_write_def Let_def log_wf_def)
qed

section \<open>Main results\<close>

text \<open>
  C1: the log makes a transaction atomic. \<^verbatim>\<open>commit\<close> of a complete transaction on an empty
  log returns; and if the machine crashes after any number \<open>k\<close> of its disk writes, then
  \<^verbatim>\<open>initlog\<close> on the next boot returns with every block outside the log region as it was
  before the transaction, or with every such block as the transaction left it.
\<close>

theorem commit_crash_atomic:
  assumes "log_ready n bl s" and "0 < n" and "lh_n (disk s (lstart (lg s))) = 0"
    and "logstart (sb_of_bytes (disk s 1)) = lstart (lg s)" and "1 \<notin> set (take n bl)"
    and "\<not> in_log (lstart (lg s)) 1"
  shows "\<exists>s'. commit s = Inr s' \<and>
    (\<forall>k. \<exists>r. initlog 1 (reboot (crash_disk k s s') s) = Inr r \<and>
      ((\<forall>b. \<not> in_log (lstart (lg s)) b \<longrightarrow> disk r b = disk s b)
       \<or> (\<forall>b. \<not> in_log (lstart (lg s)) b \<longrightarrow> disk r b = view s b)))"
proof -
  let ?st = "lstart (lg s)"
  note t = log_ready_txn [OF assms(1,3)]
  obtain s' where c: "commit s = Inr s'" "bio_inv {} s'"
    "abs_bio s' = abs_write (commit_writes ?st bl n (view s)) (abs_bio s)"
    using commit_ok [OF assms(1,2)] by blast
  have w: "dwrites s' = dwrites s @ commit_writes ?st bl n (view s)"
    unfolding view_abs c(3) by simp
  have "\<exists>r. initlog 1 (reboot (crash_disk k s s') s) = Inr r \<and>
      ((\<forall>b. \<not> in_log ?st b \<longrightarrow> disk r b = disk s b) \<or> (\<forall>b. \<not> in_log ?st b \<longrightarrow> disk r b = view s b))" for k
  proof -
    define d where "d = crash_disk k s s'"
    have d': "d = apply_writes (take k (commit_writes ?st bl n (view s))) (disk s)"
      using w by (simp add: d_def crash_disk_def)
    note cr = commit_crash_replay [OF t d']
    have len: "length (d b) = BSIZE" for b
      unfolding d' by (rule commit_prefix_length [OF assms(1)])
    have sb: "d 1 = disk s 1"
      unfolding d' using txn_untouched [OF t assms(5,6)] by (rule apply_take_other)
    obtain r where r: "initlog 1 (reboot d s) = Inr r" "disk r = apply_writes (recovery_writes ?st d) d"
      using initlog_reboot [of d s, OF len] cr sb assms(4) by auto
    moreover have "disk r b = replay ?st d b" if "\<not> in_log ?st b" for b
      using r(2) txn_outside(2) [OF t that] by (simp add: recovery_writes_def replay_def)
    ultimately show ?thesis
      using cr unfolding d_def by (cases "k \<le> n") auto
  qed
  with c(1) show ?thesis
    by blast
qed

text \<open>A small disk: a super block that puts a log of 30 blocks at block 2, and zeroes.\<close>

definition small_disk :: "uint \<Rightarrow> bytes" where
  "small_disk b = (if b = 1 then put32 (put32 (replicate BSIZE 0) 12 30) 16 2 else replicate BSIZE 0)"

definition small_sys :: log_sys where
  "small_sys = (reboot small_disk \<lparr>curpid = 1, bufs = (\<lambda>_. zero_buf), disk = small_disk, disksize = 100,
      dwrites = [], lg = zero_log\<rparr>)\<lparr>lg := zero_log\<lparr>lstart := 2, lsize := 30, ldev := 1, outstanding := 1\<rparr>\<rparr>"

lemma small_disk_facts:
  "length (small_disk b) = BSIZE" "logstart (sb_of_bytes (small_disk 1)) = 2" "lh_n (small_disk 2) = 0"
  by (simp_all add: small_disk_def sb_of_bytes_def lh_n_def get32_def mk32_def put32_def byte_of_def)

lemma small_sys_facts:
  "log_ready 0 (replicate LOGSIZE 0) small_sys" "disk small_sys = small_disk" "view small_sys = small_disk"
  "disksize small_sys = 100" "lg small_sys = zero_log\<lparr>lstart := 2, lsize := 30, ldev := 1, outstanding := 1\<rparr>"
proof -
  let ?s = "\<lparr>curpid = 1, bufs = (\<lambda>_. zero_buf), disk = small_disk, disksize = 100, dwrites = [], lg = zero_log\<rparr>"
  note r = reboot_abs [where d = small_disk and s = ?s, OF small_disk_facts(1)]
  have a: "abs_bio small_sys = \<lparr>aview = small_disk, adisk = small_disk, apinned = {}, aheld = {},
      ahist = [], alimit = 100\<rparr>"
    unfolding small_sys_def lg_upd_abs r(3) by simp
  show f: "disk small_sys = small_disk" "view small_sys = small_disk" "disksize small_sys = 100"
    unfolding view_abs a by simp_all
  show g: "lg small_sys = zero_log\<lparr>lstart := 2, lsize := 30, ldev := 1, outstanding := 1\<rparr>"
    by (simp add: small_sys_def)
  have "bio_inv {} small_sys"
    unfolding small_sys_def lg_upd_abs by (rule r(1))
  then show "log_ready 0 (replicate LOGSIZE 0) small_sys"
    by (simp add: log_ready_def log_wf_def a f g log_area_def) (simp add: zero_log_def)
qed

lemma small_update:
  "\<exists>s. update_block 50 (\<lambda>_. replicate BSIZE 7) small_sys = Inr s \<and> log_ready 1 ((replicate LOGSIZE 0)[0 := 50]) s
     \<and> lstart (lg s) = 2 \<and> disk s = small_disk \<and> view s = small_disk(50 := replicate BSIZE 7)"
proof -
  have "log_add 50 0 (replicate LOGSIZE 0) = (1, (replicate LOGSIZE 0)[0 := 50])"
    by (simp add: log_add_def)
  then obtain s where s: "update_block 50 (\<lambda>_. replicate BSIZE 7) small_sys = Inr s"
    "log_ready 1 ((replicate LOGSIZE 0)[0 := 50]) s"
    "lg s = (lg small_sys)\<lparr>lh := \<lparr>ln = int 1, lblock = (replicate LOGSIZE 0)[0 := 50]\<rparr>\<rparr>"
    "abs_bio s = (abs_bio small_sys)\<lparr>aview := small_disk(50 := replicate BSIZE 7),
       apinned := set (take 1 ((replicate LOGSIZE 0)[0 := 50]))\<rparr>"
    using update_block_ok [OF small_sys_facts(1), of 50 "\<lambda>_. replicate BSIZE 7"]
    by (auto simp: small_sys_facts in_log_def)
  have "disk s = small_disk" "view s = small_disk(50 := replicate BSIZE 7)"
    unfolding view_abs s(4) by (simp_all add: small_sys_facts)
  then show ?thesis
    using s(1-3) by (simp add: small_sys_facts)
qed

lemma take_first: "xs \<noteq> [] \<Longrightarrow> take 1 (xs[0 := x]) = [x]"
  by (cases xs) auto

theorem commit_crash_atomic_witness:
  "\<exists>s s'. update_block 50 (\<lambda>_. replicate BSIZE 7) small_sys = Inr s
    \<and> log_ready 1 ((replicate LOGSIZE 0)[0 := 50]) s \<and> disk s 50 \<noteq> view s 50 \<and> commit s = Inr s' \<and>
    (\<forall>k. \<exists>r. initlog 1 (reboot (crash_disk k s s') s) = Inr r \<and>
      ((\<forall>b. \<not> in_log 2 b \<longrightarrow> disk r b = disk s b) \<or> (\<forall>b. \<not> in_log 2 b \<longrightarrow> disk r b = view s b)))"
proof -
  obtain s where s: "update_block 50 (\<lambda>_. replicate BSIZE 7) small_sys = Inr s"
    "log_ready 1 ((replicate LOGSIZE 0)[0 := 50]) s" "lstart (lg s) = 2" "disk s = small_disk"
    "view s = small_disk(50 := replicate BSIZE 7)"
    using small_update by blast
  have "disk s 50 \<noteq> view s 50"
    by (simp add: s small_disk_def replicate_eq_replicate)
  moreover have "(1 :: uint) \<notin> set (take 1 ((replicate LOGSIZE 0)[0 := 50]))" "\<not> in_log 2 1"
    by (subst take_first) (simp_all add: in_log_def)
  then have "\<exists>s'. commit s = Inr s' \<and>
    (\<forall>k. \<exists>r. initlog 1 (reboot (crash_disk k s s') s) = Inr r \<and>
      ((\<forall>b. \<not> in_log 2 b \<longrightarrow> disk r b = disk s b) \<or> (\<forall>b. \<not> in_log 2 b \<longrightarrow> disk r b = view s b)))"
    using commit_crash_atomic [OF s(2), unfolded s(3)] s(4) small_disk_facts by simp
  ultimately show ?thesis
    using s by blast
qed

text \<open>
  C2: recovery survives crashes. On a disk whose log header is well formed \<^verbatim>\<open>initlog\<close>
  returns after a boot and installs the logged blocks, as \<open>replay\<close> says; and if the machine
  crashes after any number of the disk writes of that recovery, recovering again gives the
  same blocks outside the log region.
\<close>

theorem recovery_idempotent:
  assumes "\<And>b. length (d b) = BSIZE" and "st = logstart (sb_of_bytes (d 1))" and "log_image st (disksize s) d"
    and "\<not> in_log st 1" and "1 \<notin> fst ` set (logged st d)"
  shows "\<exists>r. initlog 1 (reboot d s) = Inr r \<and> (\<forall>b. \<not> in_log st b \<longrightarrow> disk r b = replay st d b) \<and>
    (\<forall>k. \<exists>r'. initlog 1 (reboot (crash_disk k (reboot d s) r) s) = Inr r' \<and>
       (\<forall>b. \<not> in_log st b \<longrightarrow> disk r' b = replay st d b))"
proof -
  have run: "\<exists>r. initlog 1 (reboot d' s) = Inr r \<and> dwrites r = dwrites s @ recovery_writes st d'
      \<and> (\<forall>b. \<not> in_log st b \<longrightarrow> disk r b = replay st d' b)"
    if "\<And>b. length (d' b) = BSIZE" "log_image st (disksize s) d'" "d' 1 = d 1" for d'
  proof -
    have "b \<noteq> st" if "\<not> in_log st b" for b
      using that assms(3) log_start_props(1) by (auto simp: log_image_def)
    then show ?thesis
      using initlog_reboot [of d' s, OF that(1)] that assms(2)
      by (auto simp: recovery_writes_def replay_def)
  qed
  obtain r where r: "initlog 1 (reboot d s) = Inr r" "dwrites r = dwrites s @ recovery_writes st d"
    "\<forall>b. \<not> in_log st b \<longrightarrow> disk r b = replay st d b"
    using run [OF assms(1,3)] by blast
  have "\<exists>r'. initlog 1 (reboot (crash_disk k (reboot d s) r) s) = Inr r' \<and>
       (\<forall>b. \<not> in_log st b \<longrightarrow> disk r' b = replay st d b)" for k
  proof -
    let ?d = "apply_writes (take k (recovery_writes st d)) d"
    have "disk (reboot d s) = d" "dwrites (reboot d s) = dwrites s"
      using reboot_abs(3) [where d = d and s = s, OF assms(1)] unfolding view_abs by simp_all
    then have c: "crash_disk k (reboot d s) r = ?d"
      using r(2) by (simp add: crash_disk_def)
    have "(1 :: uint) \<noteq> st"
      using assms(3,4) log_start_props(1) by (auto simp: log_image_def)
    then have "?d 1 = d 1"
      using assms(5) by (intro apply_take_other) (simp add: recovery_writes_def)
    then show ?thesis
      unfolding c using run [of ?d, OF recovery_prefix_length [OF assms(1)] log_image_crash [OF assms(3,1)]]
        replay_crash [OF assms(3) _ assms(1)] by auto
  qed
  with r show ?thesis
    by blast
qed

text \<open>
  C3: \<^verbatim>\<open>commit\<close> brings the disk up to date. After it every block outside the log region has
  on disk the contents the transaction gave it, no block is pinned in the cache any more, and the
  log is empty.
\<close>

theorem commit_installs:
  assumes "log_ready n bl s" and "0 < n" and "lh_n (disk s (lstart (lg s))) = 0"
  shows "\<exists>s'. commit s = Inr s' \<and> (\<forall>b. \<not> in_log (lstart (lg s)) b \<longrightarrow> disk s' b = view s b \<and> view s' b = view s b)
    \<and> apinned (abs_bio s') = {} \<and> ln (lh (lg s')) = 0 \<and> lh_n (disk s' (lstart (lg s))) = 0"
proof -
  let ?st = "lstart (lg s)"
  note t = log_ready_txn [OF assms(1,3)]
  obtain s' where c: "commit s = Inr s'" "bio_inv {} s'" "lg s' = (lg s)\<lparr>lh := (lh (lg s))\<lparr>ln := 0\<rparr>\<rparr>"
    "abs_bio s' = abs_write (commit_writes ?st bl n (view s)) (abs_bio s)"
    using commit_ok [OF assms(1,2)] by blast
  let ?d = "apply_writes (commit_writes ?st bl n (view s)) (disk s)"
  have "apinned (abs_bio s') = {}"
    using assms(1) unfolding c(4) by (auto simp: log_ready_def commit_writes_def image_Un image_image)
  then have vd: "view s' = disk s'"
    using bio_inv_coherent [OF c(2)] by auto
  have d: "disk s' = ?d"
    unfolding view_abs c(4) by simp
  have e: "lh_n (?d ?st) = 0"
    by (simp add: commit_writes_def txn_header(3) [OF t refl])
  have "\<not> n \<ge> length (commit_writes ?st bl n (view s))"
    by (simp add: commit_writes_def log_writes_def)
  then have "replay ?st ?d b = view s b" if "\<not> in_log ?st b" for b
    using commit_crash_replay [OF t, of ?d "length (commit_writes ?st bl n (view s))"] that by simp
  then have "?d b = view s b" if "\<not> in_log ?st b" for b
    using that e by (simp add: replay_clean)
  then show ?thesis
    using c(1,3) \<open>apinned (abs_bio s') = {}\<close> vd d e by auto
qed

theorem commit_installs_witness:
  "\<exists>s s'. update_block 50 (\<lambda>_. replicate BSIZE 7) small_sys = Inr s
    \<and> log_ready 1 ((replicate LOGSIZE 0)[0 := 50]) s \<and> commit s = Inr s'
    \<and> disk s' 50 = replicate BSIZE 7 \<and> apinned (abs_bio s') = {}"
proof -
  obtain s where s: "update_block 50 (\<lambda>_. replicate BSIZE 7) small_sys = Inr s"
    "log_ready 1 ((replicate LOGSIZE 0)[0 := 50]) s" "lstart (lg s) = 2" "disk s = small_disk"
    "view s = small_disk(50 := replicate BSIZE 7)"
    using small_update by blast
  have "\<not> in_log 2 50"
    by (simp add: in_log_def)
  then show ?thesis
    using commit_installs [OF s(2), unfolded s(3)] s small_disk_facts by fastforce
qed

theorem recovery_idempotent_witness:
  "\<exists>r. initlog 1 (reboot small_disk small_sys) = Inr r \<and> (\<forall>b. \<not> in_log 2 b \<longrightarrow> disk r b = replay 2 small_disk b) \<and>
    (\<forall>k. \<exists>r'. initlog 1 (reboot (crash_disk k (reboot small_disk small_sys) r) small_sys) = Inr r' \<and>
       (\<forall>b. \<not> in_log 2 b \<longrightarrow> disk r' b = replay 2 small_disk b))"
  by (rule recovery_idempotent)
    (simp_all add: small_disk_facts small_sys_facts log_image_def log_area_def in_log_def logged_def)

text \<open>
  C9: \<^verbatim>\<open>log_write\<close> extends the transaction. Reading a home block, changing it, logging it and
  releasing it succeeds while fewer than LOGSIZE - 1 blocks are logged: the block is pinned with
  its new contents, it is named once in the log header however often it is logged, nothing
  reaches the disk, and the transaction is still complete.
\<close>

theorem log_write_absorbs:
  assumes "log_ready n bl s" and "b < disksize s" and "\<not> in_log (lstart (lg s)) b"
    and "length (f (view s b)) = BSIZE" and "n < 29" and "int n < lsize (lg s) - 1" and "1 \<le> outstanding (lg s)"
  shows "\<exists>s' m xs. update_block b f s = Inr s' \<and> log_ready m xs s' \<and> view s' = (view s)(b := f (view s b))
    \<and> disk s' = disk s \<and> set (take m xs) = insert b (set (take n bl))
    \<and> m = (if b \<in> set (take n bl) then n else Suc n)"
proof -
  obtain m xs where add: "log_add b n bl = (m, xs)"
    by fastforce
  then obtain s' where s': "update_block b f s = Inr s'" "log_ready m xs s'"
    "abs_bio s' = (abs_bio s)\<lparr>aview := (view s)(b := f (view s b)), apinned := set (take m xs)\<rparr>"
    using update_block_ok [where f = f, OF assms add] by blast
  have "disk s' = disk s" "view s' = (view s)(b := f (view s b))"
    unfolding view_abs s'(3) by simp_all
  moreover have "set (take m xs) = insert b (set (take n bl))"
    using log_add_set(1) [OF add] assms(1) by (simp add: log_ready_def log_wf_def)
  moreover have "m = (if b \<in> set (take n bl) then n else Suc n)"
    using add by (simp add: log_add_def split: if_splits)
  ultimately show ?thesis
    using s' by blast
qed

theorem log_write_absorbs_witness:
  "\<exists>s' m xs. update_block 50 (\<lambda>_. replicate BSIZE 7) small_sys = Inr s' \<and> log_ready m xs s' \<and> m = Suc 0
     \<and> disk s' = small_disk \<and> view s' 50 = replicate BSIZE 7"
  using log_write_absorbs [OF small_sys_facts(1), of 50 "\<lambda>_. replicate BSIZE 7"]
  by (auto simp: small_sys_facts in_log_def)

text \<open>
  C32: admission does not protect a log of LOGSIZE blocks. On an idle, empty log of
  \<^verbatim>\<open>log.size\<close> = LOGSIZE blocks, the size mkfs writes, \<^verbatim>\<open>begin_op\<close> admits three operations,
  each entitled to MAXOPBLOCKS = 10 blocks; but logging the 30 blocks they were granted
  panics at the last one, because only LOGSIZE - 1 blocks fit behind the header.
\<close>

theorem log_admission_overcommits:
  assumes ready: "log_ready 0 bl s" and idle: "\<not> committing (lg s)" "outstanding (lg s) = 0"
    and size: "lsize (lg s) = int LOGSIZE"
    and bs: "distinct bs" "length bs = 30" "\<forall>b \<in> set bs. b < disksize s \<and> \<not> in_log (lstart (lg s)) b"
    and f: "\<forall>d. length (f d) = BSIZE"
  shows "\<exists>s3 t. rbind (begin_op s) (\<lambda>s. rbind (begin_op s) begin_op) = Inr s3
    \<and> for_each (\<lambda>i. update_block (bs ! i) f) [0..<29] s3 = Inr t
    \<and> update_block (bs ! 29) f t = Inl (Panic ''too big a transaction'')"
proof -
  define s3 where "s3 = s\<lparr>lg := (lg s)\<lparr>outstanding := 3\<rparr>\<rparr>"
  have n0: "ln (lh (lg s)) = 0"
    using ready by (simp add: log_ready_def log_wf_def)
  have run3: "rbind (begin_op s) (\<lambda>s. rbind (begin_op s) begin_op) = Inr s3"
    using idle n0 by (simp add: begin_op_def s3_def)
  let ?I = "\<lambda>k t. \<exists>xs. log_ready k xs t \<and> take k xs = take k bs \<and> lsize (lg t) = 30 \<and> outstanding (lg t) = 3
    \<and> lstart (lg t) = lstart (lg s) \<and> alimit (abs_bio t) = disksize s"
  have "log_ready 0 bl s3"
    using ready by (simp add: log_ready_def log_wf_def s3_def)
  then have I0: "?I 0 s3"
    using size by (intro exI [of _ bl]) (simp add: s3_def)
  have step: "\<exists>t'. update_block (bs ! k) f t = Inr t' \<and> ?I (Suc k) t'" if k: "k < 29" and It: "?I k t" for k t
  proof -
    from It obtain xs where xs: "log_ready k xs t" "take k xs = take k bs" "lsize (lg t) = 30" "outstanding (lg t) = 3"
      "lstart (lg t) = lstart (lg s)" "alimit (abs_bio t) = disksize s"
      by blast
    have fresh: "bs ! k \<notin> set (take k xs)"
      unfolding xs(2) using pinned_later [of 30 bs k] bs k by simp
    have l: "k < length xs"
      using xs(1) by (simp add: log_ready_def log_wf_def)
    have add: "log_add (bs ! k) k xs = (Suc k, xs[k := bs ! k])"
      using fresh by (simp add: log_add_def)
    obtain t' where t': "update_block (bs ! k) f t = Inr t'" "log_ready (Suc k) (xs[k := bs ! k]) t'"
      "lg t' = (lg t)\<lparr>lh := \<lparr>ln = int (Suc k), lblock = xs[k := bs ! k]\<rparr>\<rparr>"
      "abs_bio t' = (abs_bio t)\<lparr>aview := (view t)(bs ! k := f (view t (bs ! k))), apinned := set (take (Suc k) (xs[k := bs ! k]))\<rparr>"
      using update_block_ok [OF xs(1) _ _ _ k _ _ add, of f] xs bs k f by auto
    moreover have "take (Suc k) (xs[k := bs ! k]) = take (Suc k) bs"
      using xs(2) l k bs(2) by (simp add: take_Suc_conv_app_nth)
    ultimately show ?thesis
      using xs by (intro exI [of _ t'] conjI exI [of _ "xs[k := bs ! k]"]) simp_all
  qed
  from for_each_upt [where I = ?I and n = 29 and f = "\<lambda>i. update_block (bs ! i) f", OF I0 step]
  obtain t xs where t: "for_each (\<lambda>i. update_block (bs ! i) f) [0..<29] s3 = Inr t" "log_ready 29 xs t"
    "take 29 xs = take 29 bs" "lsize (lg t) = 30" "alimit (abs_bio t) = disksize s"
    by blast
  have "update_block (bs ! 29) f t = Inl (Panic ''too big a transaction'')"
    using update_block_full [OF t(2)] t(4,5) bs by simp
  then show ?thesis
    using run3 t(1) by blast
qed

theorem log_admission_overcommits_witness:
  "\<exists>s3 t. rbind (begin_op (small_sys\<lparr>lg := (lg small_sys)\<lparr>outstanding := 0\<rparr>\<rparr>))
      (\<lambda>s. rbind (begin_op s) begin_op) = Inr s3
    \<and> for_each (\<lambda>i. update_block (map of_nat [40..<70] ! i) (\<lambda>_. replicate BSIZE 7)) [0..<29] s3 = Inr t
    \<and> update_block (map of_nat [40..<70] ! 29) (\<lambda>_. replicate BSIZE 7) t = Inl (Panic ''too big a transaction'')"
proof (rule log_admission_overcommits)
  show "log_ready 0 (replicate LOGSIZE 0) (small_sys\<lparr>lg := (lg small_sys)\<lparr>outstanding := 0\<rparr>\<rparr>)"
    using small_sys_facts(1) by (simp add: log_ready_def log_wf_def)
  show "distinct (map of_nat [40..<70] :: uint list)"
    by (auto simp: distinct_map of_nat_uint_eq intro!: inj_onI simp del: upt_rec_numeral)
  show "\<forall>b \<in> set (map of_nat [40..<70]). b < disksize (small_sys\<lparr>lg := (lg small_sys)\<lparr>outstanding := 0\<rparr>\<rparr>)
      \<and> \<not> in_log (lstart (lg (small_sys\<lparr>lg := (lg small_sys)\<lparr>outstanding := 0\<rparr>\<rparr>))) b"
    by (auto simp: small_sys_facts in_log_def word_less_nat_alt simp del: upt_rec_numeral)
qed (simp_all add: small_sys_facts zero_log_def del: upt_rec_numeral)

end
