(* ===== verification/Memory.thy ===== *)
theory Memory
  imports Prelude
begin

text \<open>
  Byte-addressed memory with 32-bit addresses, and the memory and string routines of
  \<^verbatim>\<open>string.c\<close> on it. Addresses wrap around as pointers do on this machine. The routines
  that only read take a string as the function from offsets to bytes that \<open>ptr\<close> makes of an
  address, so that they also apply to the bytes of a disk block.
\<close>

type_synonym mem = "uint \<Rightarrow> uchar"

definition ptr :: "mem \<Rightarrow> uint \<Rightarrow> nat \<Rightarrow> uchar" where
  "ptr m a i = m (a + of_nat i)"

definition load32 :: "mem \<Rightarrow> uint \<Rightarrow> uint" where
  "load32 m a = mk32 (m a) (m (a + 1)) (m (a + 2)) (m (a + 3))"

definition store32 :: "uint \<Rightarrow> uint \<Rightarrow> mem \<Rightarrow> mem" where
  "store32 a w m = m(a := byte_of 0 w, a + 1 := byte_of 1 w, a + 2 := byte_of 2 w, a + 3 := byte_of 3 w)"

section \<open>The routines\<close>

primrec stosb :: "nat \<Rightarrow> uint \<Rightarrow> uchar \<Rightarrow> mem \<Rightarrow> mem" where
  "stosb 0 a c m = m"
| "stosb (Suc n) a c m = stosb n (a + 1) c (m(a := c))"

primrec stosl :: "nat \<Rightarrow> uint \<Rightarrow> uint \<Rightarrow> mem \<Rightarrow> mem" where
  "stosl 0 a w m = m"
| "stosl (Suc n) a w m = stosl n (a + 4) w (store32 a w m)"

definition memset :: "uint \<Rightarrow> uint \<Rightarrow> uint \<Rightarrow> mem \<Rightarrow> mem" where
  "memset dst c n m =
     (if dst mod 4 = 0 \<and> n mod 4 = 0
      then let c = c AND 0xFF
           in stosl (unat (n div 4)) dst (push_bit 24 c OR push_bit 16 c OR push_bit 8 c OR c) m
      else stosb (unat n) dst (ucast c) m)"

fun memcmp_loop :: "(nat \<Rightarrow> uchar) \<Rightarrow> (nat \<Rightarrow> uchar) \<Rightarrow> nat \<Rightarrow> nat \<Rightarrow> int" where
  "memcmp_loop s1 s2 i 0 = 0"
| "memcmp_loop s1 s2 i (Suc n) =
     (if s1 i \<noteq> s2 i then uint (s1 i) - uint (s2 i) else memcmp_loop s1 s2 (Suc i) n)"

definition memcmp :: "(nat \<Rightarrow> uchar) \<Rightarrow> (nat \<Rightarrow> uchar) \<Rightarrow> uint \<Rightarrow> int" where
  "memcmp v1 v2 n = memcmp_loop v1 v2 0 (unat n)"

primrec copy_down :: "nat \<Rightarrow> uint \<Rightarrow> uint \<Rightarrow> mem \<Rightarrow> mem" where
  "copy_down 0 d s m = m"
| "copy_down (Suc n) d s m = copy_down n (d - 1) (s - 1) (m(d - 1 := m (s - 1)))"

primrec copy_up :: "nat \<Rightarrow> uint \<Rightarrow> uint \<Rightarrow> mem \<Rightarrow> mem" where
  "copy_up 0 d s m = m"
| "copy_up (Suc n) d s m = copy_up n (d + 1) (s + 1) (m(d := m s))"

definition memmove :: "uint \<Rightarrow> uint \<Rightarrow> uint \<Rightarrow> mem \<Rightarrow> mem" where
  "memmove dst src n m =
     (if src < dst \<and> dst < src + n then copy_down (unat n) (dst + n) (src + n) m
      else copy_up (unat n) dst src m)"

definition memcpy :: "uint \<Rightarrow> uint \<Rightarrow> uint \<Rightarrow> mem \<Rightarrow> mem" where
  "memcpy dst src n m = memmove dst src n m"

fun strncmp_loop :: "(nat \<Rightarrow> uchar) \<Rightarrow> (nat \<Rightarrow> uchar) \<Rightarrow> nat \<Rightarrow> nat \<Rightarrow> int" where
  "strncmp_loop p q i 0 = 0"
| "strncmp_loop p q i (Suc n) =
     (if p i \<noteq> 0 \<and> p i = q i then strncmp_loop p q (Suc i) n else uint (p i) - uint (q i))"

definition strncmp :: "(nat \<Rightarrow> uchar) \<Rightarrow> (nat \<Rightarrow> uchar) \<Rightarrow> uint \<Rightarrow> int" where
  "strncmp p q n = strncmp_loop p q 0 (unat n)"

primrec strncpy_loop :: "nat \<Rightarrow> uint \<Rightarrow> uint \<Rightarrow> mem \<Rightarrow> mem" where
  "strncpy_loop 0 s t m = m"
| "strncpy_loop (Suc n) s t m =
     (let m' = m(s := m t)
      in if m t \<noteq> 0 then strncpy_loop n (s + 1) (t + 1) m' else stosb n (s + 1) 0 m')"

definition strncpy :: "uint \<Rightarrow> uint \<Rightarrow> int \<Rightarrow> mem \<Rightarrow> mem" where
  "strncpy s t n m = strncpy_loop (nat n) s t m"

primrec safestrcpy_loop :: "nat \<Rightarrow> uint \<Rightarrow> uint \<Rightarrow> mem \<Rightarrow> mem" where
  "safestrcpy_loop 0 s t m = m(s := 0)"
| "safestrcpy_loop (Suc n) s t m =
     (let m' = m(s := m t)
      in if m t \<noteq> 0 then safestrcpy_loop n (s + 1) (t + 1) m' else m'(s + 1 := 0))"

definition safestrcpy :: "uint \<Rightarrow> uint \<Rightarrow> int \<Rightarrow> mem \<Rightarrow> mem" where
  "safestrcpy s t n m = (if n \<le> 0 then m else safestrcpy_loop (nat (n - 1)) s t m)"

partial_function (option) strlen_from :: "(nat \<Rightarrow> uchar) \<Rightarrow> nat \<Rightarrow> nat option" where
  "strlen_from s n = (if s n = 0 then Some n else strlen_from s (Suc n))"

definition strlen :: "(nat \<Rightarrow> uchar) \<Rightarrow> nat option" where
  "strlen s = strlen_from s 0"

section \<open>Regions of memory\<close>

text \<open>The bytes of \<open>n\<close> consecutive addresses.\<close>

definition region :: "uint \<Rightarrow> nat \<Rightarrow> uint set" where
  "region a n = (\<lambda>i. a + of_nat i) ` {..<n}"

definition peek :: "mem \<Rightarrow> uint \<Rightarrow> nat \<Rightarrow> bytes" where
  "peek m a n = map (\<lambda>i. m (a + of_nat i)) [0..<n]"

lemma region_simps [simp]: "region a 0 = {}" "region a (Suc n) = insert a (region (a + 1) n)"
proof -
  show "region a 0 = {}"
    by (simp add: region_def)
  have "(\<lambda>i. a + of_nat i) ` {..<Suc n} = insert a ((\<lambda>i. a + of_nat (Suc i)) ` {..<n})"
    by (auto simp: lessThan_Suc_eq_insert_0 image_image)
  then show "region a (Suc n) = insert a (region (a + 1) n)"
    by (simp add: region_def add.assoc)
qed

lemma length_peek [simp]: "length (peek m a n) = n"
  by (simp add: peek_def)

lemma nth_peek [simp]: "i < n \<Longrightarrow> peek m a n ! i = m (a + of_nat i)"
  by (simp add: peek_def)

lemma offset_eq: "i < 4294967296 \<Longrightarrow> j < 4294967296 \<Longrightarrow> (a :: uint) + of_nat i = a + of_nat j \<longleftrightarrow> i = j"
  by (simp add: of_nat_uint_eq)

lemma in_region: "i < n \<Longrightarrow> a + of_nat i \<in> region a n"
  by (simp add: region_def)

lemma region_offset: "x \<in> region a n \<longleftrightarrow> (\<exists>i < n. x = a + of_nat i)"
  by (auto simp: region_def)

lemma region_iff: "n \<le> 4294967296 \<Longrightarrow> x \<in> region a n \<longleftrightarrow> unat (x - a) < n"
proof
  assume n: "n \<le> 4294967296"
  show "x \<in> region a n \<Longrightarrow> unat (x - a) < n"
    using n by (auto simp: region_offset)
  assume "unat (x - a) < n"
  then show "x \<in> region a n"
    unfolding region_offset by (intro exI [of _ "unat (x - a)"]) simp
qed

lemma unat_m1: "unat (- 1 :: uint) = 4294967295"
  by (simp add: unsigned_minus_1_eq_mask mask_eq_exp_minus_1)

lemma stosb_spec: "n \<le> 4294967296 \<Longrightarrow> stosb n a c m x = (if x \<in> region a n then c else m x)"
proof (induction n arbitrary: a m)
  case (Suc n)
  have "a \<notin> region (a + 1) n"
    using Suc.prems by (auto simp: region_iff unat_m1)
  then show ?case
    using Suc by auto
qed simp

lemma stosb_add: "stosb (n + k) a c m = stosb k (a + of_nat n) c (stosb n a c m)"
  by (induction n arbitrary: a m) (simp_all add: add.assoc)

lemma stosl_stosb:
  assumes "byte_of 0 w = c" "byte_of 1 w = c" "byte_of 2 w = c" "byte_of 3 w = c"
  shows "stosl n a w m = stosb (4 * n) a c m"
proof (induction n arbitrary: a m)
  case (Suc n)
  have four: "stosb 4 a c m = store32 a w m" for a m
    using assms by (simp add: store32_def eval_nat_numeral add.assoc)
  have "stosb (4 * Suc n) a c m = stosb (4 * n) (a + 4) c (stosb 4 a c m)"
    using stosb_add [of 4 "4 * n" a c m] by (simp add: add.commute)
  then show ?case
    using Suc by (simp add: four)
qed simp

lemma splat_bytes:
  fixes c :: uint
  defines "w \<equiv> push_bit 24 (c AND 0xFF) OR push_bit 16 (c AND 0xFF) OR push_bit 8 (c AND 0xFF) OR (c AND 0xFF)"
  shows "byte_of 0 w = ucast c" "byte_of 1 w = ucast c" "byte_of 2 w = ucast c" "byte_of 3 w = ucast c"
proof -
  have m: "(0xFF :: uint) = mask 8"
    by (simp add: mask_eq_exp_minus_1)
  show "byte_of 0 w = ucast c" "byte_of 1 w = ucast c" "byte_of 2 w = ucast c" "byte_of 3 w = ucast c"
    unfolding w_def m
    by (rule bit_word_eqI; auto simp: byte_of_def bit_word_ucast_iff bit_drop_bit_eq bit_or_iff bit_push_bit_iff
        bit_and_iff bit_mask_iff)+
qed

lemma memset_spec: "memset dst c n m x = (if x \<in> region dst (unat n) then ucast c else m x)"
proof (cases "dst mod 4 = 0 \<and> n mod 4 = 0")
  case True
  have "unat (n mod 4) = 0"
    using True by simp
  then have "unat n mod 4 = 0"
    by (simp only: unat_mod) simp
  then have "4 * unat (n div 4) = unat n"
    by (simp add: unat_div) presburger
  then show ?thesis
    using True stosl_stosb [where a = dst and n = "unat (n div 4)" and m = m, OF splat_bytes [of c]]
    by (simp add: memset_def Let_def stosb_spec order_less_imp_le)
next
  case False
  then show ?thesis
    unfolding memset_def if_not_P [OF False] by (simp add: stosb_spec order_less_imp_le)
qed

lemma copy_up_spec:
  assumes "n \<le> 4294967296" and "\<And>i j. i < j \<Longrightarrow> j < n \<Longrightarrow> d + of_nat i \<noteq> s + of_nat j"
  shows "copy_up n d s m x = (if x \<in> region d n then m (s + (x - d)) else m x)"
  using assms
proof (induction n arbitrary: d s m)
  case (Suc n)
  have no: "d + 1 + of_nat i \<noteq> s + 1 + of_nat j" if "i < j" "j < n" for i j
    using Suc.prems(2) [of "Suc i" "Suc j"] that by (simp add: add.assoc)
  have d: "d \<notin> region (d + 1) n"
    using Suc.prems(1) by (auto simp: region_iff unat_m1)
  have IH: "copy_up n (d + 1) (s + 1) (m(d := m s)) x
      = (if x \<in> region (d + 1) n then (m(d := m s)) (s + 1 + (x - (d + 1))) else (m(d := m s)) x)"
    using Suc.prems(1) no by (intro Suc.IH) auto
  have "s + 1 + (x - (d + 1)) = s + (x - d)"
    by (simp add: algebra_simps)
  moreover have "s + (x - d) \<noteq> d" if x: "x \<in> region (d + 1) n"
  proof -
    obtain i where i: "i < n" "x = d + 1 + of_nat i"
      using x by (auto simp: region_offset)
    then have "s + (x - d) = s + of_nat (Suc i)"
      by (simp add: algebra_simps)
    then show ?thesis
      using Suc.prems(2) [of 0 "Suc i"] i(1) by auto
  qed
  ultimately show ?case
    using IH d by auto
qed simp

lemma copy_down_spec:
  assumes "n \<le> 4294967296" and "\<And>i j. i < j \<Longrightarrow> j < n \<Longrightarrow> d + of_nat j \<noteq> s + of_nat i"
  shows "copy_down n (d + of_nat n) (s + of_nat n) m x = (if x \<in> region d n then m (s + (x - d)) else m x)"
  using assms
proof (induction n arbitrary: m)
  case (Suc n)
  let ?m = "m(d + of_nat n := m (s + of_nat n))"
  have IH: "copy_down n (d + of_nat n) (s + of_nat n) ?m x
      = (if x \<in> region d n then ?m (s + (x - d)) else ?m x)"
    using Suc.prems by (intro Suc.IH) auto
  have r: "region d (Suc n) = insert (d + of_nat n) (region d n)"
    by (auto simp: region_def lessThan_Suc)
  have n: "d + of_nat n \<notin> region d n"
    using Suc.prems(1) by (simp add: region_iff)
  have "s + (x - d) \<noteq> d + of_nat n" if x: "x \<in> region d n"
  proof -
    obtain i where "i < n" "x = d + of_nat i"
      using x by (auto simp: region_offset)
    then show ?thesis
      using Suc.prems(2) [of i n] by auto
  qed
  moreover have "copy_down (Suc n) (d + of_nat (Suc n)) (s + of_nat (Suc n)) m x
      = copy_down n (d + of_nat n) (s + of_nat n) ?m x"
    by (simp add: algebra_simps)
  ultimately show ?case
    unfolding r using IH n by auto
qed simp

lemma no_overlap_up:
  assumes "unat d + n \<le> 4294967296" and "unat s + n \<le> 4294967296" and "d \<le> s \<or> unat s + n \<le> unat d"
    and "i < j" and "j < n"
  shows "d + of_nat i \<noteq> (s :: uint) + of_nat j"
proof
  assume "d + of_nat i = s + of_nat j"
  then have "unat (d + of_nat i) = unat (s + of_nat j)"
    by simp
  moreover have "unat (d + of_nat i) = unat d + i" "unat (s + of_nat j) = unat s + j"
    using assms unat_plus_small [of d "of_nat i"] unat_plus_small [of s "of_nat j"] by simp_all
  ultimately show False
    using assms by (auto simp: word_le_nat_alt)
qed

lemma no_overlap_down:
  assumes "unat d + n \<le> 4294967296" and "unat s + n \<le> 4294967296" and "s < d" and "i < j" and "j < n"
  shows "d + of_nat j \<noteq> (s :: uint) + of_nat i"
proof
  assume "d + of_nat j = s + of_nat i"
  then have "unat (d + of_nat j) = unat (s + of_nat i)"
    by simp
  moreover have "unat (d + of_nat j) = unat d + j" "unat (s + of_nat i) = unat s + i"
    using assms unat_plus_small [of d "of_nat j"] unat_plus_small [of s "of_nat i"] by simp_all
  ultimately show False
    using assms by (auto simp: word_less_nat_alt)
qed

text \<open>
  C24: \<^verbatim>\<open>memmove\<close> copies correctly whether or not the regions overlap. If the source ends
  below the top of the address space and the destination does not run past it, every byte of the
  destination gets the byte the source had before the call, and nothing else changes.
\<close>

theorem memmove_correct:
  assumes dst: "unat dst + unat n \<le> 4294967296" and src: "unat src + unat n < 4294967296"
  shows "memmove dst src n m x = (if x \<in> region dst (unat n) then m (src + (x - dst)) else m x)"
proof -
  have n: "unat n \<le> 4294967296"
    by (simp add: order_less_imp_le)
  have e: "unat (src + n) = unat src + unat n"
    using src by (intro unat_plus_small) simp
  show ?thesis
  proof (cases "src < dst \<and> dst < src + n")
    case True
    then show ?thesis
      using copy_down_spec [where d = dst and s = src and m = m and x = x, OF n no_overlap_down] dst src
      by (simp add: memmove_def)
  next
    case False
    then have "dst \<le> src \<or> unat src + unat n \<le> unat dst"
      using e by (auto simp: word_less_nat_alt word_le_nat_alt)
    then show ?thesis
      unfolding memmove_def if_not_P [OF False]
      using copy_up_spec [where d = dst and s = src and m = m and x = x, OF n no_overlap_up] dst src by simp
  qed
qed

theorem memmove_correct_witness:
  "memmove 101 100 3 ((\<lambda>_. 0)(100 := 7, 101 := 8, 102 := 9)) 102 = 8"
  using memmove_correct [of 101 3 100 "(\<lambda>_. 0)(100 := 7, 101 := 8, 102 := 9)" 102]
  by (simp add: region_iff)

section \<open>Strings\<close>

text \<open>The bytes of a C string before its terminating zero, at most \<open>n\<close> of them.\<close>

fun cstr :: "(nat \<Rightarrow> uchar) \<Rightarrow> nat \<Rightarrow> nat \<Rightarrow> bytes" where
  "cstr p i 0 = []"
| "cstr p i (Suc n) = (if p i = 0 then [] else p i # cstr p (Suc i) n)"

lemma strncmp_loop_zero: "strncmp_loop p q i n = 0 \<longleftrightarrow> cstr p i n = cstr q i n"
proof (induction p q i n rule: strncmp_loop.induct)
  case (2 p q i n)
  then show ?case
    by (cases "p i = 0"; cases "q i = 0") (auto simp: uint_0_iff dest: word_uint_eqI)
qed simp

lemma strncmp_zero: "strncmp p q n = 0 \<longleftrightarrow> cstr p 0 (unat n) = cstr q 0 (unat n)"
  by (simp add: strncmp_def strncmp_loop_zero)

lemma memcmp_loop_zero: "memcmp_loop p q i n = 0 \<longleftrightarrow> (\<forall>j < n. p (i + j) = q (i + j))"
proof (induction p q i n rule: memcmp_loop.induct)
  case (2 p q i n)
  show ?case
  proof (cases "p i = q i")
    case True
    with 2 show ?thesis
      by (auto simp: less_Suc_eq_0_disj)
  next
    case False
    then have "uint (p i) \<noteq> uint (q i)"
      using word_uint_eqI by blast
    with False show ?thesis
      by (auto intro: exI [of _ 0])
  qed
qed simp

lemma strlen_from_found:
  assumes "p k = 0" and "n \<le> k" and "\<And>j. n \<le> j \<Longrightarrow> j < k \<Longrightarrow> p j \<noteq> 0"
  shows "strlen_from p n = Some k"
  using assms
proof (induction "k - n" arbitrary: n)
  case 0
  then show ?case
    by (subst strlen_from.simps) simp
next
  case (Suc d)
  then have "strlen_from p (Suc n) = Some k"
    by (intro Suc.hyps(1)) auto
  then show ?case
    using Suc.prems Suc.hyps(2) by (subst strlen_from.simps) auto
qed

lemma strlen_found: "p k = 0 \<Longrightarrow> (\<And>j. j < k \<Longrightarrow> p j \<noteq> 0) \<Longrightarrow> strlen p = Some k"
  unfolding strlen_def by (rule strlen_from_found) auto

lemma cstr_shift: "cstr p (Suc i) n = cstr (\<lambda>j. p (Suc j)) i n"
  by (induction n arbitrary: i) auto

lemma cstr_ptr_Suc: "cstr (ptr m t) (Suc i) n = cstr (ptr m (t + 1)) i n"
proof -
  have "(\<lambda>j. ptr m t (Suc j)) = ptr m (t + 1)"
    by (rule ext) (simp add: ptr_def add.assoc)
  then show ?thesis
    by (simp add: cstr_shift)
qed

lemma cstr_cong: "(\<And>j. i \<le> j \<Longrightarrow> j < i + n \<Longrightarrow> p j = q j) \<Longrightarrow> cstr p i n = cstr q i n"
  by (induction n arbitrary: i) auto

lemma cstr_nonzero: "x \<in> set (cstr p i n) \<Longrightarrow> x \<noteq> 0"
  by (induction n arbitrary: i) (auto split: if_splits)

lemma length_cstr: "length (cstr p i n) \<le> n"
  by (induction n arbitrary: i) auto

lemma peek_Suc: "peek m a (Suc n) = m a # peek m (a + 1) n"
  by (rule nth_equalityI) (auto simp: peek_def nth_Cons add.assoc simp del: upt_Suc split: nat.split)

lemma peek_cong: "(\<And>x. x \<in> region a n \<Longrightarrow> m x = m' x) \<Longrightarrow> peek m a n = peek m' a n"
  by (simp add: peek_def region_def)

lemma peek_zeros: "n \<le> 4294967296 \<Longrightarrow> peek (stosb n a c m) a n = replicate n c"
  by (rule nth_equalityI) (simp_all add: stosb_spec in_region)

lemma next_not_in_region: "n < 4294967296 \<Longrightarrow> a \<notin> region (a + 1) n"
  by (simp add: region_iff unat_m1)

lemma cstr_upd:
  assumes "s \<notin> region t n"
  shows "cstr (ptr (m(s := v)) t) 0 n = cstr (ptr m t) 0 n"
  using assms by (intro cstr_cong) (auto simp: ptr_def region_def)

text \<open>What \<^verbatim>\<open>strncpy\<close> leaves in its destination: the string, then zeroes.\<close>

definition pad_name :: "nat \<Rightarrow> bytes \<Rightarrow> bytes" where
  "pad_name n cs = cs @ replicate (n - length cs) 0"

lemma strncpy_loop_spec:
  assumes "n \<le> 2147483647" and "region s n \<inter> region t n = {}"
  shows "peek (strncpy_loop n s t m) s n = pad_name n (cstr (ptr m t) 0 n)
    \<and> (\<forall>x. x \<notin> region s n \<longrightarrow> strncpy_loop n s t m x = m x)"
  using assms
proof (induction n arbitrary: s t m)
  case 0
  then show ?case by (simp add: peek_def pad_name_def)
next
  case (Suc n)
  define m' where "m' = m(s := m t)"
  have dis: "region (s + 1) n \<inter> region (t + 1) n = {}" "s \<notin> region (t + 1) n" "t \<notin> region (s + 1) n" "s \<noteq> t"
    using Suc.prems(2) by auto
  have ns: "s \<notin> region (s + 1) n"
    using Suc.prems(1) by (intro next_not_in_region) simp
  have t0: "ptr m t 0 = m t"
    by (simp add: ptr_def)
  show ?case
  proof (cases "m t = 0")
    case True
    then have "strncpy_loop (Suc n) s t m = stosb n (s + 1) 0 m'"
      by (simp add: m'_def)
    moreover have "stosb n (s + 1) 0 m' x = m x" if "x \<notin> region s (Suc n)" for x
      using that Suc.prems(1) by (simp add: stosb_spec m'_def)
    moreover have "stosb n (s + 1) 0 m' s = 0"
      using True ns Suc.prems(1) by (simp add: stosb_spec m'_def)
    ultimately show ?thesis
      using True Suc.prems(1) t0 peek_zeros [of n "s + 1" 0 m']
      by (simp add: peek_Suc pad_name_def del: strncpy_loop.simps region_simps)
  next
    case False
    then have eq: "strncpy_loop (Suc n) s t m = strncpy_loop n (s + 1) (t + 1) m'"
      by (simp add: m'_def)
    have IH: "peek (strncpy_loop n (s + 1) (t + 1) m') (s + 1) n = pad_name n (cstr (ptr m (t + 1)) 0 n)"
      "\<And>x. x \<notin> region (s + 1) n \<Longrightarrow> strncpy_loop n (s + 1) (t + 1) m' x = m' x"
      using Suc.IH [of "s + 1" "t + 1" m'] Suc.prems(1) dis(1) cstr_upd [OF dis(2), of m "m t"] unfolding m'_def [symmetric]
      by (simp_all del: region_simps)
    moreover have "strncpy_loop n (s + 1) (t + 1) m' x = m x" if "x \<notin> region s (Suc n)" for x
      using that IH(2) [of x] by (auto simp: m'_def)
    moreover have "cstr (ptr m t) 0 (Suc n) = m t # cstr (ptr m (t + 1)) 0 n"
      using False t0 by (simp add: cstr_ptr_Suc)
    ultimately show ?thesis
      using IH(1) IH(2) [OF ns] m'_def eq by (simp add: peek_Suc [of _ s] pad_name_def del: strncpy_loop.simps region_simps cstr.simps)
  qed
qed

lemma safestrcpy_loop_spec:
  assumes "n \<le> 2147483647" and "region s (Suc n) \<inter> region t n = {}"
  shows "peek (safestrcpy_loop n s t m) s (Suc (length (cstr (ptr m t) 0 n))) = cstr (ptr m t) 0 n @ [0]
    \<and> (\<forall>x. x \<notin> region s (Suc n) \<longrightarrow> safestrcpy_loop n s t m x = m x)"
  using assms
proof (induction n arbitrary: s t m)
  case 0
  then show ?case by (simp add: peek_def)
next
  case (Suc n)
  define m' where "m' = m(s := m t)"
  have dis: "region (s + 1) (Suc n) \<inter> region (t + 1) n = {}" "s \<notin> region (t + 1) n"
    using Suc.prems(2) by auto
  have ns: "s \<notin> region (s + 1) (Suc n)"
    using Suc.prems(1) by (intro next_not_in_region) simp
  have t0: "ptr m t 0 = m t"
    by (simp add: ptr_def)
  show ?case
  proof (cases "m t = 0")
    case True
    then show ?thesis
      using t0 ns by (auto simp: peek_def)
  next
    case False
    have IH: "peek (safestrcpy_loop n (s + 1) (t + 1) m') (s + 1) (Suc (length (cstr (ptr m (t + 1)) 0 n)))
        = cstr (ptr m (t + 1)) 0 n @ [0]"
      "\<And>x. x \<notin> region (s + 1) (Suc n) \<Longrightarrow> safestrcpy_loop n (s + 1) (t + 1) m' x = m' x"
      using Suc.IH [of "s + 1" "t + 1" m'] Suc.prems(1) dis(1) cstr_upd [OF dis(2), of m "m t"] unfolding m'_def [symmetric]
      by (simp_all del: region_simps)
    have eq: "safestrcpy_loop (Suc n) s t m = safestrcpy_loop n (s + 1) (t + 1) m'"
      using False by (simp add: m'_def)
    moreover have "safestrcpy_loop n (s + 1) (t + 1) m' x = m x" if "x \<notin> region s (Suc (Suc n))" for x
      using that IH(2) [of x] by (auto simp: m'_def)
    moreover have "cstr (ptr m t) 0 (Suc n) = m t # cstr (ptr m (t + 1)) 0 n"
      using False t0 by (simp add: cstr_ptr_Suc)
    ultimately show ?thesis
      using IH(1) IH(2) [OF ns] m'_def by (simp add: peek_Suc [of _ s] del: safestrcpy_loop.simps region_simps cstr.simps)
  qed
qed

text \<open>
  C25: \<^verbatim>\<open>safestrcpy\<close> always terminates its result. If the source and the \<open>n\<close> bytes of
  destination do not overlap, the destination then holds the source string cut to
  \<open>n - 1\<close> characters, followed by a zero, and no byte outside the destination changes.
\<close>

theorem safestrcpy_terminates_string:
  assumes "0 < n" and "n \<le> 2147483647" and "region s (nat n) \<inter> region t (nat n - 1) = {}"
  shows "peek (safestrcpy s t n m) s (Suc (length (cstr (ptr m t) 0 (nat n - 1)))) = cstr (ptr m t) 0 (nat n - 1) @ [0]
    \<and> (\<forall>x. x \<notin> region s (nat n) \<longrightarrow> safestrcpy s t n m x = m x)"
proof -
  obtain k where k: "nat n = Suc k"
    using assms(1) by (cases "nat n") auto
  then have "nat (n - 1) = k" "nat n - 1 = k"
    by auto
  then show ?thesis
    using safestrcpy_loop_spec [of k s t m] assms k unfolding safestrcpy_def by auto
qed

theorem safestrcpy_terminates_string_witness:
  "peek (safestrcpy 0 100 2 (\<lambda>_. 65)) 0 (Suc (Suc 0)) = [65, 0]"
proof -
  have "region 0 2 \<inter> region 100 1 = {}"
    by (auto simp: region_iff)
  then show ?thesis
    using safestrcpy_terminates_string [of 2 0 100 "\<lambda>_. 65"] by (simp add: ptr_def)
qed

end
