(* ===== verification/Ulib.thy ===== *)
theory Ulib
  imports Memory
begin

text \<open>
  The user library \<^verbatim>\<open>ulib.c\<close>. Strings are read through the function from offsets to
  bytes that a pointer gives, as in the kernel's string routines; the loops that run to a
  terminating zero are partial functions, and the lemmas show that they return on terminated
  strings. The input that \<^verbatim>\<open>gets\<close> reads with \<^verbatim>\<open>read(0, &c, 1)\<close> is the list
  of bytes still to come: its end is the result 0 of \<^verbatim>\<open>read\<close>.
\<close>

section \<open>The routines\<close>

partial_function (option) strcpy :: "uint \<Rightarrow> uint \<Rightarrow> mem \<Rightarrow> mem option" where
  "strcpy s t m = (let m' = m(s := m t) in if m t \<noteq> 0 then strcpy (s + 1) (t + 1) m' else Some m')"

partial_function (option) strcmp_from :: "(nat \<Rightarrow> uchar) \<Rightarrow> (nat \<Rightarrow> uchar) \<Rightarrow> nat \<Rightarrow> int option" where
  "strcmp_from p q i =
     (if p i \<noteq> 0 \<and> p i = q i then strcmp_from p q (Suc i) else Some (uint (p i) - uint (q i)))"

definition strcmp :: "(nat \<Rightarrow> uchar) \<Rightarrow> (nat \<Rightarrow> uchar) \<Rightarrow> int option" where
  "strcmp p q = strcmp_from p q 0"

partial_function (option) u_strlen_from :: "(nat \<Rightarrow> uchar) \<Rightarrow> nat \<Rightarrow> nat option" where
  "u_strlen_from s n = (if s n \<noteq> 0 then u_strlen_from s (Suc n) else Some n)"

definition u_strlen :: "(nat \<Rightarrow> uchar) \<Rightarrow> nat option" where
  "u_strlen s = u_strlen_from s 0"

definition u_memset :: "uint \<Rightarrow> uint \<Rightarrow> uint \<Rightarrow> mem \<Rightarrow> mem" where
  "u_memset dst c n m = stosb (unat n) dst (ucast c) m"

text \<open>The pointer \<^verbatim>\<open>strchr\<close> returns is the offset, or \<open>None\<close> for a null pointer.\<close>

partial_function (option) strchr_from :: "(nat \<Rightarrow> uchar) \<Rightarrow> uchar \<Rightarrow> nat \<Rightarrow> nat option option" where
  "strchr_from s c i =
     (if s i \<noteq> 0 then if s i = c then Some (Some i) else strchr_from s c (Suc i) else Some None)"

definition strchr :: "(nat \<Rightarrow> uchar) \<Rightarrow> uchar \<Rightarrow> nat option option" where
  "strchr s c = strchr_from s c 0"

text \<open>\<open>i\<close> is the index of the next byte of \<open>buf\<close>, \<open>inp\<close> the input left.\<close>

function gets_loop :: "uint \<Rightarrow> int \<Rightarrow> nat \<Rightarrow> bytes \<Rightarrow> mem \<Rightarrow> nat \<times> bytes \<times> mem" where
  "gets_loop buf mx i inp m =
     (if int i + 1 < mx
      then case inp of
             [] \<Rightarrow> (i, [], m)
           | c # inp' \<Rightarrow>
               let m' = m(buf + of_nat i := c)
               in if c = 10 \<or> c = 13 then (Suc i, inp', m') else gets_loop buf mx (Suc i) inp' m'
      else (i, inp, m))"
  by pat_completeness auto
termination
  by (relation "measure (\<lambda>(buf, mx, i, inp, m). length inp)") auto

declare gets_loop.simps [simp del]

definition gets :: "uint \<Rightarrow> int \<Rightarrow> bytes \<Rightarrow> mem \<Rightarrow> bytes \<times> mem" where
  "gets buf mx inp m =
     (let (i, rest, m') = gets_loop buf mx 0 inp m in (rest, m'(buf + of_nat i := 0)))"

partial_function (option) atoi_from :: "(nat \<Rightarrow> uchar) \<Rightarrow> nat \<Rightarrow> uint \<Rightarrow> uint option" where
  "atoi_from s i n =
     (if 48 \<le> s i \<and> s i \<le> 57 then atoi_from s (Suc i) (n * 10 + ucast (s i) - 48) else Some n)"

definition atoi :: "(nat \<Rightarrow> uchar) \<Rightarrow> uint option" where
  "atoi s = atoi_from s 0 0"

definition u_memmove :: "uint \<Rightarrow> uint \<Rightarrow> int \<Rightarrow> mem \<Rightarrow> mem" where
  "u_memmove vdst vsrc n m = copy_up (nat n) vdst vsrc m"

section \<open>Behaviour on terminated strings\<close>

text \<open>The string at a pointer: \<open>is_str p cs\<close> says the bytes are \<open>cs\<close>, then a zero.\<close>

definition is_str :: "(nat \<Rightarrow> uchar) \<Rightarrow> bytes \<Rightarrow> bool" where
  "is_str p cs \<longleftrightarrow> (\<forall>i < length cs. p i = cs ! i) \<and> p (length cs) = 0 \<and> 0 \<notin> set cs"

lemma is_str_Cons: "is_str p (c # cs) \<longleftrightarrow> p 0 = c \<and> c \<noteq> 0 \<and> is_str (\<lambda>i. p (Suc i)) cs"
proof -
  have "(\<forall>i < length (c # cs). p i = (c # cs) ! i) \<longleftrightarrow> p 0 = c \<and> (\<forall>i < length cs. p (Suc i) = cs ! i)"
    by (simp add: All_less_Suc2)
  then show ?thesis
    by (auto simp: is_str_def)
qed

lemma is_str_Nil: "is_str p [] \<longleftrightarrow> p 0 = 0"
  by (simp add: is_str_def)

lemma is_str_nonzero: "is_str p cs \<Longrightarrow> i < length cs \<Longrightarrow> p i \<noteq> 0"
  by (metis is_str_def nth_mem)

lemma is_str_unique: "is_str p cs \<Longrightarrow> is_str p ds \<Longrightarrow> cs = ds"
proof (induction cs arbitrary: p ds)
  case Nil
  then show ?case by (cases ds) (auto simp: is_str_Cons is_str_Nil)
next
  case (Cons c cs)
  then show ?case by (cases ds) (auto simp: is_str_Cons is_str_Nil)
qed

lemma u_strlen_from_str: "is_str p cs \<Longrightarrow> i \<le> length cs \<Longrightarrow> u_strlen_from p i = Some (length cs)"
proof (induction "length cs - i" arbitrary: i)
  case 0
  then show ?case by (subst u_strlen_from.simps) (simp add: is_str_def)
next
  case (Suc k)
  then have "u_strlen_from p (Suc i) = Some (length cs)"
    by simp
  then show ?case
    using Suc is_str_nonzero [OF Suc.prems(1), of i] by (subst u_strlen_from.simps) simp
qed

lemma u_strlen_str: "is_str p cs \<Longrightarrow> u_strlen p = Some (length cs)"
  by (simp add: u_strlen_def u_strlen_from_str)

text \<open>The lexicographic order that \<^verbatim>\<open>strcmp\<close> decides.\<close>

fun str_diff :: "bytes \<Rightarrow> bytes \<Rightarrow> int" where
  "str_diff [] [] = 0"
| "str_diff (a # as) [] = uint a"
| "str_diff [] (b # bs) = - uint b"
| "str_diff (a # as) (b # bs) = (if a = b then str_diff as bs else uint a - uint b)"

lemma strcmp_from_str:
  "is_str (\<lambda>j. p (i + j)) as \<Longrightarrow> is_str (\<lambda>j. q (i + j)) bs \<Longrightarrow> strcmp_from p q i = Some (str_diff as bs)"
proof (induction as bs arbitrary: i rule: str_diff.induct)
  case (4 a as b bs)
  then show ?case
    using "4.IH" [of "Suc i"] by (subst strcmp_from.simps) (auto simp: is_str_Cons)
qed (subst strcmp_from.simps, auto simp: is_str_Cons is_str_Nil)+

lemma strcmp_str: "is_str p as \<Longrightarrow> is_str q bs \<Longrightarrow> strcmp p q = Some (str_diff as bs)"
  unfolding strcmp_def using strcmp_from_str [of p 0 as q bs] by simp

lemma str_diff_zero: "0 \<notin> set as \<Longrightarrow> 0 \<notin> set bs \<Longrightarrow> str_diff as bs = 0 \<longleftrightarrow> as = bs"
  by (induction as bs rule: str_diff.induct) (auto simp: unsigned_eq_0_iff dest: unsigned_word_eqI)

text \<open>The first occurrence in a list.\<close>

primrec first_index :: "bytes \<Rightarrow> uchar \<Rightarrow> nat option" where
  "first_index [] c = None"
| "first_index (x # xs) c = (if x = c then Some 0 else map_option Suc (first_index xs c))"

lemma strchr_from_str:
  "is_str (\<lambda>j. p (i + j)) cs \<Longrightarrow> strchr_from p c i = Some (map_option ((+) i) (first_index cs c))"
proof (induction cs arbitrary: i)
  case Nil
  then show ?case by (subst strchr_from.simps) (simp add: is_str_Nil)
next
  case (Cons x cs)
  have "strchr_from p c (Suc i) = Some (map_option (\<lambda>a. Suc (i + a)) (first_index cs c))"
    using Cons.IH [of "Suc i"] Cons.prems by (simp add: is_str_Cons)
  then show ?case
    using Cons.prems by (subst strchr_from.simps) (cases "first_index cs c"; simp add: is_str_Cons)
qed

lemma strchr_str: "is_str p cs \<Longrightarrow> strchr p c = Some (first_index cs c)"
  unfolding strchr_def using strchr_from_str [of p 0 cs c] by (cases "first_index cs c") simp_all

text \<open>\<^verbatim>\<open>atoi\<close> of a decimal numeral, with the digits as numbers.\<close>

lemma atoi_from_digits:
  assumes "\<forall>d \<in> set ds. d < 10" and "is_str (\<lambda>j. p (i + j)) (map (\<lambda>d. 48 + of_nat d) ds)"
  shows "atoi_from p i n = Some (foldl (\<lambda>n d. n * 10 + of_nat d) n ds)"
  using assms
proof (induction ds arbitrary: i n)
  case Nil
  then show ?case by (subst atoi_from.simps) (simp add: is_str_Nil)
next
  case (Cons d ds)
  have d: "d < 10"
    using Cons.prems(1) by simp
  have pi: "p i = 48 + of_nat d"
    using Cons.prems(2) by (simp add: is_str_Cons)
  have u: "unat (p i) = 48 + d"
    using d by (simp add: pi unat_word_ariths unat_of_nat)
  have le: "48 \<le> p i \<and> p i \<le> 57"
    using d by (simp add: word_le_nat_alt u)
  have uc: "ucast (p i) = (48 + of_nat d :: uint)"
  proof -
    have "ucast (p i) = (of_nat (unat (p i)) :: uint)"
      by (simp add: of_nat_unat)
    then show ?thesis
      unfolding u by simp
  qed
  have "atoi_from p (Suc i) (n * 10 + of_nat d) = Some (foldl (\<lambda>n d. n * 10 + of_nat d) (n * 10 + of_nat d) ds)"
    using Cons by (simp add: is_str_Cons)
  then show ?case
    using le by (subst atoi_from.simps) (simp add: uc)
qed

section \<open>Reading a line\<close>

text \<open>The line that fits: at most \<open>n\<close> bytes, up to and including the first line end.\<close>

fun line_prefix :: "nat \<Rightarrow> bytes \<Rightarrow> bytes" where
  "line_prefix 0 inp = []"
| "line_prefix (Suc n) [] = []"
| "line_prefix (Suc n) (c # inp) = (if c = 10 \<or> c = 13 then [c] else c # line_prefix n inp)"

lemma length_line_prefix: "length (line_prefix n inp) \<le> n"
  by (induction n inp rule: line_prefix.induct) auto

lemma line_prefix_prefix: "line_prefix n inp @ drop (length (line_prefix n inp)) inp = inp"
  by (induction n inp rule: line_prefix.induct) auto

lemma line_prefix_butlast: "x \<in> set (butlast (line_prefix n inp)) \<Longrightarrow> x \<noteq> 10 \<and> x \<noteq> 13"
  by (induction n inp rule: line_prefix.induct) (auto split: if_splits)

lemma addr_offset: "i < 4294967296 \<Longrightarrow> (a :: uint) = buf + of_nat i \<longleftrightarrow> unat (a - buf) = i"
  by auto

lemma gets_loop_spec:
  assumes "k + i = nat (mx - 1)" and "nat mx < 4294967296"
  shows "gets_loop buf mx i inp m =
    (i + length (line_prefix k inp), drop (length (line_prefix k inp)) inp,
     \<lambda>a. if i \<le> unat (a - buf) \<and> unat (a - buf) < i + length (line_prefix k inp)
         then line_prefix k inp ! (unat (a - buf) - i) else m a)"
  using assms(1)
proof (induction k inp arbitrary: i m rule: line_prefix.induct)
  case (1 inp)
  then show ?case
    by (subst gets_loop.simps) (auto simp: fun_eq_iff)
next
  case (2 n)
  then show ?case
    by (subst gets_loop.simps) (auto simp: fun_eq_iff)
next
  case (3 n c inp)
  have "i < 4294967296"
    using "3.prems" assms(2) by linarith
  then have off: "a = buf + of_nat i \<longleftrightarrow> unat (a - buf) = i" for a
    by (rule addr_offset)
  have run: "gets_loop buf mx i (c # inp) m =
     (if c = 10 \<or> c = 13 then (Suc i, inp, m(buf + of_nat i := c))
      else gets_loop buf mx (Suc i) inp (m(buf + of_nat i := c)))"
    using "3.prems" by (subst gets_loop.simps) (auto simp: Let_def)
  show ?case
  proof (cases "c = 10 \<or> c = 13")
    case True
    then show ?thesis
      by (auto simp: run off fun_eq_iff)
  next
    case False
    have IH: "gets_loop buf mx (Suc i) inp (m(buf + of_nat i := c)) =
      (Suc i + length (line_prefix n inp), drop (length (line_prefix n inp)) inp,
       \<lambda>a. if Suc i \<le> unat (a - buf) \<and> unat (a - buf) < Suc i + length (line_prefix n inp)
           then line_prefix n inp ! (unat (a - buf) - Suc i) else (m(buf + of_nat i := c)) a)"
      using "3.IH" [OF False, of "Suc i"] "3.prems" by simp
    show ?thesis
      using False by (auto simp: run IH off fun_eq_iff nth_Cons' Suc_diff_le Suc_le_eq)
  qed
qed

text \<open>
  C35: \<^verbatim>\<open>gets\<close> reads one line and never writes past its buffer. For a buffer of
  \<open>mx\<close> bytes it consumes the input up to and including the first line end, at most
  \<open>mx - 1\<close> bytes, stores exactly those bytes and a terminating zero, and leaves the rest
  of memory and of the input alone.
\<close>

theorem gets_reads_line:
  assumes "1 \<le> mx" and "nat mx < 4294967296" and "gets buf mx inp m = (rest, m')"
    and "cs = line_prefix (nat (mx - 1)) inp"
  shows "inp = cs @ rest \<and> length cs < nat mx \<and> peek m' buf (length cs + 1) = cs @ [0]
    \<and> (\<forall>a. a \<notin> region buf (nat mx) \<longrightarrow> m' a = m a)"
proof -
  let ?n = "nat (mx - 1)"
  have len: "length cs \<le> ?n"
    by (simp add: assms(4) length_line_prefix)
  have lt: "length cs < nat mx"
    using len assms(1) by linarith
  have run: "gets buf mx inp m = (drop (length cs) inp,
      (\<lambda>a. if unat (a - buf) < length cs then cs ! unat (a - buf) else m a)(buf + of_nat (length cs) := 0))"
    using gets_loop_spec [of ?n 0 mx buf inp m] assms(2) by (simp add: gets_def assms(4) cong: if_cong)
  have rest: "rest = drop (length cs) inp"
    and m': "m' = (\<lambda>a. if unat (a - buf) < length cs then cs ! unat (a - buf) else m a)(buf + of_nat (length cs) := 0)"
    using run assms(3) by simp_all
  have "peek m' buf (length cs + 1) = cs @ [0]"
    using lt assms(2) by (intro nth_equalityI) (auto simp: m' nth_append of_nat_uint_eq less_Suc_eq)
  moreover have "m' a = m a" if "a \<notin> region buf (nat mx)" for a
  proof -
    have "\<not> unat (a - buf) < nat mx"
      using that region_iff [of "nat mx" a buf] assms(2) by simp
    moreover have "a \<noteq> buf + of_nat (length cs)"
      using that in_region [OF lt] by metis
    ultimately show ?thesis
      using lt by (simp add: m')
  qed
  ultimately show ?thesis
    using line_prefix_prefix [of ?n inp] lt by (auto simp: rest assms(4))
qed

theorem gets_reads_line_witness:
  "\<exists>rest m'. gets 100 3 [104, 105, 10] (\<lambda>a. 7) = (rest, m') \<and> rest = [10]
    \<and> peek m' 100 3 = [104, 105, 0] \<and> m' 103 = 7"
proof -
  obtain rest m' where g: "gets 100 3 [104, 105, 10] (\<lambda>a. 7) = (rest, m')"
    by fastforce
  have n: "nat (3 - 1) = Suc (Suc 0)"
    by simp
  have l: "[104, 105] = line_prefix (nat (3 - 1)) [104, 105, 10]"
    unfolding n by simp
  have "(103 :: uint) \<notin> region 100 (nat 3)"
    by (simp add: region_iff)
  then show ?thesis
    using gets_reads_line [OF _ _ g l] g by (auto simp: numeral_3_eq_3)
qed

end
