(* ===== verification/Format.thy ===== *)
theory Format
  imports Ulib
begin

text \<open>
  Formatted output: \<^verbatim>\<open>printint\<close> and \<^verbatim>\<open>cprintf\<close> of \<^verbatim>\<open>console.c\<close>,
  and \<^verbatim>\<open>printint\<close> and \<^verbatim>\<open>printf\<close> of \<^verbatim>\<open>printf.c\<close>, as the characters they
  put. A format is the list of its characters before the terminating zero; the arguments are the
  words on the caller's stack, and reading more of them than there are is a \<open>Fault\<close>.
\<close>

section \<open>Numbers\<close>

definition digits_lower :: bytes where
  "digits_lower = [48, 49, 50, 51, 52, 53, 54, 55, 56, 57, 97, 98, 99, 100, 101, 102]"

definition digits_upper :: bytes where
  "digits_upper = [48, 49, 50, 51, 52, 53, 54, 55, 56, 57, 65, 66, 67, 68, 69, 70]"

text \<open>
  The \<^verbatim>\<open>do\<close> loop of \<^verbatim>\<open>printint\<close>: the digits, least significant first. The base is
  10 or 16 in every call; the test for a base below 2 only makes the recursion end.
\<close>

function digit_loop :: "bytes \<Rightarrow> nat \<Rightarrow> uint \<Rightarrow> bytes" where
  "digit_loop digits base x =
     digits ! (unat x mod base) #
       (if unat x div base = 0 \<or> base < 2 then [] else digit_loop digits base (of_nat (unat x div base)))"
  by pat_completeness auto
termination
proof (relation "measure (\<lambda>(digits, base, x). unat x)", simp)
  fix base :: nat and x :: uint and digits :: bytes
  assume a: "\<not> (unat x div base = 0 \<or> base < 2)"
  have "unat x div base < unat x"
    using a by (intro div_less_dividend) (auto simp: div_eq_0_iff)
  moreover from this have "unat x div base < 4294967296"
    using unat_uint_lt [of x] by linarith
  ultimately show "((digits, base, of_nat (unat x div base)), digits, base, x) \<in> measure (\<lambda>(digits, base, x). unat x)"
    by simp
qed

declare digit_loop.simps [simp del]

text \<open>\<open>printint\<close> for a digit table: the content of \<^verbatim>\<open>buf\<close>, put in reverse.\<close>

definition printint :: "bytes \<Rightarrow> uint \<Rightarrow> nat \<Rightarrow> bool \<Rightarrow> bytes" where
  "printint digits xx base sign =
     (let neg = (sign \<and> sint xx < 0);
          x = (if neg then - xx else xx);
          buf = digit_loop digits base x @ (if neg then [45] else [])
      in rev buf)"

section \<open>Formats\<close>

definition null_text :: bytes where
  "null_text = [40, 110, 117, 108, 108, 41]"

text \<open>The characters of a \<^verbatim>\<open>%s\<close> argument.\<close>

definition put_str :: "mem \<Rightarrow> uint \<Rightarrow> bytes res" where
  "put_str m s =
     (if s = 0 then Inr null_text
      else case strlen (ptr m s) of None \<Rightarrow> Inl Diverge | Some n \<Rightarrow> Inr (peek m s n))"

text \<open>Output \<open>cs\<close>, then what the rest of the loop puts.\<close>

definition emit :: "bytes \<Rightarrow> bytes res \<Rightarrow> bytes res" where
  "emit cs r = rbind r (\<lambda>out. Inr (cs @ out))"

fun cprintf_loop :: "bytes \<Rightarrow> mem \<Rightarrow> bytes \<Rightarrow> uint list \<Rightarrow> bytes res" where
  "cprintf_loop digits m [] argp = Inr []"
| "cprintf_loop digits m (c # fmt) argp =
     (if c \<noteq> 37 then emit [c] (cprintf_loop digits m fmt argp)
      else case fmt of
          [] \<Rightarrow> Inr []
        | c # fmt \<Rightarrow>
            if c = 100
            then (case argp of
                [] \<Rightarrow> Inl Fault
              | a # argp \<Rightarrow> emit (printint digits a 10 True) (cprintf_loop digits m fmt argp))
            else if c = 120 \<or> c = 112
            then (case argp of
                [] \<Rightarrow> Inl Fault
              | a # argp \<Rightarrow> emit (printint digits a 16 False) (cprintf_loop digits m fmt argp))
            else if c = 115
            then (case argp of
                [] \<Rightarrow> Inl Fault
              | s # argp \<Rightarrow> rbind (put_str m s) (\<lambda>cs. emit cs (cprintf_loop digits m fmt argp)))
            else if c = 37 then emit [37] (cprintf_loop digits m fmt argp)
            else emit [37, c] (cprintf_loop digits m fmt argp))"

definition cprintf_out :: "mem \<Rightarrow> bytes \<Rightarrow> uint list \<Rightarrow> bytes res" where
  "cprintf_out m fmt argp = cprintf_loop digits_lower m fmt argp"

text \<open>The user library's version keeps a state instead: \<open>state\<close> is set after a percent sign.\<close>

fun printf_loop :: "bytes \<Rightarrow> mem \<Rightarrow> bool \<Rightarrow> bytes \<Rightarrow> uint list \<Rightarrow> bytes res" where
  "printf_loop digits m state [] ap = Inr []"
| "printf_loop digits m state (c # fmt) ap =
     (if \<not> state
      then if c = 37 then printf_loop digits m True fmt ap
           else emit [c] (printf_loop digits m False fmt ap)
      else if c = 100
      then (case ap of
          [] \<Rightarrow> Inl Fault
        | a # ap \<Rightarrow> emit (printint digits a 10 True) (printf_loop digits m False fmt ap))
      else if c = 120 \<or> c = 112
      then (case ap of
          [] \<Rightarrow> Inl Fault
        | a # ap \<Rightarrow> emit (printint digits a 16 False) (printf_loop digits m False fmt ap))
      else if c = 115
      then (case ap of
          [] \<Rightarrow> Inl Fault
        | s # ap \<Rightarrow> rbind (put_str m s) (\<lambda>cs. emit cs (printf_loop digits m False fmt ap)))
      else if c = 99
      then (case ap of
          [] \<Rightarrow> Inl Fault
        | a # ap \<Rightarrow> emit [ucast a] (printf_loop digits m False fmt ap))
      else if c = 37 then emit [37] (printf_loop digits m False fmt ap)
      else emit [37, c] (printf_loop digits m False fmt ap))"

definition printf_out :: "mem \<Rightarrow> bytes \<Rightarrow> uint list \<Rightarrow> bytes res" where
  "printf_out m fmt ap = printf_loop digits_upper m False fmt ap"

text \<open>The characters that follow percent signs in a format.\<close>

fun conversions :: "bytes \<Rightarrow> bytes" where
  "conversions [] = []"
| "conversions (c # fmt) =
     (if c \<noteq> 37 then conversions fmt else case fmt of [] \<Rightarrow> [] | d # fmt \<Rightarrow> d # conversions fmt)"



section \<open>Printed numbers\<close>

text \<open>The digits of a number as numbers, least significant first, and their value.\<close>

function digits_of :: "nat \<Rightarrow> nat \<Rightarrow> nat list" where
  "digits_of base n = n mod base # (if n div base = 0 \<or> base < 2 then [] else digits_of base (n div base))"
  by pat_completeness auto
termination
  by (relation "measure snd") (auto intro!: div_less_dividend intro: gr0I)

declare digits_of.simps [simp del]

definition digits_value :: "nat \<Rightarrow> nat list \<Rightarrow> nat" where
  "digits_value base ds = foldr (\<lambda>d v. d + base * v) ds 0"

lemma digits_value_Cons: "digits_value base (d # ds) = d + base * digits_value base ds"
  by (simp add: digits_value_def)

lemma digits_of_value: "2 \<le> base \<Longrightarrow> digits_value base (digits_of base n) = n"
proof (induction base n rule: digits_of.induct)
  case (1 base n)
  show ?case
  proof (cases "n div base = 0")
    case True
    then have "digits_of base n = [n]"
      using "1.prems" by (subst digits_of.simps) (auto simp: div_eq_0_iff)
    then show ?thesis
      by (simp add: digits_value_def)
  next
    case False
    then have "digits_of base n = n mod base # digits_of base (n div base)"
      using "1.prems" by (subst digits_of.simps) simp
    moreover have "digits_value base (digits_of base (n div base)) = n div base"
      using "1.IH" "1.prems" False by simp
    ultimately show ?thesis
      by (simp add: digits_value_Cons)
  qed
qed
lemma digits_of_less: "2 \<le> base \<Longrightarrow> d \<in> set (digits_of base n) \<Longrightarrow> d < base"
proof (induction base n rule: digits_of.induct)
  case (1 base n)
  have "d \<in> set (n mod base # (if n div base = 0 \<or> base < 2 then [] else digits_of base (n div base)))"
    using "1.prems"(2) by (subst (asm) digits_of.simps)
  then show ?case
    using "1.IH" "1.prems"(1) by (auto split: if_splits)
qed

lemma length_digits_of: "2 \<le> base \<Longrightarrow> n < base ^ Suc k \<Longrightarrow> length (digits_of base n) \<le> Suc k"
proof (induction k arbitrary: n)
  case 0
  then show ?case
    by (subst digits_of.simps) simp
next
  case (Suc k)
  have "n div base < base ^ Suc k"
    using Suc.prems by (simp add: less_mult_imp_div_less mult.commute)
  then have "length (digits_of base (n div base)) \<le> Suc k"
    by (rule Suc.IH [OF Suc.prems(1)])
  then show ?case
    by (subst digits_of.simps) simp
qed

lemma digit_loop_eq: "digit_loop digits base x = map ((!) digits) (digits_of base (unat x))"
proof (induction digits base x rule: digit_loop.induct)
  case (1 digits base x)
  have "unat x div base < 4294967296"
    using unat_uint_lt [of x] div_le_dividend [of "unat x" base] by linarith
  then show ?case
    using 1 by (subst digit_loop.simps, subst digits_of.simps) simp
qed

lemma foldl_value: "foldl (\<lambda>n d. n * 10 + of_nat d) n (rev ds) = (n * 10 ^ length ds + of_nat (digits_value 10 ds) :: uint)"
proof (induction ds)
  case Nil
  then show ?case
    by (simp add: digits_value_def)
next
  case (Cons d ds)
  then show ?case
    by (simp add: digits_value_Cons algebra_simps)
qed

lemma decimal_digit:
  assumes "d < 10"
  shows "digits_lower ! d = 48 + of_nat d" and "digits_upper ! d = 48 + of_nat d"
proof -
  have "d \<in> {0, 1, 2, 3, 4, 5, 6, 7, 8, 9}"
    using assms by auto
  then show "digits_lower ! d = 48 + of_nat d" "digits_upper ! d = 48 + of_nat d"
    by (auto simp: digits_lower_def digits_upper_def)
qed

text \<open>
  C29: numbers survive printing. What \<^verbatim>\<open>printint\<close> prints for a number in decimal, in the
  kernel and in the user library, \<^verbatim>\<open>atoi\<close> reads back: for an unsigned conversion or a
  number that is not negative the result is the number; for a negative number the text is a minus sign
  and the magnitude, also for the least integer. No number in base 10 or 16 needs more than 11 of the
  16 characters of \<^verbatim>\<open>buf\<close>.
\<close>

theorem printint_atoi:
  assumes "digits = digits_lower \<or> digits = digits_upper" and "base = 10 \<or> base = 16"
  shows "length (printint digits xx base sign) \<le> 11
    \<and> (\<exists>cs. printint digits xx 10 sign = (if sign \<and> sint xx < 0 then 45 # cs else cs)
        \<and> (\<forall>p. is_str p cs \<longrightarrow> atoi p = Some (if sign \<and> sint xx < 0 then - xx else xx)))"
proof -
  define x where "x = (if sign \<and> sint xx < 0 then - xx else xx)"
  define ds where "ds = digits_of 10 (unat x)"
  define cs where "cs = rev (map ((!) digits) ds)"
  have len: "length (digits_of base (unat x)) \<le> 10"
  proof -
    have "(4294967296 :: nat) \<le> 10 ^ Suc 9" "(4294967296 :: nat) \<le> 16 ^ Suc 7"
      by simp_all
    then have "unat x < 10 ^ Suc 9" "unat x < 16 ^ Suc 7"
      using unat_uint_lt [of x] by linarith+
    then show ?thesis
      using length_digits_of [of 10 "unat x" 9] length_digits_of [of 16 "unat x" 7] assms(2) by auto
  qed
  have pr: "printint digits xx 10 sign = (if sign \<and> sint xx < 0 then 45 # cs else cs)"
    by (simp add: printint_def digit_loop_eq cs_def ds_def x_def Let_def)
  have small: "\<forall>d \<in> set (rev ds). d < 10"
    using digits_of_less [of 10 _ "unat x"] by (simp add: ds_def)
  have csd: "cs = map (\<lambda>d. 48 + of_nat d) (rev ds)"
    using small assms(1) decimal_digit by (auto simp: cs_def rev_map)
  have "atoi p = Some x" if "is_str p cs" for p
  proof -
    have "atoi p = Some (foldl (\<lambda>n d. n * 10 + of_nat d) 0 (rev ds))"
      unfolding atoi_def using atoi_from_digits [OF small, of p 0 0] that by (simp add: csd)
    also have "\<dots> = Some x"
      unfolding foldl_value ds_def digits_of_value [of 10, simplified] by simp
    finally show ?thesis .
  qed
  moreover have "length (printint digits xx base sign) \<le> 11"
    using len by (simp add: printint_def digit_loop_eq x_def [symmetric] Let_def)
  ultimately show ?thesis
    using pr unfolding x_def by blast
qed

theorem printint_atoi_witness:
  "printint digits_lower (- 120) 10 True = [45, 49, 50, 48]
    \<and> length (printint digits_lower (- 120) 10 True) \<le> 11"
proof
  have d: "digits_of 10 120 = [0, 2, 1]"
    by (simp add: digits_of.simps)
  show "printint digits_lower (- 120) 10 True = [45, 49, 50, 48]"
    by (simp add: printint_def digit_loop_eq d digits_lower_def)
  show "length (printint digits_lower (- 120) 10 True) \<le> 11"
    using printint_atoi [of digits_lower 10 "- 120" True] by blast
qed

end
