(* ===== verification/Ring.thy ===== *)
theory Ring
  imports Prelude
begin

text \<open>
  Ring buffers with free-running 32-bit indices, as the pipe and the console input use them:
  the element at index \<open>i\<close> lives in slot \<open>i mod sz\<close>, and the indices themselves wrap
  around at \<open>2 ^ 32\<close>. This is sound because the size divides \<open>2 ^ 32\<close>, which is what
  the locale \<open>ring_buffer\<close> asks for.
\<close>

definition slot :: "nat \<Rightarrow> uint \<Rightarrow> nat" where
  "slot sz i = unat i mod sz"

definition ring_list :: "nat \<Rightarrow> bytes \<Rightarrow> uint \<Rightarrow> uint \<Rightarrow> bytes" where
  "ring_list sz buf r w = map (\<lambda>i. buf ! slot sz (r + of_nat i)) [0..<unat (w - r)]"

lemma length_ring_list [simp]: "length (ring_list sz buf r w) = unat (w - r)"
  by (simp add: ring_list_def)

lemma ring_list_same [simp]: "ring_list sz buf r r = []"
  by (simp add: ring_list_def)

lemma unat_sub_Suc: "r \<noteq> w \<Longrightarrow> unat (w - r) = Suc (unat (w - (r + 1) :: uint))"
proof -
  assume "r \<noteq> w"
  then have "w - r \<noteq> 0"
    by simp
  moreover have e: "w - (r + 1) = (w - r) - 1"
    by (simp add: algebra_simps)
  ultimately show ?thesis
    unfolding e using unat_minus_one [of "w - r"] unat_gt_0 [of "w - r"] by simp
qed

lemma ring_list_Cons:
  "r \<noteq> w \<Longrightarrow> ring_list sz buf r w = buf ! slot sz r # ring_list sz buf (r + 1) w"
  by (rule nth_equalityI)
    (auto simp: ring_list_def unat_sub_Suc nth_Cons add.assoc simp del: upt_Suc split: nat.split)

locale ring_buffer =
  fixes sz :: nat
  assumes sz_pos: "0 < sz" and sz_dvd: "sz dvd 2 ^ 32"
begin

lemma slot_less: "slot sz i < sz"
  using sz_pos by (simp add: slot_def)

lemma slot_add: "slot sz (i + of_nat k) = (unat i + k) mod sz"
proof -
  have "unat (i + of_nat k) = (unat i + k) mod 2 ^ 32"
    by (simp add: unat_word_ariths unat_of_nat mod_add_right_eq)
  then show ?thesis
    using sz_dvd by (simp add: slot_def mod_mod_cancel)
qed

lemma slot_inj:
  assumes "slot sz (r + of_nat i) = slot sz (r + of_nat j)" and "i \<le> j" and "j < i + sz"
  shows "i = j"
proof (rule ccontr)
  assume "i \<noteq> j"
  have "(unat r + j) mod sz = (unat r + i) mod sz"
    using assms(1) unfolding slot_add by simp
  then have "sz dvd (unat r + j) - (unat r + i)"
    using assms(2) by (subst mod_eq_dvd_iff_nat [symmetric]) simp_all
  then have "sz dvd j - i"
    by simp
  then have "sz \<le> j - i"
    using \<open>i \<noteq> j\<close> assms(2) by (intro dvd_imp_le) simp_all
  then show False
    using assms(2,3) by linarith
qed

text \<open>Putting an element, taking the first one, dropping the last one.\<close>

lemma ring_put:
  assumes "length buf = sz" and "unat (w - r) < sz" and "sz < 2 ^ 32"
  shows "ring_list sz (buf[slot sz w := c]) r (w + 1) = ring_list sz buf r w @ [c]"
proof -
  let ?n = "unat (w - r)"
  have n1: "unat (w + 1 - r) = Suc ?n"
  proof -
    have "unat (w - r + 1) = ?n + 1"
      using assms(2,3) unat_plus_small [of "w - r" 1] by simp
    then show ?thesis
      by (simp add: algebra_simps)
  qed
  have w: "w = r + of_nat ?n"
    by simp
  have other: "slot sz (r + of_nat i) \<noteq> slot sz w" if "i < ?n" for i
  proof
    assume "slot sz (r + of_nat i) = slot sz w"
    then have "slot sz (r + of_nat i) = slot sz (r + of_nat ?n)"
      by simp
    then show False
      using slot_inj [of r i ?n] that assms(2) by simp
  qed
  show ?thesis
    using other [symmetric] slot_less assms(1) by (simp add: ring_list_def n1 nth_list_update)
qed

lemma ring_take:
  assumes "r \<noteq> w"
  shows "ring_list sz buf r w = buf ! slot sz r # ring_list sz buf (r + 1) w"
  using assms by (rule ring_list_Cons)

lemma ring_drop_last:
  assumes "r \<noteq> w"
  shows "ring_list sz buf r w = ring_list sz buf r (w - 1) @ [buf ! slot sz (w - 1)]"
proof -
  have "w - r \<noteq> 0"
    using assms by simp
  then have n: "unat (w - r) = Suc (unat (w - 1 - r))"
    using unat_minus_one [of "w - r"] unat_gt_0 [of "w - r"] by (simp add: algebra_simps)
  then show ?thesis
    by (simp add: ring_list_def n)
qed

end

end
