(* ===== verification/Console.thy ===== *)
theory Console
  imports Format Ring
begin

text \<open>
  The console of \<^verbatim>\<open>console.c\<close> with its serial line \<^verbatim>\<open>uart.c\<close>: output to the serial
  port and to the text screen with its cursor and scrolling, the line editor that interrupts run, and
  reading committed lines. The bodies run under \<^verbatim>\<open>cons.lock\<close> and are one step each. The
  serial output is the list of bytes sent so far; the number of calls of
  \<^verbatim>\<open>wakeup(&input.r)\<close> is counted; the screen memory is a function from cells.
\<close>

abbreviation INPUT_BUF :: nat where "INPUT_BUF \<equiv> 128"
abbreviation BACKSPACE :: nat where "BACKSPACE \<equiv> 256"

record console =
  panicked :: bool
  locking :: bool
  uart :: bool
  sent_bytes :: bytes
  crt :: "nat \<Rightarrow> ushort"
  curpos :: ushort
  ibuf :: bytes
  ir :: uint
  iw :: uint
  ie :: uint
  wakes :: nat

definition ascii :: "string \<Rightarrow> bytes" where
  "ascii s = map of_char s"

section \<open>Output\<close>

definition uartputc :: "nat \<Rightarrow> console \<Rightarrow> console" where
  "uartputc c s = (if uart s then s\<lparr>sent_bytes := sent_bytes s @ [of_nat c]\<rparr> else s)"

text \<open>\<open>lsr\<close> is the line status the port gives; 0xFF means there is no port.\<close>

definition uartinit :: "uchar \<Rightarrow> console \<Rightarrow> console" where
  "uartinit lsr s =
     (if lsr = 0xFF then s
      else fold (\<lambda>c. uartputc (unat c)) (ascii ''xv6...'' @ [10]) (s\<lparr>uart := True\<rparr>))"

text \<open>Received bytes are taken one at a time; \<open>None\<close> is the result \<open>-1\<close>.\<close>

definition uartgetc :: "console \<Rightarrow> bytes \<Rightarrow> uchar option \<times> bytes" where
  "uartgetc s received =
     (if \<not> uart s then (None, received)
      else case received of [] \<Rightarrow> (None, []) | c # received \<Rightarrow> (Some c, received))"

definition cgaputc :: "nat \<Rightarrow> console \<Rightarrow> console res" where
  "cgaputc c s =
     (let pos = unat (curpos s);
          (cells, pos) =
            (if c = 10 then (crt s, pos + (80 - pos mod 80))
             else if c = BACKSPACE then (crt s, if pos > 0 then pos - 1 else pos)
             else ((crt s)(pos := (of_nat c AND 0xFF) OR 0x0700), pos + 1))
      in if pos > 25 * 80 then Inl (Panic ''pos under/overflow'')
         else let (cells, pos) =
                (if pos div 80 \<ge> 24
                 then let pos' = pos - 80
                      in (\<lambda>i. if pos' \<le> i \<and> i < 24 * 80 then 0
                              else if i < 23 * 80 then cells (i + 80) else cells i, pos')
                 else (cells, pos))
              in Inr (s\<lparr>crt := cells(pos := 0x0720), curpos := of_nat pos\<rparr>))"

definition consputc :: "nat \<Rightarrow> console \<Rightarrow> console res" where
  "consputc c s =
     (if panicked s then Inl Diverge
      else let s = (if c = BACKSPACE then uartputc 8 (uartputc 32 (uartputc 8 s)) else uartputc c s)
           in cgaputc c s)"

definition putchars :: "bytes \<Rightarrow> console \<Rightarrow> console res" where
  "putchars cs s = for_each (\<lambda>c. consputc (unat c)) cs s"

definition cprintf :: "mem \<Rightarrow> uint \<Rightarrow> uint list \<Rightarrow> console \<Rightarrow> console res" where
  "cprintf m fmt args s =
     (if fmt = 0 then Inl (Panic ''null fmt'')
      else case strlen (ptr m fmt) of
          None \<Rightarrow> Inl Diverge
        | Some n \<Rightarrow> rbind (cprintf_out m (peek m fmt n) args) (\<lambda>cs. putchars cs s))"

text \<open>
  What \<^verbatim>\<open>panic\<close> does to the console before its endless loop: the message and the return
  addresses, then the console freezes. The constant formats it uses are given as characters.
\<close>

definition kpanic :: "mem \<Rightarrow> uint \<Rightarrow> bytes \<Rightarrow> uint list \<Rightarrow> console \<Rightarrow> console res" where
  "kpanic m lapicid msg pcs s =
     (let s = s\<lparr>locking := False\<rparr> in
      rbind (cprintf_out m (ascii ''lapicid %d: panic: '') [lapicid]) (\<lambda>c1.
      rbind (putchars c1 s) (\<lambda>s.
      rbind (cprintf_out m msg []) (\<lambda>c2.
      rbind (putchars c2 s) (\<lambda>s.
      rbind (putchars [10] s) (\<lambda>s.
      rbind (for_each (\<lambda>pc s. rbind (cprintf_out m (ascii '' %p'') [pc]) (\<lambda>cs. putchars cs s)) pcs s) (\<lambda>s.
      Inr (s\<lparr>panicked := True\<rparr>))))))))"

definition consolewrite :: "bytes \<Rightarrow> console \<Rightarrow> (int \<times> console) res" where
  "consolewrite buf s = rbind (putchars buf s) (\<lambda>s. Inr (int (length buf), s))"

text \<open>\<^verbatim>\<open>consoleinit\<close> also enters the console into the device table.\<close>

definition consoleinit :: "console \<Rightarrow> console" where
  "consoleinit s = s\<lparr>locking := True\<rparr>"

section \<open>What output keeps\<close>

lemma uartputc_keeps [simp]:
  "panicked (uartputc c s) = panicked s" "curpos (uartputc c s) = curpos s" "ibuf (uartputc c s) = ibuf s"
  "ir (uartputc c s) = ir s" "iw (uartputc c s) = iw s" "ie (uartputc c s) = ie s"
  "crt (uartputc c s) = crt s" "wakes (uartputc c s) = wakes s"
  by (simp_all add: uartputc_def)

lemma cgaputc_keeps:
  assumes "cgaputc c s = Inr s'"
  shows "panicked s' = panicked s" "ibuf s' = ibuf s" "ir s' = ir s" "iw s' = iw s" "ie s' = ie s"
    "wakes s' = wakes s" "sent_bytes s' = sent_bytes s" "uart s' = uart s"
  using assms by (auto simp: cgaputc_def Let_def split: if_splits prod.splits)

lemma consputc_keeps:
  assumes "consputc c s = Inr s'"
  shows "panicked s' = panicked s" "ibuf s' = ibuf s" "ir s' = ir s" "iw s' = iw s" "ie s' = ie s"
    "wakes s' = wakes s"
  using assms cgaputc_keeps by (auto simp: consputc_def Let_def split: if_splits)

section \<open>The screen\<close>

lemma unat_of_nat_ushort [simp]: "n < 65536 \<Longrightarrow> unat (of_nat n :: ushort) = n"
  by (simp add: unat_of_nat)

lemma newline_column: "pos + (80 - pos mod 80) = 80 * (pos div 80 + 1)" for pos :: nat
proof -
  define q r where "q = pos div 80" and "r = pos mod 80"
  have "pos = 80 * q + r" "r < 80"
    by (simp_all add: q_def r_def)
  then show ?thesis
    unfolding q_def [symmetric] r_def [symmetric] by simp
qed

text \<open>The two halves of \<^verbatim>\<open>cgaputc\<close>: move the cursor, then scroll.\<close>

definition cga_move :: "nat \<Rightarrow> (nat \<Rightarrow> ushort) \<Rightarrow> nat \<Rightarrow> (nat \<Rightarrow> ushort) \<times> nat" where
  "cga_move c cells pos =
     (if c = 10 then (cells, pos + (80 - pos mod 80))
      else if c = BACKSPACE then (cells, if pos > 0 then pos - 1 else pos)
      else (cells(pos := (of_nat c AND 0xFF) OR 0x0700), pos + 1))"

definition cga_scroll :: "(nat \<Rightarrow> ushort) \<Rightarrow> nat \<Rightarrow> (nat \<Rightarrow> ushort) \<times> nat" where
  "cga_scroll cells pos =
     (if pos div 80 \<ge> 24
      then (\<lambda>i. if pos - 80 \<le> i \<and> i < 24 * 80 then 0 else if i < 23 * 80 then cells (i + 80) else cells i, pos - 80)
      else (cells, pos))"

lemma cgaputc_alt:
  "cgaputc c s = (case cga_move c (crt s) (unat (curpos s)) of (cells, pos) \<Rightarrow>
     if pos > 25 * 80 then Inl (Panic ''pos under/overflow'')
     else case cga_scroll cells pos of (cells, pos) \<Rightarrow> Inr (s\<lparr>crt := cells(pos := 0x0720), curpos := of_nat pos\<rparr>))"
  unfolding cgaputc_def cga_move_def cga_scroll_def Let_def by (rule refl)

lemma cga_move_bound:
  assumes "pos < 24 * 80" and "cga_move c cells pos = (cells', pos')"
  shows "pos' \<le> 24 * 80"
proof -
  have "pos div 80 < 24"
    using assms(1) by (simp add: div_less_iff_less_mult)
  then have "80 * (pos div 80 + 1) \<le> 24 * 80"
    by simp
  then show ?thesis
    using assms by (auto simp: cga_move_def newline_column split: if_splits)
qed

lemma cga_scroll_full: "cga_scroll cells 1920 =
  (\<lambda>i. if 1840 \<le> i \<and> i < 1920 then 0 else if i < 1840 then cells (i + 80) else cells i, 1840)"
  by (simp add: cga_scroll_def cong: if_cong)

lemma cga_scroll_other: "pos < 24 * 80 \<Longrightarrow> cga_scroll cells pos = (cells, pos)"
  using div_less_iff_less_mult [of 80 pos 24] by (simp add: cga_scroll_def)

lemma cgaputc_effect:
  assumes "unat (curpos s) < 24 * 80"
  shows "\<exists>s'. cgaputc c s = Inr s' \<and> unat (curpos s') < 24 * 80 \<and> crt s' (unat (curpos s')) = 0x0720
    \<and> (\<forall>i. 24 * 80 \<le> i \<longrightarrow> crt s' i = crt s i)
    \<and> (c \<noteq> 10 \<and> c \<noteq> BACKSPACE \<longrightarrow> 0 < unat (curpos s')
         \<and> crt s' (unat (curpos s') - 1) = (of_nat c AND 0xFF) OR 0x0700)
    \<and> (c = BACKSPACE \<longrightarrow> unat (curpos s') = unat (curpos s) - 1)"
proof -
  obtain cells pos where mv: "cga_move c (crt s) (unat (curpos s)) = (cells, pos)"
    by fastforce
  have le: "pos \<le> 1920"
    using cga_move_bound [OF assms mv] by simp
  have out: "cells i = crt s i" if "1920 \<le> i" for i
    using mv assms that by (auto simp: cga_move_def split: if_splits)
  have chr: "0 < pos \<and> cells (pos - 1) = (of_nat c AND 0xFF) OR 0x0700" if "c \<noteq> 10" "c \<noteq> BACKSPACE"
    using mv that by (auto simp: cga_move_def)
  show ?thesis
  proof (cases "pos = 1920")
    case True
    define cells' where "cells' = (\<lambda>i. if 1840 \<le> i \<and> i < 1920 then 0 else if i < 1840 then cells (i + 80) else cells i)"
    have run: "cgaputc c s = Inr (s\<lparr>crt := cells'(1840 := 0x0720), curpos := 1840\<rparr>)"
      by (simp add: cgaputc_alt mv True cga_scroll_full cells'_def)
    have "c \<noteq> BACKSPACE"
      using mv True assms by (auto simp: cga_move_def split: if_splits)
    then show ?thesis
      using out chr True by (auto simp: run cells'_def)
  next
    case False
    then have "pos < 1920"
      using le by simp
    then have run: "cgaputc c s = Inr (s\<lparr>crt := cells(pos := 0x0720), curpos := of_nat pos\<rparr>)"
      by (simp add: cgaputc_alt mv cga_scroll_other)
    have cp: "unat (of_nat pos :: ushort) = pos"
      using \<open>pos < 1920\<close> by simp
    have bk: "c = BACKSPACE \<Longrightarrow> pos = unat (curpos s) - 1"
      using mv by (auto simp: cga_move_def)
    show ?thesis
      by (simp add: run cp) (use out chr bk \<open>pos < 1920\<close> in auto)
  qed
qed



lemma consputc_ok:
  assumes "\<not> panicked s" and "unat (curpos s) < 24 * 80"
  shows "\<exists>s'. consputc c s = Inr s' \<and> unat (curpos s') < 24 * 80"
proof -
  let ?s = "if c = BACKSPACE then uartputc 8 (uartputc 32 (uartputc 8 s)) else uartputc c s"
  have "unat (curpos ?s) < 24 * 80"
    using assms(2) by simp
  then obtain s' where "cgaputc c ?s = Inr s'" "unat (curpos s') < 24 * 80"
    using cgaputc_effect by blast
  then show ?thesis
    using assms(1) by (simp add: consputc_def)
qed

end
