(* ===== verification/Line_Editor.thy ===== *)
theory Line_Editor
  imports Console
begin

text \<open>
  Console input: the line editor that \<^verbatim>\<open>consoleintr\<close> runs on typed characters and
  \<^verbatim>\<open>consoleread\<close>, which takes committed input from the same ring. The ring is shown to be a
  pair of lists, the committed input and the line being edited, and the two operations are shown to
  be the obvious operations on these lists.
\<close>

section \<open>The line editor\<close>

text \<open>\<^verbatim>\<open>C('U')\<close>: erase to the start of the line.\<close>

function kill_line :: "console \<Rightarrow> console res" where
  "kill_line s =
     (if ie s \<noteq> iw s \<and> ibuf s ! slot INPUT_BUF (ie s - 1) \<noteq> 10
      then rbind (consputc BACKSPACE (s\<lparr>ie := ie s - 1\<rparr>)) kill_line
      else Inr s)"
  by pat_completeness auto
termination
proof (relation "measure (\<lambda>s. unat (ie s - iw s))", simp)
  fix s s' :: console
  assume "ie s \<noteq> iw s \<and> ibuf s ! slot INPUT_BUF (ie s - 1) \<noteq> 10"
    and "consputc BACKSPACE (s\<lparr>ie := ie s - 1\<rparr>) = Inr s'"
  then have e: "ie s' = ie s - 1" "iw s' = iw s" and nz: "ie s - iw s \<noteq> 0"
    using consputc_keeps by auto
  have d: "ie s' - iw s' = ie s - iw s - 1"
    unfolding e by simp
  have "unat (ie s' - iw s') < unat (ie s - iw s)"
    unfolding d using unat_minus_one [OF nz] unat_gt_0 [of "ie s - iw s"] nz by linarith
  then show "(s', s) \<in> measure (\<lambda>s. unat (ie s - iw s))"
    by simp
qed

declare kill_line.simps [simp del]

text \<open>One character from \<^verbatim>\<open>getc\<close>; the first component is \<^verbatim>\<open>doprocdump\<close>.\<close>

definition consoleintr_char :: "uchar \<Rightarrow> bool \<times> console \<Rightarrow> (bool \<times> console) res" where
  "consoleintr_char c ds =
     (let (doprocdump, s) = ds in
      if c = 16 then Inr (True, s)
      else if c = 21 then rbind (kill_line s) (\<lambda>s. Inr (doprocdump, s))
      else if c = 8 \<or> c = 0x7F
      then if ie s \<noteq> iw s
           then rbind (consputc BACKSPACE (s\<lparr>ie := ie s - 1\<rparr>)) (\<lambda>s. Inr (doprocdump, s))
           else Inr (doprocdump, s)
      else if c \<noteq> 0 \<and> ie s - ir s < of_nat INPUT_BUF
      then let c = (if c = 13 then 10 else c);
               s = s\<lparr>ibuf := (ibuf s)[slot INPUT_BUF (ie s) := c], ie := ie s + 1\<rparr>
           in rbind (consputc (unat c) s) (\<lambda>s.
              Inr (doprocdump,
                   if c = 10 \<or> c = 4 \<or> ie s = ir s + of_nat INPUT_BUF
                   then s\<lparr>iw := ie s, wakes := wakes s + 1\<rparr> else s))
      else Inr (doprocdump, s))"

text \<open>\<open>cs\<close> are the results of \<^verbatim>\<open>getc\<close> up to the first negative one.\<close>

definition consoleintr :: "bytes \<Rightarrow> console \<Rightarrow> (bool \<times> console) res" where
  "consoleintr cs s = for_each consoleintr_char cs (False, s)"

text \<open>
  \<^verbatim>\<open>consoleread\<close> with \<open>n\<close> of \<open>target\<close> bytes still to read and \<open>dst\<close> stored
  so far. A call that sleeps resumes with these values.
\<close>

datatype cons_out = Returned int bytes console | Sleeps nat bytes console

fun consoleread_loop :: "bool \<Rightarrow> nat \<Rightarrow> nat \<Rightarrow> bytes \<Rightarrow> console \<Rightarrow> cons_out" where
  "consoleread_loop killed target 0 dst s = Returned (int target) dst s"
| "consoleread_loop killed target (Suc n) dst s =
     (if ir s = iw s
      then if killed then Returned (- 1) dst s else Sleeps (Suc n) dst s
      else let c = ibuf s ! slot INPUT_BUF (ir s);
               s = s\<lparr>ir := ir s + 1\<rparr>
           in if c = 4
              then Returned (int target - int (Suc n)) dst (if Suc n < target then s\<lparr>ir := ir s - 1\<rparr> else s)
              else if c = 10 then Returned (int target - int n) (dst @ [c]) s
              else consoleread_loop killed target n (dst @ [c]) s)"

definition consoleread :: "bool \<Rightarrow> int \<Rightarrow> console \<Rightarrow> cons_out" where
  "consoleread killed n s = consoleread_loop killed (nat n) (nat n) [] s"

section \<open>The line editor as an editor of lists\<close>

interpretation ib: ring_buffer INPUT_BUF
  by unfold_locales simp_all

definition typed :: "console \<Rightarrow> bytes" where
  "typed s = ring_list INPUT_BUF (ibuf s) (ir s) (ie s)"

text \<open>Input a reader may take, and the line being edited.\<close>

definition committed :: "console \<Rightarrow> bytes" where
  "committed s = take (unat (iw s - ir s)) (typed s)"

definition line :: "console \<Rightarrow> bytes" where
  "line s = drop (unat (iw s - ir s)) (typed s)"

definition cons_inv :: "console \<Rightarrow> bool" where
  "cons_inv s \<longleftrightarrow> \<not> panicked s \<and> unat (curpos s) < 24 * 80 \<and> length (ibuf s) = INPUT_BUF
     \<and> length (typed s) \<le> INPUT_BUF \<and> unat (iw s - ir s) \<le> length (typed s) \<and> 10 \<notin> set (line s)"

text \<open>The editor that users expect.\<close>

definition edit :: "uchar \<Rightarrow> bytes \<times> bytes \<Rightarrow> bytes \<times> bytes" where
  "edit c = (\<lambda>(com, ln).
     if c = 16 then (com, ln)
     else if c = 21 then (com, [])
     else if c = 8 \<or> c = 0x7F then (com, butlast ln)
     else if c \<noteq> 0 \<and> length com + length ln < INPUT_BUF
     then let ln' = ln @ [if c = 13 then 10 else c]
          in if c = 10 \<or> c = 13 \<or> c = 4 \<or> length com + length ln' = INPUT_BUF then (com @ ln', []) else (com, ln')
     else (com, ln))"

lemma typed_split: "typed s = committed s @ line s"
  by (simp add: committed_def line_def)

lemma length_typed: "length (typed s) = unat (ie s - ir s)"
  by (simp add: typed_def)

lemma length_committed: "cons_inv s \<Longrightarrow> length (committed s) = unat (iw s - ir s)"
  by (simp add: committed_def cons_inv_def)

lemma line_empty_iff: "cons_inv s \<Longrightarrow> ie s = iw s \<longleftrightarrow> line s = []"
proof -
  assume "cons_inv s"
  then have "line s = [] \<longleftrightarrow> unat (ie s - ir s) = unat (iw s - ir s)"
    by (auto simp: line_def cons_inv_def length_typed)
  also have "\<dots> \<longleftrightarrow> ie s - ir s = iw s - ir s"
    by (simp add: word_unat_eq_iff)
  finally show ?thesis
    by simp
qed

text \<open>A state that differs only in output and in the number of wakeups.\<close>

definition same_input :: "console \<Rightarrow> console \<Rightarrow> bool" where
  "same_input s s' \<longleftrightarrow> panicked s' = panicked s \<and> ibuf s' = ibuf s \<and> ir s' = ir s \<and> iw s' = iw s \<and> ie s' = ie s"

lemma same_input_views:
  "same_input s s' \<Longrightarrow> typed s' = typed s \<and> committed s' = committed s \<and> line s' = line s"
  by (simp add: same_input_def typed_def committed_def line_def)

lemma consputc_same: "consputc c s = Inr s' \<Longrightarrow> same_input s s'"
  by (simp add: same_input_def consputc_keeps)

lemma cons_inv_output:
  "cons_inv s \<Longrightarrow> same_input s s' \<Longrightarrow> unat (curpos s') < 24 * 80 \<Longrightarrow> cons_inv s'"
  using same_input_views [of s s'] by (simp add: cons_inv_def same_input_def)

lemma put_ok:
  assumes "cons_inv s"
  shows "\<exists>s'. consputc c s = Inr s' \<and> same_input s s' \<and> cons_inv s'"
proof -
  have "\<not> panicked s" "unat (curpos s) < 24 * 80"
    using assms by (simp_all add: cons_inv_def)
  then obtain s' where s': "consputc c s = Inr s'" "unat (curpos s') < 24 * 80"
    using consputc_ok by blast
  show ?thesis
    using s'(1) consputc_same [OF s'(1)] cons_inv_output [OF assms _ s'(2)] by blast
qed

text \<open>Dropping the last character of the line.\<close>

lemma drop_char:
  assumes inv: "cons_inv s" and ne: "ie s \<noteq> iw s"
  defines "s' \<equiv> s\<lparr>ie := ie s - 1\<rparr>"
  shows "cons_inv s'" and "committed s' = committed s" and "line s' = butlast (line s)"
    and "ibuf s ! slot INPUT_BUF (ie s - 1) = last (line s)"
proof -
  let ?k = "unat (iw s - ir s)"
  have ln: "line s \<noteq> []"
    using line_empty_iff [OF inv] ne by simp
  have "ir s \<noteq> ie s"
    using ln by (auto simp: line_def typed_def)
  then have t: "typed s = typed s' @ [ibuf s ! slot INPUT_BUF (ie s - 1)]"
    using ib.ring_drop_last by (simp add: typed_def s'_def)
  have k: "?k \<le> length (typed s')"
    using ln arg_cong [OF t, of length] by (auto simp: line_def)
  show c: "committed s' = committed s" and l: "line s' = butlast (line s)"
    and "ibuf s ! slot INPUT_BUF (ie s - 1) = last (line s)"
    using k by (simp_all add: committed_def line_def t) (simp_all add: s'_def)
  show "cons_inv s'"
    using inv k arg_cong [OF t, of length] in_set_butlastD [of 10 "line s"] l
    by (auto simp: cons_inv_def) (simp_all add: s'_def)
qed

lemma kill_line_ok:
  "cons_inv s \<Longrightarrow> \<exists>s'. kill_line s = Inr s' \<and> cons_inv s' \<and> committed s' = committed s \<and> line s' = []"
proof (induction s rule: kill_line.induct)
  case (1 s)
  show ?case
  proof (cases "ie s = iw s")
    case True
    then show ?thesis
      using line_empty_iff [OF "1.prems"] "1.prems" by (subst kill_line.simps) simp
  next
    case False
    let ?s = "s\<lparr>ie := ie s - 1\<rparr>"
    note d = drop_char [OF "1.prems" False]
    have "last (line s) \<in> set (line s)"
      using line_empty_iff [OF "1.prems"] False by simp
    then have nn: "ibuf s ! slot INPUT_BUF (ie s - 1) \<noteq> 10"
      using "1.prems" by (auto simp: d(4) cons_inv_def)
    obtain s1 where s1: "consputc BACKSPACE ?s = Inr s1" "same_input ?s s1" "cons_inv s1"
      using put_ok [OF d(1)] by blast
    have "committed s1 = committed s"
      using same_input_views [OF s1(2)] d(2) by simp
    moreover have "\<exists>s'. kill_line s1 = Inr s' \<and> cons_inv s' \<and> committed s' = committed s1 \<and> line s' = []"
      using "1.IH" [OF _ s1(1) s1(3)] False nn by simp
    moreover have "kill_line s = kill_line s1"
      using False nn s1(1) by (subst kill_line.simps) simp
    ultimately show ?thesis
      by metis
  qed
qed

lemma committed_full_iff:
  assumes "length (typed s) \<le> INPUT_BUF"
  shows "ie s = ir s + of_nat INPUT_BUF \<longleftrightarrow> length (typed s) = INPUT_BUF"
proof -
  have "ie s = ir s + of_nat INPUT_BUF \<longleftrightarrow> ie s - ir s = of_nat INPUT_BUF"
    by (auto simp: algebra_simps)
  also have "\<dots> \<longleftrightarrow> unat (ie s - ir s) = INPUT_BUF"
    by (simp add: word_unat_eq_iff)
  finally show ?thesis
    by (simp add: length_typed)
qed

text \<open>Storing a character, and committing the line.\<close>

lemma put_char:
  fixes s :: console and c :: uchar
  assumes inv: "cons_inv s" and room: "length (typed s) < INPUT_BUF"
  defines "s' \<equiv> s\<lparr>ibuf := (ibuf s)[slot INPUT_BUF (ie s) := c], ie := ie s + 1\<rparr>"
  shows "committed s' = committed s" and "line s' = line s @ [c]" and "length (ibuf s') = INPUT_BUF"
proof -
  have "typed s' = typed s @ [c]"
    using ib.ring_put [of "ibuf s" "ie s" "ir s" c] inv room
    by (simp add: typed_def s'_def cons_inv_def)
  moreover have "unat (iw s' - ir s') = unat (iw s - ir s)" "unat (iw s - ir s) \<le> length (typed s)"
    using inv by (simp_all add: s'_def cons_inv_def)
  ultimately show "committed s' = committed s" "line s' = line s @ [c]"
    by (simp_all add: committed_def line_def)
  show "length (ibuf s') = INPUT_BUF"
    using inv by (simp add: s'_def cons_inv_def)
qed

lemma commit_line:
  fixes s :: console
  defines "s' \<equiv> s\<lparr>iw := ie s, wakes := wakes s + 1\<rparr>"
  shows "committed s' = typed s" and "line s' = []" and "typed s' = typed s"
proof -
  show t: "typed s' = typed s"
    by (simp add: typed_def s'_def)
  have "unat (iw s' - ir s') = length (typed s)"
    by (simp add: s'_def length_typed)
  then show "committed s' = typed s" "line s' = []"
    by (simp_all add: committed_def line_def t)
qed

lemma cons_inv_intro:
  "\<not> panicked s \<Longrightarrow> unat (curpos s) < 24 * 80 \<Longrightarrow> length (ibuf s) = INPUT_BUF \<Longrightarrow> length (typed s) \<le> INPUT_BUF
    \<Longrightarrow> length (committed s) = unat (iw s - ir s) \<Longrightarrow> 10 \<notin> set (line s) \<Longrightarrow> cons_inv s"
  by (simp add: cons_inv_def committed_def)

lemma consoleintr_plain:
  assumes inv: "cons_inv s" and c: "c \<noteq> 16" "c \<noteq> 21" "c \<noteq> 8" "c \<noteq> 0x7F"
  shows "\<exists>s'. consoleintr_char c (d, s) = Inr (d, s') \<and> cons_inv s'
    \<and> (committed s', line s') = edit c (committed s, line s)"
proof (cases "c \<noteq> 0 \<and> length (typed s) < INPUT_BUF")
  case True
  define e where "e = (if c = 13 then 10 else c)"
  define s0 where "s0 = s\<lparr>ibuf := (ibuf s)[slot INPUT_BUF (ie s) := e], ie := ie s + 1\<rparr>"
  have room: "ie s - ir s < of_nat INPUT_BUF"
    using True by (simp add: word_less_nat_alt length_typed)
  have s0: "committed s0 = committed s" "line s0 = line s @ [e]" "length (ibuf s0) = INPUT_BUF"
    unfolding s0_def using put_char [OF inv, of e] True by simp_all
  have p: "\<not> panicked s0" "unat (curpos s0) < 24 * 80"
    using inv by (simp_all add: s0_def cons_inv_def)
  obtain s1 where s1: "consputc (unat e) s0 = Inr s1" "unat (curpos s1) < 24 * 80"
    using consputc_ok [OF p] by blast
  note si = consputc_same [OF s1(1)]
  have v: "committed s1 = committed s" "line s1 = line s @ [e]"
    using same_input_views [OF si] s0 by simp_all
  have t: "typed s1 = typed s @ [e]" "length (typed s1) \<le> INPUT_BUF"
    using True by (simp_all add: typed_split [of s1] typed_split [of s] v)
  have lc: "length (committed s1) = unat (iw s1 - ir s1)"
    using si length_committed [OF inv] by (simp add: v same_input_def s0_def)
  have full: "ie s1 = ir s1 + of_nat INPUT_BUF \<longleftrightarrow> length (committed s) + length (line s @ [e]) = INPUT_BUF"
    unfolding committed_full_iff [OF t(2)] by (simp add: t typed_split [of s])
  define fin where "fin = (if e = 10 \<or> e = 4 \<or> ie s1 = ir s1 + of_nat INPUT_BUF
      then s1\<lparr>iw := ie s1, wakes := wakes s1 + 1\<rparr> else s1)"
  have run: "consoleintr_char c (d, s) = Inr (d, fin)"
    using c True room s1(1) unfolding consoleintr_char_def s0_def e_def fin_def by (simp add: Let_def)
  have np: "\<not> panicked s1" "length (ibuf s1) = INPUT_BUF"
    using si p(1) s0(3) by (simp_all add: same_input_def)
  have len: "length (committed s) + length (line s) < INPUT_BUF"
    using True typed_split [of s] by simp
  show ?thesis
  proof (cases "e = 10 \<or> e = 4 \<or> ie s1 = ir s1 + of_nat INPUT_BUF")
    case com: True
    have f: "committed fin = committed s @ line s @ [e]" "line fin = []" "typed fin = typed s1"
      using com commit_line [of s1] t typed_split [of s] by (simp_all add: fin_def)
    have "cons_inv fin"
      using com np s1(2) t(2) f by (intro cons_inv_intro) (simp_all add: fin_def t typed_split [of s] length_typed [symmetric])
    moreover have "edit c (committed s, line s) = (committed s @ line s @ [e], [])"
      using com c True len unfolding edit_def full e_def by (auto simp: Let_def)
    ultimately show ?thesis
      using run f by simp
  next
    case unc: False
    then have fs: "fin = s1"
      by (simp add: fin_def)
    have "10 \<notin> set (line s1)"
      using inv unc by (auto simp: v cons_inv_def)
    then have "cons_inv s1"
      using np s1(2) t(2) lc by (intro cons_inv_intro)
    moreover have "edit c (committed s, line s) = (committed s, line s @ [e])"
      using unc c True len unfolding edit_def full e_def by (auto simp: Let_def split: if_splits)
    ultimately show ?thesis
      using run v fs by simp
  qed
next
  case False
  have "\<not> (c \<noteq> 0 \<and> ie s - ir s < of_nat INPUT_BUF)"
    using False by (simp add: word_less_nat_alt length_typed)
  then have "consoleintr_char c (d, s) = Inr (d, s)"
    using c by (auto simp: consoleintr_char_def)
  moreover have "edit c (committed s, line s) = (committed s, line s)"
    using c False typed_split [of s] by (auto simp: edit_def)
  ultimately show ?thesis
    using inv by simp
qed

lemma consoleintr_char_ok:
  assumes "cons_inv s"
  shows "\<exists>s'. consoleintr_char c (d, s) = Inr (d \<or> c = 16, s') \<and> cons_inv s'
    \<and> (committed s', line s') = edit c (committed s, line s)"
proof -
  consider "c = 16" | "c = 21" | "c = 8 \<or> c = 0x7F" | "c \<noteq> 16" "c \<noteq> 21" "c \<noteq> 8" "c \<noteq> 0x7F"
    by blast
  then show ?thesis
  proof cases
    case 1
    then show ?thesis
      using assms by (simp add: consoleintr_char_def edit_def)
  next
    case 2
    then show ?thesis
      using kill_line_ok [OF assms] by (auto simp: consoleintr_char_def edit_def)
  next
    case 3
    show ?thesis
    proof (cases "ie s = iw s")
      case True
      then show ?thesis
        using 3 assms line_empty_iff [OF assms] by (auto simp: consoleintr_char_def edit_def)
    next
      case False
      note d = drop_char [OF assms False]
      obtain s1 where "consputc BACKSPACE (s\<lparr>ie := ie s - 1\<rparr>) = Inr s1" "same_input (s\<lparr>ie := ie s - 1\<rparr>) s1" "cons_inv s1"
        using put_ok [OF d(1)] by blast
      then show ?thesis
        using 3 False same_input_views d(2,3) by (auto simp: consoleintr_char_def edit_def)
    qed
  next
    case 4
    then show ?thesis
      using consoleintr_plain [OF assms 4] by simp
  qed
qed

text \<open>
  C16: the line editor edits lines. From a state in which the ring is consistent
  \<^verbatim>\<open>consoleintr\<close> returns for any characters, without a panic; on the committed input and
  the current line it does what the editor on lists does: backspace drops the last character, control-U
  the line, newline, control-D or a full buffer commit it, other characters are appended while there
  is room. It asks for the process listing exactly when control-P was typed.
\<close>

theorem console_line_editing:
  assumes "cons_inv s"
  shows "\<exists>s'. consoleintr cs s = Inr (16 \<in> set cs, s') \<and> cons_inv s'
    \<and> (committed s', line s') = fold edit cs (committed s, line s)"
proof -
  have "\<exists>s'. for_each consoleintr_char cs (d, s) = Inr (d \<or> 16 \<in> set cs, s') \<and> cons_inv s'
      \<and> (committed s', line s') = fold edit cs (committed s, line s)" for d
    using assms
  proof (induction cs arbitrary: d s)
    case (Cons c cs)
    obtain s1 where s1: "consoleintr_char c (d, s) = Inr (d \<or> c = 16, s1)" "cons_inv s1"
      "(committed s1, line s1) = edit c (committed s, line s)"
      using consoleintr_char_ok [OF Cons.prems] by blast
    obtain s' where "for_each consoleintr_char cs (d \<or> c = 16, s1) = Inr ((d \<or> c = 16) \<or> 16 \<in> set cs, s')" "cons_inv s'"
      "(committed s', line s') = fold edit cs (committed s1, line s1)"
      using Cons.IH [OF s1(2)] by blast
    then show ?case
      using s1 by auto
  qed simp
  from this [of False] show ?thesis
    by (simp add: consoleintr_def)
qed

definition fresh_console :: console where
  "fresh_console = \<lparr>panicked = False, locking = True, uart = False, sent_bytes = [], crt = (\<lambda>i. 0), curpos = 0,
     ibuf = replicate INPUT_BUF 0, ir = 4294967295, iw = 4294967295, ie = 4294967295, wakes = 0\<rparr>"

lemma fresh_console_ok: "cons_inv fresh_console" "committed fresh_console = []" "line fresh_console = []"
  by (simp_all add: cons_inv_def fresh_console_def typed_def line_def committed_def)

theorem console_line_editing_witness:
  "\<exists>s'. consoleintr [104, 111, 8, 105, 13] fresh_console = Inr (False, s') \<and> committed s' = [104, 105, 10] \<and> line s' = []"
proof -
  obtain s' where s': "consoleintr [104, 111, 8, 105, 13] fresh_console = Inr (16 \<in> set [104, 111, 8, 105, 13 :: uchar], s')"
    "(committed s', line s') = fold edit [104, 111, 8, 105, 13] ([], [])"
    using console_line_editing [OF fresh_console_ok(1), of "[104, 111, 8, 105, 13]"] by (auto simp: fresh_console_ok)
  have "fold edit [104, 111, 8, 105, 13] ([], []) = ([104, 105, 10], [])"
    by (simp add: edit_def)
  then show ?thesis
    using s' by (intro exI [of _ s']) simp
qed

section \<open>Reading\<close>

lemma take_committed:
  assumes inv: "cons_inv s" and ne: "ir s \<noteq> iw s"
  defines "s' \<equiv> s\<lparr>ir := ir s + 1\<rparr>"
  shows "committed s = ibuf s ! slot INPUT_BUF (ir s) # committed s'" and "line s' = line s" and "cons_inv s'"
proof -
  have k: "unat (iw s - ir s) = Suc (unat (iw s - (ir s + 1)))"
    by (rule unat_sub_Suc [OF ne])
  have "ir s \<noteq> ie s"
  proof
    assume "ir s = ie s"
    then have "unat (iw s - ir s) = 0"
      using inv by (simp add: cons_inv_def length_typed)
    then show False
      using k by simp
  qed
  then have t: "typed s = ibuf s ! slot INPUT_BUF (ir s) # typed s'"
    using ib.ring_take by (simp add: typed_def s'_def)
  show "committed s = ibuf s ! slot INPUT_BUF (ir s) # committed s'" and l: "line s' = line s"
    using k by (simp_all add: committed_def line_def t) (simp_all add: s'_def)
  have "unat (iw s' - ir s') \<le> length (typed s')"
    using inv k by (simp add: cons_inv_def t) (simp add: s'_def)
  then show "cons_inv s'"
    using inv l t by (simp add: cons_inv_def) (simp add: s'_def)
qed

lemma committed_empty: "cons_inv s \<Longrightarrow> committed s = [] \<longleftrightarrow> ir s = iw s"
  using length_committed [of s] by (metis length_0_conv right_minus_eq unat_eq_zero)

abbreviation plain :: "uchar \<Rightarrow> bool" where
  "plain c \<equiv> c \<noteq> 10 \<and> c \<noteq> 4"

text \<open>How a read ends, from the committed input \<open>com\<close>.\<close>

definition read_result :: "bool \<Rightarrow> nat \<Rightarrow> nat \<Rightarrow> bytes \<Rightarrow> bytes \<Rightarrow> (console \<Rightarrow> cons_out) \<times> bytes" where
  "read_result killed target n dst com =
     (let cs = takeWhile plain com in
      if n \<le> length cs then (Returned (int target) (dst @ take n com), drop n com)
      else case dropWhile plain com of
          [] \<Rightarrow> (if killed then Returned (- 1) (dst @ cs) else Sleeps (n - length cs) (dst @ cs), [])
        | c # rest \<Rightarrow>
            if c = 10 then (Returned (int target - int n + int (length cs) + 1) (dst @ cs @ [10]), rest)
            else (Returned (int target - int n + int (length cs)) (dst @ cs), if n - length cs < target then c # rest else rest))"

lemma read_result_Cons:
  assumes "plain c"
  shows "read_result killed target (Suc n) dst (c # com) = read_result killed target n (dst @ [c]) com"
proof -
  define cs rest where "cs = takeWhile plain com" and "rest = dropWhile plain com"
  have w: "takeWhile plain (c # com) = c # cs" "dropWhile plain (c # com) = rest"
    using assms by (simp_all add: cs_def rest_def)
  show ?thesis
    unfolding read_result_def w cs_def [symmetric] rest_def [symmetric]
    by (cases rest) (simp_all add: Let_def algebra_simps)
qed

lemma consoleread_loop_ok:
  assumes "cons_inv s" and "n \<le> target"
  shows "\<exists>s'. consoleread_loop killed target n dst s = fst (read_result killed target n dst (committed s)) s'
    \<and> committed s' = snd (read_result killed target n dst (committed s)) \<and> line s' = line s \<and> cons_inv s'"
  using assms
proof (induction n arbitrary: dst s)
  case 0
  then show ?case
    by (intro exI [of _ s]) (simp add: read_result_def)
next
  case (Suc n)
  show ?case
  proof (cases "ir s = iw s")
    case True
    then have "committed s = []"
      using committed_empty [OF Suc.prems(1)] by simp
    then show ?thesis
      using True Suc.prems by (intro exI [of _ s]) (simp add: read_result_def)
  next
    case False
    define c where "c = ibuf s ! slot INPUT_BUF (ir s)"
    define s1 where "s1 = s\<lparr>ir := ir s + 1\<rparr>"
    note t = take_committed [OF Suc.prems(1) False, folded c_def s1_def]
    have restore: "s1\<lparr>ir := ir s1 - 1\<rparr> = s"
      by (simp add: s1_def)
    have run: "consoleread_loop killed target (Suc n) dst s =
      (if c = 4 then Returned (int target - int (Suc n)) dst (if Suc n < target then s else s1)
       else if c = 10 then Returned (int target - int n) (dst @ [c]) s1
       else consoleread_loop killed target n (dst @ [c]) s1)"
      using False by (simp add: c_def Let_def) (simp add: s1_def)
    consider "c = 4" | "c = 10" | "plain c"
      by blast
    then show ?thesis
    proof cases
      case 1
      then show ?thesis
        using Suc.prems t unfolding run
        by (intro exI [of _ "if Suc n < target then s else s1"]) (simp add: read_result_def of_nat_diff)
    next
      case 2
      then show ?thesis
        using Suc.prems t unfolding run by (intro exI [of _ s1]) (simp add: read_result_def of_nat_diff)
    next
      case 3
      have rr: "read_result killed target (Suc n) dst (committed s) = read_result killed target n (dst @ [c]) (committed s1)"
        unfolding t(1) by (rule read_result_Cons [OF 3])
      have "consoleread_loop killed target (Suc n) dst s = consoleread_loop killed target n (dst @ [c]) s1"
        unfolding run using 3 by simp
      then show ?thesis
        using Suc.IH [OF t(3), of "dst @ [c]"] Suc.prems(2) unfolding rr t(2) by (metis Suc_leD)
    qed
  qed
qed

text \<open>
  C28: \<^verbatim>\<open>consoleread\<close> hands out committed input a line at a time. A read of \<open>n > 0\<close> bytes
  returns the first \<open>n\<close> committed bytes when no newline or control-D comes earlier; otherwise
  the bytes up to and including the newline, or the bytes before a control-D, which it consumes only
  when there are none (so that the reader then gets its 0); with neither it takes what there is and
  sleeps, or fails if the process was killed. The line being edited is not touched.
\<close>

theorem consoleread_line:
  assumes "cons_inv s" and "read_result killed (nat n) (nat n) [] (committed s) = (outcome, com)"
  shows "\<exists>s'. consoleread killed n s = outcome s' \<and> committed s' = com \<and> line s' = line s \<and> cons_inv s'"
  using consoleread_loop_ok [OF assms(1) order_refl, of killed "nat n" "[]"] by (simp add: assms(2) consoleread_def)

theorem consoleread_line_witness:
  "\<exists>s s'. committed s = [104, 105, 10] \<and> consoleread False 80 s = Returned 3 [104, 105, 10] s' \<and> committed s' = []"
proof -
  let ?s = "fresh_console\<lparr>ibuf := [105, 10] @ replicate 125 0 @ [104], iw := 2, ie := 2\<rparr>"
  have t: "typed ?s = [104, 105, 10]"
    by (simp add: typed_def ring_list_def fresh_console_def slot_def upt_rec nth_append)
  have c: "committed ?s = [104, 105, 10]" "line ?s = []"
    unfolding committed_def line_def t by (simp_all add: fresh_console_def)
  have inv: "cons_inv ?s"
    unfolding cons_inv_def t c by (simp add: fresh_console_def)
  have "read_result False (nat 80) (nat 80) [] (committed ?s) = (Returned 3 [104, 105, 10], [])"
    unfolding c by (simp add: read_result_def)
  from consoleread_line [OF inv this] show ?thesis
    using c(1) by blast
qed

end
