(* ===== verification/Kbd.thy ===== *)
theory Kbd
  imports Line_Editor
begin

text \<open>
  The keyboard driver \<^verbatim>\<open>kbd.c\<close> with the tables of \<^verbatim>\<open>kbd.h\<close>. The driver is a
  state machine over the scan codes the controller delivers; its state is the word \<^verbatim>\<open>shift\<close>.
  The scan codes waiting in the controller when an interrupt is handled are a list, and an empty list is the
  status without \<^verbatim>\<open>KBS_DIB\<close>.
\<close>

section \<open>Tables\<close>

abbreviation SHIFT :: uint where "SHIFT \<equiv> 1"
abbreviation CTL :: uint where "CTL \<equiv> 2"
abbreviation ALT :: uint where "ALT \<equiv> 4"
abbreviation CAPSLOCK :: uint where "CAPSLOCK \<equiv> 8"
abbreviation NUMLOCK :: uint where "NUMLOCK \<equiv> 16"
abbreviation SCROLLLOCK :: uint where "SCROLLLOCK \<equiv> 32"
abbreviation E0ESC :: uint where "E0ESC \<equiv> 64"

text \<open>An array of 256 entries given by its first entries and by designated ones.\<close>

definition table :: "bytes \<Rightarrow> (nat \<times> uchar) list \<Rightarrow> bytes" where
  "table first designated = fold (\<lambda>(i, v) t. t[i := v]) designated (first @ replicate (256 - length first) 0)"

definition shiftcode :: bytes where
  "shiftcode = table [] [(0x1D, 2), (0x2A, 1), (0x36, 1), (0x38, 4), (0x9D, 2), (0xB8, 4)]"

definition togglecode :: bytes where
  "togglecode = table [] [(0x3A, 8), (0x45, 16), (0x46, 32)]"

definition normalmap :: bytes where
  "normalmap = table
    [0, 27, 49, 50, 51, 52, 53, 54, 55, 56, 57, 48, 45, 61, 8, 9,
     113, 119, 101, 114, 116, 121, 117, 105, 111, 112, 91, 93, 10, 0, 97, 115,
     100, 102, 103, 104, 106, 107, 108, 59, 39, 96, 0, 92, 122, 120, 99, 118,
     98, 110, 109, 44, 46, 47, 0, 42, 0, 32, 0, 0, 0, 0, 0, 0,
     0, 0, 0, 0, 0, 0, 0, 55, 56, 57, 45, 52, 53, 54, 43, 49,
     50, 51, 48, 46, 0, 0, 0, 0]
    [(156, 10), (181, 47), (200, 226), (208, 227), (201, 230), (209, 231), (203, 228), (205, 229), (151, 224), (207, 225), (210, 232), (211, 233)]"

definition shiftmap :: bytes where
  "shiftmap = table
    [0, 27, 33, 64, 35, 36, 37, 94, 38, 42, 40, 41, 95, 43, 8, 9,
     81, 87, 69, 82, 84, 89, 85, 73, 79, 80, 123, 125, 10, 0, 65, 83,
     68, 70, 71, 72, 74, 75, 76, 58, 34, 126, 0, 124, 90, 88, 67, 86,
     66, 78, 77, 60, 62, 63, 0, 42, 0, 32, 0, 0, 0, 0, 0, 0,
     0, 0, 0, 0, 0, 0, 0, 55, 56, 57, 45, 52, 53, 54, 43, 49,
     50, 51, 48, 46, 0, 0, 0, 0]
    [(156, 10), (181, 47), (200, 226), (208, 227), (201, 230), (209, 231), (203, 228), (205, 229), (151, 224), (207, 225), (210, 232), (211, 233)]"

definition ctlmap :: bytes where
  "ctlmap = table
    [0, 0, 0, 0, 0, 0, 0, 0, 0, 0, 0, 0, 0, 0, 0, 0,
     17, 23, 5, 18, 20, 25, 21, 9, 15, 16, 0, 0, 13, 0, 1, 19,
     4, 6, 7, 8, 10, 11, 12, 0, 0, 0, 0, 28, 26, 24, 3, 22,
     2, 14, 13, 0, 0, 239, 0, 0]
    [(156, 13), (181, 239), (200, 226), (208, 227), (201, 230), (209, 231), (203, 228), (205, 229), (151, 224), (207, 225), (210, 232), (211, 233)]"

section \<open>The driver\<close>

definition charcode :: "uint \<Rightarrow> bytes" where
  "charcode i = (if i = 0 then normalmap else if i = 1 then shiftmap else ctlmap)"

text \<open>One scan code: the new \<^verbatim>\<open>shift\<close> and the character returned.\<close>

definition kbdgetc_code :: "uint \<Rightarrow> uchar \<Rightarrow> uint \<times> uchar" where
  "kbdgetc_code shift data =
     (if data = 0xE0 then (shift OR E0ESC, 0)
      else if data AND 0x80 \<noteq> 0
      then let data = (if shift AND E0ESC \<noteq> 0 then data else data AND 0x7F)
           in (shift AND NOT (ucast (shiftcode ! unat data) OR E0ESC), 0)
      else let (data, shift) =
                 (if shift AND E0ESC \<noteq> 0 then (data OR 0x80, shift AND NOT E0ESC) else (data, shift));
               shift = shift OR ucast (shiftcode ! unat data);
               shift = shift XOR ucast (togglecode ! unat data);
               c = charcode (shift AND (CTL OR SHIFT)) ! unat data
           in (shift,
               if shift AND CAPSLOCK \<noteq> 0
               then if 97 \<le> c \<and> c \<le> 122 then c - 32 else if 65 \<le> c \<and> c \<le> 90 then c + 32 else c
               else c))"

text \<open>\<^verbatim>\<open>kbdgetc\<close>: \<open>None\<close> is the result \<open>-1\<close>, when no code is waiting.\<close>

definition kbdgetc :: "uint \<Rightarrow> bytes \<Rightarrow> uchar option \<times> uint \<times> bytes" where
  "kbdgetc shift codes =
     (case codes of
        [] \<Rightarrow> (None, shift, [])
      | data # codes \<Rightarrow> let (shift, c) = kbdgetc_code shift data in (Some c, shift, codes))"

text \<open>The characters \<^verbatim>\<open>consoleintr\<close> gets until there is none: \<open>getc\<close> is called until it fails.\<close>

function kbd_chars :: "uint \<Rightarrow> bytes \<Rightarrow> bytes \<times> uint" where
  "kbd_chars shift codes =
     (case kbdgetc shift codes of
        (None, shift', codes') \<Rightarrow> ([], shift')
      | (Some c, shift', codes') \<Rightarrow> let (cs, shift'') = kbd_chars shift' codes' in (c # cs, shift''))"
  by pat_completeness auto
termination
  by (relation "measure (\<lambda>(shift, codes). length codes)")
    (auto simp: kbdgetc_def split: list.splits prod.splits)

function uart_chars :: "console \<Rightarrow> bytes \<Rightarrow> bytes" where
  "uart_chars s received =
     (case uartgetc s received of
        (None, received') \<Rightarrow> []
      | (Some c, received') \<Rightarrow> c # uart_chars s received')"
  by pat_completeness auto
termination
  by (relation "measure (\<lambda>(s, received). length received)")
    (auto simp: uartgetc_def split: list.splits if_splits)

declare kbd_chars.simps [simp del]
declare uart_chars.simps [simp del]

definition kbdintr :: "bytes \<Rightarrow> uint \<Rightarrow> console \<Rightarrow> (bool \<times> uint \<times> console) res" where
  "kbdintr codes shift s =
     (let (cs, shift) = kbd_chars shift codes
      in rbind (consoleintr cs s) (\<lambda>(doprocdump, s). Inr (doprocdump, shift, s)))"

definition uartintr :: "bytes \<Rightarrow> console \<Rightarrow> (bool \<times> console) res" where
  "uartintr received s = consoleintr (uart_chars s received) s"

section \<open>Pressing and releasing keys\<close>

lemma length_table [simp]: "length first \<le> 256 \<Longrightarrow> length (table first ds) = 256"
proof -
  have "length (fold (\<lambda>(i, v) t. t[i := v]) ds t) = length t" for t :: bytes
    by (induction ds arbitrary: t) auto
  then show "length first \<le> 256 \<Longrightarrow> length (table first ds) = 256"
    by (simp add: table_def)
qed

lemma tables_length [simp]:
  "length shiftcode = 256" "length togglecode = 256" "length normalmap = 256" "length shiftmap = 256" "length ctlmap = 256"
  by (simp_all add: shiftcode_def togglecode_def normalmap_def shiftmap_def ctlmap_def)

lemma charcode_length [simp]: "length (charcode i) = 256"
  by (simp add: charcode_def)

lemma shiftcode_values: "i < 256 \<Longrightarrow> shiftcode ! i \<in> {0, 1, 2, 4}"
  by (simp add: shiftcode_def table_def nth_list_update)

lemma togglecode_values: "i < 256 \<Longrightarrow> togglecode ! i \<in> {0, 8, 16, 32}"
  by (simp add: togglecode_def table_def nth_list_update)

lemma and_bits: "x AND y = 0 \<Longrightarrow> \<not> (bit x n \<and> bit y n)" for x y :: "'a::len word"
  by (metis bit_0_eq bit_and_iff bot_apply bot_bool_def)

lemma release_mask:
  fixes shift sc tc esc :: uint
  assumes "shift AND sc = 0" and "shift AND esc = 0" and "tc AND sc = 0" and "tc AND esc = 0"
  shows "((shift OR sc) XOR tc) AND NOT (sc OR esc) = shift XOR tc"
  using assms [THEN and_bits] by (intro bit_word_eqI) (auto simp: bit_simps)

lemma press_mask:
  fixes shift sc tc esc :: uint
  assumes "shift AND esc = 0" and "sc AND esc = 0" and "tc AND esc = 0"
  shows "((shift OR sc) XOR tc) AND esc = 0"
  using assms [THEN and_bits] by (intro bit_word_eqI) (auto simp: bit_simps)

lemma code_masks:
  assumes "i < 256"
  shows "(ucast (togglecode ! i) :: uint) AND ucast (shiftcode ! i) = 0"
    and "(ucast (shiftcode ! i) :: uint) AND E0ESC = 0" and "(ucast (togglecode ! i) :: uint) AND E0ESC = 0"
  using shiftcode_values [OF assms] togglecode_values [OF assms] by auto

lemma kbd_press:
  assumes "data AND 0x80 = 0" and "shift AND E0ESC = 0"
  shows "fst (kbdgetc_code shift data) = (shift OR ucast (shiftcode ! unat data)) XOR ucast (togglecode ! unat data)"
proof -
  have "data \<noteq> 0xE0"
    using assms(1) by auto
  then show ?thesis
    using assms by (simp add: kbdgetc_code_def Let_def)
qed

lemma kbd_release:
  assumes "d \<noteq> 0xE0" and "d AND 0x80 \<noteq> 0" and "shift AND E0ESC = 0"
  shows "kbdgetc_code shift d = (shift AND NOT (ucast (shiftcode ! unat (d AND 0x7F)) OR E0ESC), 0)"
  using assms by (simp add: kbdgetc_code_def Let_def)



end
