(* ===== verification/Fs.thy ===== *)
theory Fs
  imports Log_Crash Memory
begin

text \<open>
  The file system \<^verbatim>\<open>fs.c\<close> over the log: blocks, inodes and their contents, directories and path
  names, with the on-disk structures of \<^verbatim>\<open>fs.h\<close> at the level of bytes. Its in-memory state, the
  super block and the inode cache, extends the state of the log. An inode pointer is its index
  in \<^verbatim>\<open>icache.inode\<close>. Functions that read into or write from a buffer of the caller return or
  take the bytes. Loop counters are naturals; on a disk of fewer than \<open>2 ^ 31\<close> blocks the C ints
  hold the same values.
\<close>

section \<open>On-disk structures\<close>

abbreviation ROOTINO :: uint where "ROOTINO \<equiv> 1"
abbreviation ROOTDEV :: uint where "ROOTDEV \<equiv> 1"
abbreviation NDIRECT :: nat where "NDIRECT \<equiv> 12"
abbreviation NINDIRECT :: nat where "NINDIRECT \<equiv> 128"
abbreviation MAXFILE :: nat where "MAXFILE \<equiv> 140"
abbreviation IPB :: nat where "IPB \<equiv> 8"
abbreviation BPB :: nat where "BPB \<equiv> 4096"
abbreviation DIRSIZ :: nat where "DIRSIZ \<equiv> 14"
abbreviation DIRENT :: nat where "DIRENT \<equiv> 16"
abbreviation NINODE :: nat where "NINODE \<equiv> 50"
abbreviation NDEV :: nat where "NDEV \<equiv> 10"
abbreviation T_DIR :: ushort where "T_DIR \<equiv> 1"
abbreviation T_FILE :: ushort where "T_FILE \<equiv> 2"
abbreviation T_DEV :: ushort where "T_DEV \<equiv> 3"

record dinode =
  dtype :: ushort
  dmajor :: ushort
  dminor :: ushort
  dnlink :: ushort
  dsize :: uint
  daddrs :: "uint list"

definition IBLOCK :: "uint \<Rightarrow> superblock \<Rightarrow> uint" where
  "IBLOCK i sb = of_nat (unat i div IPB) + inodestart sb"

definition BBLOCK :: "uint \<Rightarrow> superblock \<Rightarrow> uint" where
  "BBLOCK b sb = of_nat (unat b div BPB) + bmapstart sb"

text \<open>The inode at byte offset \<open>o1\<close> of a block, 64 bytes.\<close>

definition get_dinode :: "bytes \<Rightarrow> nat \<Rightarrow> dinode" where
  "get_dinode d o1 =
     \<lparr>dtype = get16 d o1, dmajor = get16 d (o1 + 2), dminor = get16 d (o1 + 4), dnlink = get16 d (o1 + 6),
      dsize = get32 d (o1 + 8), daddrs = map (\<lambda>k. get32 d (o1 + 12 + 4 * k)) [0..<NDIRECT + 1]\<rparr>"

definition put_dinode :: "bytes \<Rightarrow> nat \<Rightarrow> dinode \<Rightarrow> bytes" where
  "put_dinode d o1 di =
     (let d = put16 d o1 (dtype di);
          d = put16 d (o1 + 2) (dmajor di);
          d = put16 d (o1 + 4) (dminor di);
          d = put16 d (o1 + 6) (dnlink di);
          d = put32 d (o1 + 8) (dsize di)
      in fold (\<lambda>k d. put32 d (o1 + 12 + 4 * k) (daddrs di ! k)) [0..<NDIRECT + 1] d)"

definition dinode_off :: "uint \<Rightarrow> nat" where
  "dinode_off inum = 64 * (unat inum mod IPB)"

text \<open>A directory entry: a 16-bit inode number and the name, padded with zeros.\<close>

definition de_inum :: "bytes \<Rightarrow> ushort" where
  "de_inum de = get16 de 0"

definition de_name :: "bytes \<Rightarrow> bytes" where
  "de_name de = drop 2 de"

definition mk_dirent :: "ushort \<Rightarrow> bytes \<Rightarrow> bytes" where
  "mk_dirent inum name = [byte_of 0 inum, byte_of 1 inum] @ pad_name DIRSIZ (take DIRSIZ name)"

section \<open>State\<close>

record inode =
  idev :: uint
  inum :: uint
  iref :: int
  isleep :: sleeplock
  ivalid :: bool
  itype :: ushort
  imajor :: ushort
  iminor :: ushort
  inlink :: ushort
  isize :: uint
  iaddrs :: "uint list"

record fs_sys = log_sys +
  sb :: superblock
  inodes :: "nat \<Rightarrow> inode"

definition set_inode :: "nat \<Rightarrow> inode \<Rightarrow> 'a fs_sys_scheme \<Rightarrow> 'a fs_sys_scheme" where
  "set_inode ip i s = s\<lparr>inodes := (inodes s)(ip := i)\<rparr>"

section \<open>Blocks\<close>

definition bzero :: "uint \<Rightarrow> uint \<Rightarrow> 'a fs_sys_scheme \<Rightarrow> 'a fs_sys_scheme res" where
  "bzero dev bno s =
     rbind (bread dev bno s) (\<lambda>(bp, s).
     let s = set_data bp (replicate BSIZE 0) s in
     rbind (log_write bp s) (\<lambda>s.
     brelse bp s))"

definition bit_free :: "bytes \<Rightarrow> nat \<Rightarrow> bool" where
  "bit_free d bi \<longleftrightarrow> d ! (bi div 8) AND push_bit (bi mod 8) 1 = 0"

definition bit_set :: "nat \<Rightarrow> bytes \<Rightarrow> bytes" where
  "bit_set bi d = d[bi div 8 := d ! (bi div 8) OR push_bit (bi mod 8) 1]"

definition bit_clear :: "nat \<Rightarrow> bytes \<Rightarrow> bytes" where
  "bit_clear bi d = d[bi div 8 := d ! (bi div 8) AND NOT (push_bit (bi mod 8) 1)]"

text \<open>The scan of one bitmap block that starts at block \<open>b\<close>: the first free bit.\<close>

definition balloc_scan :: "bytes \<Rightarrow> nat \<Rightarrow> nat \<Rightarrow> nat option" where
  "balloc_scan d b sz = find (bit_free d) [0..<min BPB (sz - b)]"

function balloc_from :: "nat \<Rightarrow> nat \<Rightarrow> uint \<Rightarrow> 'a fs_sys_scheme \<Rightarrow> (uint \<times> 'a fs_sys_scheme) res" where
  "balloc_from sz b dev s =
     (if b < sz
      then rbind (bread dev (BBLOCK (of_nat b) (sb s)) s) (\<lambda>(bp, s).
           case balloc_scan (bdata (bufs s bp)) b sz of
             Some bi \<Rightarrow>
               let s = set_data bp (bit_set bi (bdata (bufs s bp))) s in
               rbind (log_write bp s) (\<lambda>s.
               rbind (brelse bp s) (\<lambda>s.
               rbind (bzero dev (of_nat (b + bi)) s) (\<lambda>s.
               Inr (of_nat (b + bi), s))))
           | None \<Rightarrow> rbind (brelse bp s) (balloc_from sz (b + BPB) dev))
      else Inl (Panic ''balloc: out of blocks''))"
  by pat_completeness auto
termination
  by (relation "measure (\<lambda>(sz, b, dev, s). sz - b)") auto

declare balloc_from.simps [simp del]

definition balloc :: "uint \<Rightarrow> 'a fs_sys_scheme \<Rightarrow> (uint \<times> 'a fs_sys_scheme) res" where
  "balloc dev s = balloc_from (unat (sb_size (sb s))) 0 dev s"

definition bfree :: "uint \<Rightarrow> uint \<Rightarrow> 'a fs_sys_scheme \<Rightarrow> 'a fs_sys_scheme res" where
  "bfree dev b s =
     rbind (readsb dev s) (\<lambda>(sb', s).
     let s = s\<lparr>sb := sb'\<rparr> in
     rbind (bread dev (BBLOCK b (sb s)) s) (\<lambda>(bp, s).
     let bi = unat b mod BPB in
     if bit_free (bdata (bufs s bp)) bi then Inl (Panic ''freeing free block'')
     else let s = set_data bp (bit_clear bi (bdata (bufs s bp))) s in
          rbind (log_write bp s) (\<lambda>s.
          brelse bp s)))"

section \<open>Inodes\<close>

text \<open>\<^verbatim>\<open>iinit\<close> also prints the super block.\<close>

definition iinit :: "uint \<Rightarrow> 'a fs_sys_scheme \<Rightarrow> 'a fs_sys_scheme res" where
  "iinit dev s =
     (let s = s\<lparr>inodes := \<lambda>i. if i < NINODE then (inodes s i)\<lparr>isleep := initsleeplock ''inode''\<rparr> else inodes s i\<rparr>
      in rbind (readsb dev s) (\<lambda>(sb', s). Inr (s\<lparr>sb := sb'\<rparr>)))"

text \<open>The scan of \<^verbatim>\<open>iget\<close>: the cached entry, or the first entry without references.\<close>

fun iget_scan :: "(nat \<Rightarrow> inode) \<Rightarrow> uint \<Rightarrow> uint \<Rightarrow> nat list \<Rightarrow> nat option \<Rightarrow> nat option \<times> nat option" where
  "iget_scan is dev i [] free = (None, free)"
| "iget_scan is dev i (ip # ips) free =
     (if 0 < iref (is ip) \<and> idev (is ip) = dev \<and> inum (is ip) = i then (Some ip, free)
      else iget_scan is dev i ips (if free = None \<and> iref (is ip) = 0 then Some ip else free))"

definition iget :: "uint \<Rightarrow> uint \<Rightarrow> 'a fs_sys_scheme \<Rightarrow> (nat \<times> 'a fs_sys_scheme) res" where
  "iget dev i s =
     (case iget_scan (inodes s) dev i [0..<NINODE] None of
        (Some ip, _) \<Rightarrow> Inr (ip, set_inode ip ((inodes s ip)\<lparr>iref := iref (inodes s ip) + 1\<rparr>) s)
      | (None, None) \<Rightarrow> Inl (Panic ''iget: no inodes'')
      | (None, Some ip) \<Rightarrow>
          Inr (ip, set_inode ip ((inodes s ip)\<lparr>idev := dev, inum := i, iref := 1, ivalid := False\<rparr>) s))"

definition idup :: "nat \<Rightarrow> 'a fs_sys_scheme \<Rightarrow> nat \<times> 'a fs_sys_scheme" where
  "idup ip s = (ip, set_inode ip ((inodes s ip)\<lparr>iref := iref (inodes s ip) + 1\<rparr>) s)"

function ialloc_from :: "nat \<Rightarrow> nat \<Rightarrow> uint \<Rightarrow> ushort \<Rightarrow> 'a fs_sys_scheme \<Rightarrow> (nat \<times> 'a fs_sys_scheme) res" where
  "ialloc_from n i dev type s =
     (if i < n
      then rbind (bread dev (IBLOCK (of_nat i) (sb s)) s) (\<lambda>(bp, s).
           let o1 = dinode_off (of_nat i); d = bdata (bufs s bp) in
           if dtype (get_dinode d o1) = 0
           then let s = set_data bp (put16 (blit d o1 (replicate 64 0)) o1 type) s in
                rbind (log_write bp s) (\<lambda>s.
                rbind (brelse bp s) (\<lambda>s.
                iget dev (of_nat i) s))
           else rbind (brelse bp s) (ialloc_from n (Suc i) dev type))
      else Inl (Panic ''ialloc: no inodes''))"
  by pat_completeness auto
termination
  by (relation "measure (\<lambda>(n, i, dev, type, s). n - i)") auto

declare ialloc_from.simps [simp del]

definition ialloc :: "uint \<Rightarrow> ushort \<Rightarrow> 'a fs_sys_scheme \<Rightarrow> (nat \<times> 'a fs_sys_scheme) res" where
  "ialloc dev type s = ialloc_from (unat (ninodes (sb s))) 1 dev type s"

text \<open>The on-disk copy of an in-memory inode.\<close>

definition dinode_of :: "inode \<Rightarrow> dinode" where
  "dinode_of i = \<lparr>dtype = itype i, dmajor = imajor i, dminor = iminor i, dnlink = inlink i,
     dsize = isize i, daddrs = iaddrs i\<rparr>"

definition iupdate :: "nat \<Rightarrow> 'a fs_sys_scheme \<Rightarrow> 'a fs_sys_scheme res" where
  "iupdate ip s =
     rbind (bread (idev (inodes s ip)) (IBLOCK (inum (inodes s ip)) (sb s)) s) (\<lambda>(bp, s).
     let s = set_data bp (put_dinode (bdata (bufs s bp)) (dinode_off (inum (inodes s ip))) (dinode_of (inodes s ip))) s in
     rbind (log_write bp s) (\<lambda>s.
     brelse bp s))"

definition ilock :: "nat \<Rightarrow> 'a fs_sys_scheme \<Rightarrow> 'a fs_sys_scheme res" where
  "ilock ip s =
     (if iref (inodes s ip) < 1 then Inl (Panic ''ilock'')
      else rbind (acquiresleep (curpid s) (isleep (inodes s ip))) (\<lambda>lk.
        let s = set_inode ip ((inodes s ip)\<lparr>isleep := lk\<rparr>) s in
        if ivalid (inodes s ip) then Inr s
        else rbind (bread (idev (inodes s ip)) (IBLOCK (inum (inodes s ip)) (sb s)) s) (\<lambda>(bp, s).
             let di = get_dinode (bdata (bufs s bp)) (dinode_off (inum (inodes s ip)));
                 s = set_inode ip ((inodes s ip)\<lparr>itype := dtype di, imajor := dmajor di, iminor := dminor di,
                       inlink := dnlink di, isize := dsize di, iaddrs := daddrs di\<rparr>) s in
             rbind (brelse bp s) (\<lambda>s.
             let s = set_inode ip ((inodes s ip)\<lparr>ivalid := True\<rparr>) s in
             if itype (inodes s ip) = 0 then Inl (Panic ''ilock: no type'') else Inr s))))"

definition iunlock :: "nat \<Rightarrow> 'a fs_sys_scheme \<Rightarrow> 'a fs_sys_scheme res" where
  "iunlock ip s =
     (if \<not> holdingsleep (curpid s) (isleep (inodes s ip)) \<or> iref (inodes s ip) < 1 then Inl (Panic ''iunlock'')
      else Inr (set_inode ip ((inodes s ip)\<lparr>isleep := releasesleep (isleep (inodes s ip))\<rparr>) s))"

section \<open>Inode contents\<close>

text \<open>\<^verbatim>\<open>bmap\<close>: the disk block of the \<open>bn\<close>th block of an inode, allocated if there is none.\<close>

definition bmap_direct :: "nat \<Rightarrow> nat \<Rightarrow> 'a fs_sys_scheme \<Rightarrow> (uint \<times> 'a fs_sys_scheme) res" where
  "bmap_direct ip k s =
     (let addr = iaddrs (inodes s ip) ! k in
      if addr = 0
      then rbind (balloc (idev (inodes s ip)) s) (\<lambda>(addr, s).
           Inr (addr, set_inode ip ((inodes s ip)\<lparr>iaddrs := (iaddrs (inodes s ip))[k := addr]\<rparr>) s))
      else Inr (addr, s))"

definition bmap :: "nat \<Rightarrow> uint \<Rightarrow> 'a fs_sys_scheme \<Rightarrow> (uint \<times> 'a fs_sys_scheme) res" where
  "bmap ip bn s =
     (if unat bn < NDIRECT then bmap_direct ip (unat bn) s
      else if unat bn - NDIRECT < NINDIRECT
      then let k = unat bn - NDIRECT in
           rbind (bmap_direct ip NDIRECT s) (\<lambda>(addr, s).
           rbind (bread (idev (inodes s ip)) addr s) (\<lambda>(bp, s).
           let addr = get32 (bdata (bufs s bp)) (4 * k) in
           if addr = 0
           then rbind (balloc (idev (inodes s ip)) s) (\<lambda>(addr, s).
                let s = set_data bp (put32 (bdata (bufs s bp)) (4 * k) addr) s in
                rbind (log_write bp s) (\<lambda>s.
                rbind (brelse bp s) (\<lambda>s. Inr (addr, s))))
           else rbind (brelse bp s) (\<lambda>s. Inr (addr, s))))
      else Inl (Panic ''bmap: out of range''))"

definition itrunc_direct :: "nat \<Rightarrow> nat \<Rightarrow> 'a fs_sys_scheme \<Rightarrow> 'a fs_sys_scheme res" where
  "itrunc_direct ip i s =
     (if iaddrs (inodes s ip) ! i \<noteq> 0
      then rbind (bfree (idev (inodes s ip)) (iaddrs (inodes s ip) ! i) s) (\<lambda>s.
           Inr (set_inode ip ((inodes s ip)\<lparr>iaddrs := (iaddrs (inodes s ip))[i := 0]\<rparr>) s))
      else Inr s)"

definition itrunc :: "nat \<Rightarrow> 'a fs_sys_scheme \<Rightarrow> 'a fs_sys_scheme res" where
  "itrunc ip s =
     rbind (for_each (itrunc_direct ip) [0..<NDIRECT] s) (\<lambda>s.
     rbind
       (if iaddrs (inodes s ip) ! NDIRECT \<noteq> 0
        then rbind (bread (idev (inodes s ip)) (iaddrs (inodes s ip) ! NDIRECT) s) (\<lambda>(bp, s).
             rbind (for_each (\<lambda>j s. let a = get32 (bdata (bufs s bp)) (4 * j) in
                       if a \<noteq> 0 then bfree (idev (inodes s ip)) a s else Inr s) [0..<NINDIRECT] s) (\<lambda>s.
             rbind (brelse bp s) (\<lambda>s.
             rbind (bfree (idev (inodes s ip)) (iaddrs (inodes s ip) ! NDIRECT) s) (\<lambda>s.
             Inr (set_inode ip ((inodes s ip)\<lparr>iaddrs := (iaddrs (inodes s ip))[NDIRECT := 0]\<rparr>) s)))))
        else Inr s) (\<lambda>s.
     iupdate ip (set_inode ip ((inodes s ip)\<lparr>isize := 0\<rparr>) s)))"

definition iput :: "nat \<Rightarrow> 'a fs_sys_scheme \<Rightarrow> 'a fs_sys_scheme res" where
  "iput ip s =
     rbind (acquiresleep (curpid s) (isleep (inodes s ip))) (\<lambda>lk.
     let s = set_inode ip ((inodes s ip)\<lparr>isleep := lk\<rparr>) s in
     rbind
       (if ivalid (inodes s ip) \<and> inlink (inodes s ip) = 0 \<and> iref (inodes s ip) = 1
        then rbind (itrunc ip s) (\<lambda>s.
             rbind (iupdate ip (set_inode ip ((inodes s ip)\<lparr>itype := 0\<rparr>) s)) (\<lambda>s.
             Inr (set_inode ip ((inodes s ip)\<lparr>ivalid := False\<rparr>) s)))
        else Inr s) (\<lambda>s.
     Inr (set_inode ip ((inodes s ip)\<lparr>isleep := releasesleep (isleep (inodes s ip)),
            iref := iref (inodes s ip) - 1\<rparr>) s)))"

definition iunlockput :: "nat \<Rightarrow> 'a fs_sys_scheme \<Rightarrow> 'a fs_sys_scheme res" where
  "iunlockput ip s = rbind (iunlock ip s) (iput ip)"

record stat =
  st_type :: ushort
  st_dev :: uint
  st_ino :: uint
  st_nlink :: ushort
  st_size :: uint

definition stati :: "nat \<Rightarrow> 'a fs_sys_scheme \<Rightarrow> stat" where
  "stati ip s = (let i = inodes s ip in
     \<lparr>st_type = itype i, st_dev = idev i, st_ino = inum i, st_nlink = inlink i, st_size = isize i\<rparr>)"

text \<open>
  The device switch \<^verbatim>\<open>devsw\<close> is an argument: it gives the read or write routine of a major
  number, if there is one. The loops copy the part of one block per round; \<open>n\<close> is what is left.
\<close>

type_synonym 'a dev_read = "nat \<Rightarrow> (nat \<Rightarrow> uint \<Rightarrow> 'a fs_sys_scheme \<Rightarrow> (int \<times> bytes \<times> 'a fs_sys_scheme) res) option"
type_synonym 'a dev_write = "nat \<Rightarrow> (nat \<Rightarrow> bytes \<Rightarrow> 'a fs_sys_scheme \<Rightarrow> (int \<times> 'a fs_sys_scheme) res) option"

function readi_loop :: "nat \<Rightarrow> nat \<Rightarrow> nat \<Rightarrow> 'a fs_sys_scheme \<Rightarrow> (bytes \<times> 'a fs_sys_scheme) res" where
  "readi_loop ip off n s =
     (if 0 < n
      then rbind (bmap ip (of_nat (off div BSIZE)) s) (\<lambda>(addr, s).
           rbind (bread (idev (inodes s ip)) addr s) (\<lambda>(bp, s).
           let m = min n (BSIZE - off mod BSIZE);
               part = take m (drop (off mod BSIZE) (bdata (bufs s bp))) in
           rbind (brelse bp s) (\<lambda>s.
           rbind (readi_loop ip (off + m) (n - m) s) (\<lambda>(rest, s). Inr (part @ rest, s)))))
      else Inr ([], s))"
  by pat_completeness auto
termination
  by (relation "measure (\<lambda>(ip, off, n, s). n)") auto

declare readi_loop.simps [simp del]

definition readi :: "'a dev_read \<Rightarrow> nat \<Rightarrow> uint \<Rightarrow> uint \<Rightarrow> 'a fs_sys_scheme \<Rightarrow> (int \<times> bytes \<times> 'a fs_sys_scheme) res" where
  "readi devsw ip off n s =
     (let i = inodes s ip in
      if itype i = T_DEV
      then if sint (imajor i) < 0 \<or> int NDEV \<le> sint (imajor i) then Inr (- 1, [], s)
           else (case devsw (unat (imajor i)) of None \<Rightarrow> Inr (- 1, [], s) | Some rd \<Rightarrow> rd ip n s)
      else if isize i < off \<or> off + n < off then Inr (- 1, [], s)
      else let n = (if isize i < off + n then isize i - off else n) in
           rbind (readi_loop ip (unat off) (unat n) s) (\<lambda>(bs, s). Inr (int (unat n), bs, s)))"

function writei_loop :: "nat \<Rightarrow> nat \<Rightarrow> bytes \<Rightarrow> 'a fs_sys_scheme \<Rightarrow> 'a fs_sys_scheme res" where
  "writei_loop ip off src s =
     (if 0 < length src
      then rbind (bmap ip (of_nat (off div BSIZE)) s) (\<lambda>(addr, s).
           rbind (bread (idev (inodes s ip)) addr s) (\<lambda>(bp, s).
           let m = min (length src) (BSIZE - off mod BSIZE);
               s = set_data bp (blit (bdata (bufs s bp)) (off mod BSIZE) (take m src)) s in
           rbind (log_write bp s) (\<lambda>s.
           rbind (brelse bp s) (\<lambda>s.
           writei_loop ip (off + m) (drop m src) s))))
      else Inr s)"
  by pat_completeness auto
termination
  by (relation "measure (\<lambda>(ip, off, src, s). length src)") auto

declare writei_loop.simps [simp del]

definition writei :: "'a dev_write \<Rightarrow> nat \<Rightarrow> bytes \<Rightarrow> uint \<Rightarrow> 'a fs_sys_scheme \<Rightarrow> (int \<times> 'a fs_sys_scheme) res" where
  "writei devsw ip src off s =
     (let i = inodes s ip; n = of_nat (length src) in
      if itype i = T_DEV
      then if sint (imajor i) < 0 \<or> int NDEV \<le> sint (imajor i) then Inr (- 1, s)
           else (case devsw (unat (imajor i)) of None \<Rightarrow> Inr (- 1, s) | Some wr \<Rightarrow> wr ip src s)
      else if isize i < off \<or> off + n < off then Inr (- 1, s)
      else if of_nat (MAXFILE * BSIZE) < off + n then Inr (- 1, s)
      else rbind (writei_loop ip (unat off) src s) (\<lambda>s.
           if 0 < n \<and> isize (inodes s ip) < off + n
           then rbind (iupdate ip (set_inode ip ((inodes s ip)\<lparr>isize := off + n\<rparr>) s)) (\<lambda>s. Inr (int (length src), s))
           else Inr (int (length src), s)))"

section \<open>Directories\<close>

text \<open>The bytes of a name as a C string.\<close>

definition bstr :: "bytes \<Rightarrow> nat \<Rightarrow> uchar" where
  "bstr cs i = (if i < length cs then cs ! i else 0)"

definition namecmp :: "bytes \<Rightarrow> bytes \<Rightarrow> int" where
  "namecmp s t = strncmp (bstr s) (bstr t) (of_nat DIRSIZ)"

text \<open>
  Directories are read and written with no device routines: their type was just checked, so the
  device branch of \<^verbatim>\<open>readi\<close> and \<^verbatim>\<open>writei\<close> is not taken. The result of
  \<^verbatim>\<open>dirlookup\<close> is the inode with the offset of its entry. \<open>sz\<close> is \<^verbatim>\<open>dp->size\<close>.
\<close>

function dirlookup_from :: "nat \<Rightarrow> nat \<Rightarrow> bytes \<Rightarrow> nat \<Rightarrow> 'a fs_sys_scheme \<Rightarrow> ((nat \<times> uint) option \<times> 'a fs_sys_scheme) res" where
  "dirlookup_from sz dp name off s =
     (if off < sz
      then rbind (readi (\<lambda>_. None) dp (of_nat off) (of_nat DIRENT) s) (\<lambda>(r, de, s).
           if r \<noteq> int DIRENT then Inl (Panic ''dirlookup read'')
           else if de_inum de \<noteq> 0 \<and> namecmp name (de_name de) = 0
           then rbind (iget (idev (inodes s dp)) (ucast (de_inum de)) s) (\<lambda>(ip, s). Inr (Some (ip, of_nat off), s))
           else dirlookup_from sz dp name (off + DIRENT) s)
      else Inr (None, s))"
  by pat_completeness auto
termination
  by (relation "measure (\<lambda>(sz, dp, name, off, s). sz - off)") auto

declare dirlookup_from.simps [simp del]

definition dirlookup :: "nat \<Rightarrow> bytes \<Rightarrow> 'a fs_sys_scheme \<Rightarrow> ((nat \<times> uint) option \<times> 'a fs_sys_scheme) res" where
  "dirlookup dp name s =
     (if itype (inodes s dp) \<noteq> T_DIR then Inl (Panic ''dirlookup not DIR'')
      else dirlookup_from (unat (isize (inodes s dp))) dp name 0 s)"

function dirlink_slot :: "nat \<Rightarrow> nat \<Rightarrow> nat \<Rightarrow> 'a fs_sys_scheme \<Rightarrow> (nat \<times> 'a fs_sys_scheme) res" where
  "dirlink_slot sz dp off s =
     (if off < sz
      then rbind (readi (\<lambda>_. None) dp (of_nat off) (of_nat DIRENT) s) (\<lambda>(r, de, s).
           if r \<noteq> int DIRENT then Inl (Panic ''dirlink read'')
           else if de_inum de = 0 then Inr (off, s)
           else dirlink_slot sz dp (off + DIRENT) s)
      else Inr (off, s))"
  by pat_completeness auto
termination
  by (relation "measure (\<lambda>(sz, dp, off, s). sz - off)") auto

declare dirlink_slot.simps [simp del]

definition dirlink :: "nat \<Rightarrow> bytes \<Rightarrow> uint \<Rightarrow> 'a fs_sys_scheme \<Rightarrow> (int \<times> 'a fs_sys_scheme) res" where
  "dirlink dp name i s =
     rbind (dirlookup dp name s) (\<lambda>(r, s).
     case r of
       Some (ip, _) \<Rightarrow> rbind (iput ip s) (\<lambda>s. Inr (- 1, s))
     | None \<Rightarrow>
         rbind (dirlink_slot (unat (isize (inodes s dp))) dp 0 s) (\<lambda>(off, s).
         rbind (writei (\<lambda>_. None) dp (mk_dirent (ucast i) name) (of_nat off) s) (\<lambda>(r, s).
         if r \<noteq> int DIRENT then Inl (Panic ''dirlink'') else Inr (0, s))))"

section \<open>Paths\<close>

text \<open>
  A path is the list of its characters before the terminating zero. The name is the element cut to
  \<^verbatim>\<open>DIRSIZ\<close> characters: what follows it in the caller's array is never read.
\<close>

definition skipelem :: "bytes \<Rightarrow> (bytes \<times> bytes) option" where
  "skipelem path =
     (let path = dropWhile (\<lambda>c. c = 47) path in
      if path = [] then None
      else let s = takeWhile (\<lambda>c. c \<noteq> 47) path;
               path = dropWhile (\<lambda>c. c \<noteq> 47) path;
               name = (if DIRSIZ \<le> length s then take DIRSIZ s else s)
           in Some (dropWhile (\<lambda>c. c = 47) path, name))"

lemma skipelem_shorter:
  assumes "skipelem path = Some (rest, name)"
  shows "length rest < length path"
proof -
  let ?p = "dropWhile (\<lambda>c. c = 47) path"
  have ne: "?p \<noteq> []" and rest: "rest = dropWhile (\<lambda>c. c = 47) (dropWhile (\<lambda>c. c \<noteq> 47) ?p)"
    using assms by (auto simp: skipelem_def Let_def split: if_splits)
  obtain c q where p: "?p = c # q"
    using ne by (cases ?p) auto
  then have "c \<noteq> 47"
    using hd_dropWhile [OF ne] by simp
  then have "length rest \<le> length q"
    unfolding rest p using length_dropWhile_le [of "\<lambda>c. c = 47" "dropWhile (\<lambda>c. c \<noteq> 47) q"]
      length_dropWhile_le [of "\<lambda>c. c \<noteq> 47" q] by simp
  moreover have "length q < length path"
    using length_dropWhile_le [of "\<lambda>c. c = 47" path] p by simp
  ultimately show ?thesis
    by simp
qed

text \<open>
  \<^verbatim>\<open>namex\<close>: the loop holds a reference to \<open>ip\<close>; the last component is the last
  element that was read, which \<^verbatim>\<open>nameiparent\<close> returns to its caller.
\<close>

function namex_loop :: "bool \<Rightarrow> bytes \<Rightarrow> nat \<Rightarrow> bytes \<Rightarrow> 'a fs_sys_scheme \<Rightarrow> (nat option \<times> bytes \<times> 'a fs_sys_scheme) res" where
  "namex_loop parent path ip name s =
     (case skipelem path of
        None \<Rightarrow>
          if parent then rbind (iput ip s) (\<lambda>s. Inr (None, name, s)) else Inr (Some ip, name, s)
      | Some (path', name) \<Rightarrow>
          rbind (ilock ip s) (\<lambda>s.
          if itype (inodes s ip) \<noteq> T_DIR then rbind (iunlockput ip s) (\<lambda>s. Inr (None, name, s))
          else if parent \<and> path' = [] then rbind (iunlock ip s) (\<lambda>s. Inr (Some ip, name, s))
          else rbind (dirlookup ip name s) (\<lambda>(next, s).
               rbind (iunlockput ip s) (\<lambda>s.
               case next of
                 None \<Rightarrow> Inr (None, name, s)
               | Some (ip', _) \<Rightarrow> namex_loop parent path' ip' name s))))"
  by pat_completeness auto
termination
  by (relation "measure (\<lambda>(parent, path, ip, name, s). length path)") (auto dest: skipelem_shorter)

declare namex_loop.simps [simp del]

text \<open>\<open>cwd\<close> is \<^verbatim>\<open>myproc()->cwd\<close>.\<close>

definition namex :: "nat \<Rightarrow> bool \<Rightarrow> bytes \<Rightarrow> 'a fs_sys_scheme \<Rightarrow> (nat option \<times> bytes \<times> 'a fs_sys_scheme) res" where
  "namex cwd parent path s =
     rbind (if path \<noteq> [] \<and> hd path = 47 then iget ROOTDEV ROOTINO s else Inr (idup cwd s)) (\<lambda>(ip, s).
     namex_loop parent path ip [] s)"

definition namei :: "nat \<Rightarrow> bytes \<Rightarrow> 'a fs_sys_scheme \<Rightarrow> (nat option \<times> 'a fs_sys_scheme) res" where
  "namei cwd path s = rbind (namex cwd False path s) (\<lambda>(ip, _, s). Inr (ip, s))"

definition nameiparent :: "nat \<Rightarrow> bytes \<Rightarrow> 'a fs_sys_scheme \<Rightarrow> (nat option \<times> bytes \<times> 'a fs_sys_scheme) res" where
  "nameiparent cwd path s = namex cwd True path s"

end
