(* ===== verification/Pipe.thy ===== *)
theory Pipe
  imports Ring
begin

text \<open>
  The data path of \<^verbatim>\<open>pipe.c\<close>. A call of \<^verbatim>\<open>pipewrite\<close> or \<^verbatim>\<open>piperead\<close> runs
  until it returns or goes to sleep; a call that sleeps resumes where it slept, with the pipe as
  other processes left it. Opening and closing pipes is in the theory of the file table.
\<close>

abbreviation PIPESIZE :: nat where "PIPESIZE \<equiv> 512"

record pipe =
  pdata :: bytes
  nread :: uint
  nwrite :: uint
  readopen :: bool
  writeopen :: bool

text \<open>How a call leaves the pipe: it returned a value, or it sleeps.\<close>

datatype 'a pipe_out = Ret int 'a pipe | Block 'a pipe

text \<open>
  \<^verbatim>\<open>pipewrite\<close> from index \<open>i\<close> of the caller's bytes on; \<open>killed\<close> is
  \<^verbatim>\<open>myproc()->killed\<close>. The third component counts the bytes written so far.
\<close>

function pipewrite_from :: "bool \<Rightarrow> bytes \<Rightarrow> nat \<Rightarrow> pipe \<Rightarrow> nat pipe_out" where
  "pipewrite_from killed addr i p =
     (if i < length addr
      then if nwrite p = nread p + of_nat PIPESIZE
           then if \<not> readopen p \<or> killed then Ret (- 1) i p else Block i p
           else pipewrite_from killed addr (Suc i)
                  (p\<lparr>pdata := (pdata p)[slot PIPESIZE (nwrite p) := addr ! i], nwrite := nwrite p + 1\<rparr>)
      else Ret (int (length addr)) i p)"
  by pat_completeness auto
termination
  by (relation "measure (\<lambda>(killed, addr, i, p). length addr - i)") auto

declare pipewrite_from.simps [simp del]

definition pipewrite :: "bool \<Rightarrow> bytes \<Rightarrow> pipe \<Rightarrow> nat pipe_out" where
  "pipewrite killed addr p = pipewrite_from killed addr 0 p"

fun piperead_copy :: "nat \<Rightarrow> pipe \<Rightarrow> bytes \<times> pipe" where
  "piperead_copy 0 p = ([], p)"
| "piperead_copy (Suc n) p =
     (if nread p = nwrite p then ([], p)
      else let c = pdata p ! slot PIPESIZE (nread p);
               (cs, p') = piperead_copy n (p\<lparr>nread := nread p + 1\<rparr>)
           in (c # cs, p'))"

definition piperead :: "bool \<Rightarrow> int \<Rightarrow> pipe \<Rightarrow> bytes pipe_out" where
  "piperead killed n p =
     (if nread p = nwrite p \<and> writeopen p
      then if killed then Ret (- 1) [] p else Block [] p
      else let (cs, p') = piperead_copy (nat n) p in Ret (int (length cs)) cs p')"

section \<open>The pipe as a queue\<close>

interpretation pr: ring_buffer PIPESIZE
  by unfold_locales simp_all

definition contents :: "pipe \<Rightarrow> bytes" where
  "contents p = ring_list PIPESIZE (pdata p) (nread p) (nwrite p)"

definition pipe_ok :: "pipe \<Rightarrow> bool" where
  "pipe_ok p \<longleftrightarrow> length (pdata p) = PIPESIZE \<and> length (contents p) \<le> PIPESIZE"

lemma pipe_full_iff:
  assumes "pipe_ok p"
  shows "nwrite p = nread p + of_nat PIPESIZE \<longleftrightarrow> length (contents p) = PIPESIZE"
proof -
  have "nwrite p = nread p + of_nat PIPESIZE \<longleftrightarrow> nwrite p - nread p = of_nat PIPESIZE"
    by (auto simp: algebra_simps)
  also have "\<dots> \<longleftrightarrow> unat (nwrite p - nread p) = PIPESIZE"
    by (simp add: word_unat_eq_iff)
  finally show ?thesis
    by (simp add: contents_def)
qed

lemma pipe_empty_iff: "nread p = nwrite p \<longleftrightarrow> contents p = []"
proof -
  have "contents p = [] \<longleftrightarrow> unat (nwrite p - nread p) = 0"
    unfolding contents_def by (metis length_0_conv length_ring_list)
  then show ?thesis
    by (auto simp: unat_eq_zero)
qed

lemma contents_put:
  assumes ok: "pipe_ok p" and room: "length (contents p) < PIPESIZE"
    and p': "p' = p\<lparr>pdata := (pdata p)[slot PIPESIZE (nwrite p) := c], nwrite := nwrite p + 1\<rparr>"
  shows "contents p' = contents p @ [c]" and "pipe_ok p'"
proof -
  show c: "contents p' = contents p @ [c]"
    using pr.ring_put [of "pdata p" "nwrite p" "nread p" c] ok room by (simp add: contents_def pipe_ok_def p')
  show "pipe_ok p'"
    using ok room by (simp add: pipe_ok_def c) (simp add: p')
qed

lemma contents_take:
  assumes "nread p \<noteq> nwrite p"
  shows "contents p = pdata p ! slot PIPESIZE (nread p) # contents (p\<lparr>nread := nread p + 1\<rparr>)"
  using pr.ring_take [OF assms] by (simp add: contents_def)

lemma pipewrite_from_spec:
  assumes "pipe_ok p" and "i \<le> length addr"
  shows "\<exists>k p'. i \<le> k \<and> k \<le> length addr \<and> pipe_ok p' \<and> contents p' = contents p @ take (k - i) (drop i addr)
    \<and> readopen p' = readopen p \<and> writeopen p' = writeopen p
    \<and> (pipewrite_from killed addr i p = Ret (int (length addr)) k p' \<and> k = length addr
       \<or> pipewrite_from killed addr i p = Ret (- 1) k p' \<and> length (contents p') = PIPESIZE \<and> (\<not> readopen p \<or> killed) \<and> k < length addr
       \<or> pipewrite_from killed addr i p = Block k p' \<and> length (contents p') = PIPESIZE \<and> readopen p \<and> \<not> killed \<and> k < length addr)"
  using assms
proof (induction killed addr i p rule: pipewrite_from.induct)
  case (1 killed addr i p)
  show ?case
  proof (cases "i < length addr \<and> length (contents p) < PIPESIZE")
    case True
    let ?p = "p\<lparr>pdata := (pdata p)[slot PIPESIZE (nwrite p) := addr ! i], nwrite := nwrite p + 1\<rparr>"
    have nf: "nwrite p \<noteq> nread p + of_nat PIPESIZE"
      using True pipe_full_iff [OF "1.prems"(1)] by simp
    have put: "contents ?p = contents p @ [addr ! i]" "pipe_ok ?p"
      using contents_put [OF "1.prems"(1) _ refl] True by simp_all
    have step: "pipewrite_from killed addr i p = pipewrite_from killed addr (Suc i) ?p"
      using True nf by (subst pipewrite_from.simps) simp
    have tk: "addr ! i # take (k - Suc i) (drop (Suc i) addr) = take (k - i) (drop i addr)" if "Suc i \<le> k" for k
    proof -
      have "k - i = Suc (k - Suc i)"
        using that by simp
      then show ?thesis
        using True Cons_nth_drop_Suc [of i addr] by (metis take_Suc_Cons)
    qed
    have "Suc i \<le> length addr"
      using True by simp
    from "1.IH" [OF _ nf put(2) this] True
    obtain k p' where k: "Suc i \<le> k" "k \<le> length addr" "pipe_ok p'"
        "contents p' = contents ?p @ take (k - Suc i) (drop (Suc i) addr)"
        "readopen p' = readopen p" "writeopen p' = writeopen p"
        "pipewrite_from killed addr (Suc i) ?p = Ret (int (length addr)) k p' \<and> k = length addr
         \<or> pipewrite_from killed addr (Suc i) ?p = Ret (- 1) k p' \<and> length (contents p') = PIPESIZE \<and> (\<not> readopen p \<or> killed) \<and> k < length addr
         \<or> pipewrite_from killed addr (Suc i) ?p = Block k p' \<and> length (contents p') = PIPESIZE \<and> readopen p \<and> \<not> killed \<and> k < length addr"
      by auto
    moreover have "contents p' = contents p @ take (k - i) (drop i addr)"
      using k(4) put(1) tk [OF k(1)] by simp
    ultimately show ?thesis
      unfolding step by (intro exI [of _ k] exI [of _ p']) auto
  next
    case False
    then have full: "i < length addr \<Longrightarrow> length (contents p) = PIPESIZE"
      using "1.prems" by (auto simp: pipe_ok_def)
    have "pipewrite_from killed addr i p =
      (if i < length addr then if \<not> readopen p \<or> killed then Ret (- 1) i p else Block i p
       else Ret (int (length addr)) i p)"
      using full pipe_full_iff [OF "1.prems"(1)] by (subst pipewrite_from.simps) simp
    then show ?thesis
      using "1.prems" full by (intro exI [of _ i] exI [of _ p]) auto
  qed
qed

lemma piperead_copy_spec:
  "contents p = fst (piperead_copy n p) @ contents (snd (piperead_copy n p))
    \<and> length (fst (piperead_copy n p)) = min n (length (contents p))
    \<and> pdata (snd (piperead_copy n p)) = pdata p \<and> nwrite (snd (piperead_copy n p)) = nwrite p
    \<and> readopen (snd (piperead_copy n p)) = readopen p \<and> writeopen (snd (piperead_copy n p)) = writeopen p"
proof (induction n p rule: piperead_copy.induct)
  case (2 n p)
  show ?case
  proof (cases "nread p = nwrite p")
    case True
    then have "contents p = []"
      using pipe_empty_iff by blast
    with True show ?thesis by simp
  next
    case False
    let ?q = "p\<lparr>nread := nread p + 1\<rparr>" and ?c = "pdata p ! slot PIPESIZE (nread p)"
    obtain cs p' where r: "piperead_copy n ?q = (cs, p')"
      by fastforce
    note IH = "2.IH" [OF False refl, unfolded r fst_conv snd_conv]
    note c = conjunct1 [OF IH] and l = conjunct1 [OF conjunct2 [OF IH]]
    have f: "pdata p' = pdata p" "nwrite p' = nwrite p" "readopen p' = readopen p" "writeopen p' = writeopen p"
      using conjunct2 [OF conjunct2 [OF IH]] by auto
    have "piperead_copy (Suc n) p = (?c # cs, p')"
      using False r by simp
    then show ?thesis
      using l f unfolding contents_take [OF False] c by simp
  qed
qed simp

section \<open>Writers and readers\<close>

text \<open>
  Processes that write to and read from one pipe, in any interleaving. The history variables
  record the bytes accepted from writers and the bytes handed to readers, in order; a write that
  sleeps at index \<open>k\<close> may be resumed at \<open>k\<close> later, or never. Either end may be closed
  between the calls.
\<close>

record pipe_sys =
  pip :: pipe
  sent :: bytes
  got :: bytes

inductive pipe_step :: "pipe_sys \<Rightarrow> pipe_sys \<Rightarrow> bool" where
  write_ret: "pipewrite_from killed addr i (pip s) = Ret v k p \<Longrightarrow> i \<le> length addr \<Longrightarrow>
      pipe_step s (s\<lparr>pip := p, sent := sent s @ take (k - i) (drop i addr)\<rparr>)"
| write_block: "pipewrite_from killed addr i (pip s) = Block k p \<Longrightarrow> i \<le> length addr \<Longrightarrow>
      pipe_step s (s\<lparr>pip := p, sent := sent s @ take (k - i) (drop i addr)\<rparr>)"
| read_ret: "piperead killed n (pip s) = Ret v cs p \<Longrightarrow> pipe_step s (s\<lparr>pip := p, got := got s @ cs\<rparr>)"
| close_write: "pipe_step s (s\<lparr>pip := (pip s)\<lparr>writeopen := False\<rparr>\<rparr>)"
| close_read: "pipe_step s (s\<lparr>pip := (pip s)\<lparr>readopen := False\<rparr>\<rparr>)"

inductive pipe_reach :: "pipe_sys \<Rightarrow> bool" where
  start: "length d = PIPESIZE \<Longrightarrow>
     pipe_reach \<lparr>pip = \<lparr>pdata = d, nread = 0, nwrite = 0, readopen = True, writeopen = True\<rparr>, sent = [], got = []\<rparr>"
| step: "pipe_reach s \<Longrightarrow> pipe_step s s' \<Longrightarrow> pipe_reach s'"

definition pipe_inv :: "pipe_sys \<Rightarrow> bool" where
  "pipe_inv s \<longleftrightarrow> pipe_ok (pip s) \<and> sent s = got s @ contents (pip s)"

lemma pipe_ok_open [simp]:
  "pipe_ok (p\<lparr>writeopen := b\<rparr>) = pipe_ok p" "pipe_ok (p\<lparr>readopen := b\<rparr>) = pipe_ok p"
  "contents (p\<lparr>writeopen := b\<rparr>) = contents p" "contents (p\<lparr>readopen := b\<rparr>) = contents p"
  by (simp_all add: pipe_ok_def contents_def)

lemma piperead_Ret:
  assumes "piperead killed n p = Ret v cs p'" and "pipe_ok p"
  shows "contents p = cs @ contents p'" "pipe_ok p'"
proof -
  obtain ds q where r: "piperead_copy (nat n) p = (ds, q)"
    by fastforce
  note sp = piperead_copy_spec [of p "nat n", unfolded r fst_conv snd_conv]
  have "cs = [] \<and> p' = p \<or> cs = ds \<and> p' = q"
    using assms(1) by (simp add: piperead_def r split: if_splits)
  moreover have "pipe_ok q"
    using assms(2) conjunct2 [OF conjunct2 [OF sp]] arg_cong [OF conjunct1 [OF sp], of length]
    by (simp add: pipe_ok_def)
  ultimately show "contents p = cs @ contents p'" "pipe_ok p'"
    using assms(2) conjunct1 [OF sp] by blast+
qed

lemma pipewrite_from_appends:
  assumes "pipewrite_from killed addr i p \<in> {Ret v k p', Block k p'}" and "pipe_ok p" and "i \<le> length addr"
  shows "pipe_ok p' \<and> contents p' = contents p @ take (k - i) (drop i addr)"
proof -
  obtain k' q where q: "pipe_ok q" "contents q = contents p @ take (k' - i) (drop i addr)"
    "pipewrite_from killed addr i p \<in> {Ret (int (length addr)) k' q, Ret (- 1) k' q, Block k' q}"
    using pipewrite_from_spec [OF assms(2,3), of killed] by blast
  then have "k' = k" "q = p'"
    using assms(1) by auto
  then show ?thesis
    using q by simp
qed

lemma pipe_step_inv: "pipe_step s s' \<Longrightarrow> pipe_inv s \<Longrightarrow> pipe_inv s'"
proof (induction rule: pipe_step.induct)
  case (write_ret killed addr i s v k p)
  then have "pipe_ok p \<and> contents p = contents (pip s) @ take (k - i) (drop i addr)"
    by (intro pipewrite_from_appends) (auto simp: pipe_inv_def)
  then show ?case
    using write_ret by (simp add: pipe_inv_def)
next
  case (write_block killed addr i s k p)
  then have "pipe_ok p \<and> contents p = contents (pip s) @ take (k - i) (drop i addr)"
    by (intro pipewrite_from_appends) (auto simp: pipe_inv_def)
  then show ?case
    using write_block by (simp add: pipe_inv_def)
next
  case (read_ret killed n s v cs p)
  then show ?case
    using piperead_Ret [OF read_ret(1)] by (simp add: pipe_inv_def)
qed (simp_all add: pipe_inv_def)

lemma pipe_reach_inv: "pipe_reach s \<Longrightarrow> pipe_inv s"
proof (induction rule: pipe_reach.induct)
  case (start d)
  then show ?case
    by (simp add: pipe_inv_def pipe_ok_def contents_def)
qed (blast intro: pipe_step_inv)

section \<open>Main results\<close>

text \<open>
  C12: a pipe delivers bytes in order, without loss or duplication. In every interleaving of
  writers, readers and closes the bytes handed to readers are a prefix of the bytes accepted from
  writers, the rest is what the buffer holds, and that is never more than PIPESIZE bytes; the
  32-bit indices may wrap around.
\<close>

theorem pipe_fifo:
  assumes "pipe_reach s"
  shows "sent s = got s @ contents (pip s) \<and> length (sent s) - length (got s) \<le> PIPESIZE"
  using pipe_reach_inv [OF assms] by (simp add: pipe_inv_def pipe_ok_def)

theorem pipe_fifo_witness:
  "pipe_reach \<lparr>pip = \<lparr>pdata = replicate 512 0, nread = 0, nwrite = 0, readopen = True, writeopen = True\<rparr>, sent = [], got = []\<rparr>
   \<and> ([] :: bytes) = [] @ contents \<lparr>pdata = replicate 512 0, nread = 0, nwrite = 0, readopen = True, writeopen = True\<rparr>"
  using pipe_fifo [OF pipe_reach.start [of "replicate 512 0"]] pipe_reach.start [of "replicate 512 0"] by simp

text \<open>
  C27: how the calls end. \<^verbatim>\<open>pipewrite\<close> returns \<open>n\<close> when it has stored all bytes, fails
  only on a full pipe whose reader is gone or when the process was killed, and otherwise sleeps only on
  a full pipe; \<^verbatim>\<open>piperead\<close> returns as many bytes as there are, up to \<open>n\<close>, sleeps only
  on an empty pipe whose writer is open, and returns 0 on an empty pipe whose writer is gone.
\<close>

theorem pipe_call_outcomes:
  assumes "pipe_ok p"
  shows "(\<exists>k p'. k \<le> length addr \<and> pipe_ok p' \<and> contents p' = contents p @ take k addr \<and>
      (pipewrite killed addr p = Ret (int (length addr)) k p' \<and> k = length addr
       \<or> pipewrite killed addr p = Ret (- 1) k p' \<and> length (contents p') = PIPESIZE \<and> (\<not> readopen p \<or> killed)
       \<or> pipewrite killed addr p = Block k p' \<and> length (contents p') = PIPESIZE \<and> readopen p \<and> \<not> killed))
    \<and> (if contents p = [] \<and> writeopen p
       then piperead killed n p = (if killed then Ret (- 1) [] p else Block [] p)
       else \<exists>p'. piperead killed n p = Ret (int (min (nat n) (length (contents p)))) (take (nat n) (contents p)) p'
          \<and> contents p' = drop (nat n) (contents p))"
proof
  show "\<exists>k p'. k \<le> length addr \<and> pipe_ok p' \<and> contents p' = contents p @ take k addr \<and>
      (pipewrite killed addr p = Ret (int (length addr)) k p' \<and> k = length addr
       \<or> pipewrite killed addr p = Ret (- 1) k p' \<and> length (contents p') = PIPESIZE \<and> (\<not> readopen p \<or> killed)
       \<or> pipewrite killed addr p = Block k p' \<and> length (contents p') = PIPESIZE \<and> readopen p \<and> \<not> killed)"
    using pipewrite_from_spec [OF assms, of 0 addr killed] unfolding pipewrite_def by auto
  obtain cs p' where r: "piperead_copy (nat n) p = (cs, p')"
    by fastforce
  note sp = piperead_copy_spec [of p "nat n", unfolded r fst_conv snd_conv]
  have l: "length cs = min (nat n) (length (contents p))"
    using sp by blast
  have td: "take (nat n) (contents p) = cs" "drop (nat n) (contents p) = contents p'"
  proof -
    have e: "contents p = cs @ contents p'"
      using sp by blast
    have "take (length cs) (contents p) = cs" "drop (length cs) (contents p) = contents p'"
      by (subst e, simp)+
    then show "take (nat n) (contents p) = cs" "drop (nat n) (contents p) = contents p'"
      unfolding l by (simp_all add: min_def split: if_splits)
  qed
  show "if contents p = [] \<and> writeopen p
       then piperead killed n p = (if killed then Ret (- 1) [] p else Block [] p)
       else \<exists>p'. piperead killed n p = Ret (int (min (nat n) (length (contents p)))) (take (nat n) (contents p)) p'
          \<and> contents p' = drop (nat n) (contents p)"
    unfolding piperead_def pipe_empty_iff r l [symmetric] td by simp
qed

theorem pipe_call_outcomes_witness:
  "\<exists>p'. pipewrite False [1, 2, 3] \<lparr>pdata = replicate 512 0, nread = - 1, nwrite = - 1, readopen = True, writeopen = True\<rparr> = Ret 3 3 p'
     \<and> contents p' = [1, 2, 3]"
proof -
  let ?p = "\<lparr>pdata = replicate 512 0, nread = - 1, nwrite = - 1, readopen = True, writeopen = True\<rparr> :: pipe"
  have c: "contents ?p = []" and ok: "pipe_ok ?p"
    by (simp_all add: contents_def pipe_ok_def)
  obtain k p' where k: "k \<le> 3" "contents p' = take k [1, 2, 3]"
    "pipewrite False [1, 2, 3] ?p = Ret 3 k p' \<and> k = 3 \<or> length (contents p') = PIPESIZE"
    using pipe_call_outcomes [OF ok, of "[1, 2, 3]" False 0] c by auto
  then show ?thesis
    by auto
qed

end
