(* ===== verification/Kalloc.thy ===== *)
theory Kalloc
  imports Memory Spinlock
begin

text \<open>
  The physical page allocator, \<^verbatim>\<open>kalloc.c\<close>. The free pages form a list threaded through
  their first words. \<open>kend\<close> is the linker symbol \<^verbatim>\<open>end\<close>; \<^verbatim>\<open>kallocNum\<close> is the
  repository's counter of allocations. The sections under \<^verbatim>\<open>kmem.lock\<close> are atomic steps.
\<close>

abbreviation PGSIZE :: uint where "PGSIZE \<equiv> 4096"
abbreviation PHYSTOP :: uint where "PHYSTOP \<equiv> 0xE000000"

definition PGROUNDUP :: "uint \<Rightarrow> uint" where
  "PGROUNDUP sz = (sz + PGSIZE - 1) AND NOT (PGSIZE - 1)"

definition PGROUNDDOWN :: "uint \<Rightarrow> uint" where
  "PGROUNDDOWN a = a AND NOT (PGSIZE - 1)"

definition V2P :: "uint \<Rightarrow> uint" where
  "V2P a = a - KERNBASE"

definition P2V :: "uint \<Rightarrow> uint" where
  "P2V a = a + KERNBASE"

record kmem =
  ram :: mem
  freelist :: uint
  use_lock :: bool
  kallocNum :: int
  kend :: uint

definition kfree :: "uint \<Rightarrow> 'a kmem_scheme \<Rightarrow> 'a kmem_scheme res" where
  "kfree v s =
     (if v mod PGSIZE \<noteq> 0 \<or> v < kend s \<or> PHYSTOP \<le> V2P v then Inl (Panic ''kfree'')
      else Inr (s\<lparr>ram := store32 v (freelist s) (memset v 1 PGSIZE (ram s)), freelist := v\<rparr>))"

definition kalloc :: "'a kmem_scheme \<Rightarrow> uint \<times> 'a kmem_scheme" where
  "kalloc s =
     (let r = freelist s;
          s = (if r \<noteq> 0 then s\<lparr>freelist := load32 (ram s) r\<rparr> else s)
      in (r, s\<lparr>kallocNum := kallocNum s + 1\<rparr>))"

text \<open>
  The loop of \<^verbatim>\<open>freerange\<close>. After as many rounds as there are pages in the address space it
  has wrapped around and will not end.
\<close>

fun freerange_loop :: "nat \<Rightarrow> uint \<Rightarrow> uint \<Rightarrow> 'a kmem_scheme \<Rightarrow> 'a kmem_scheme res" where
  "freerange_loop 0 p vend s = Inl Diverge"
| "freerange_loop (Suc n) p vend s =
     (if p + PGSIZE \<le> vend then rbind (kfree p s) (freerange_loop n (p + PGSIZE) vend) else Inr s)"

definition freerange :: "uint \<Rightarrow> uint \<Rightarrow> 'a kmem_scheme \<Rightarrow> 'a kmem_scheme res" where
  "freerange vstart vend s = freerange_loop 1048577 (PGROUNDUP vstart) vend s"

definition kinit1 :: "uint \<Rightarrow> uint \<Rightarrow> 'a kmem_scheme \<Rightarrow> 'a kmem_scheme res" where
  "kinit1 vstart vend s = freerange vstart vend (s\<lparr>use_lock := False\<rparr>)"

definition kinit2 :: "uint \<Rightarrow> uint \<Rightarrow> 'a kmem_scheme \<Rightarrow> 'a kmem_scheme res" where
  "kinit2 vstart vend s = rbind (freerange vstart vend s) (\<lambda>s. Inr (s\<lparr>use_lock := True\<rparr>))"

section \<open>Pages\<close>

lemma page_unat:
  assumes "p mod PGSIZE = 0"
  shows "unat p mod 4096 = 0" "unat p + 4096 \<le> 4294967296"
proof -
  have "unat (p mod PGSIZE) = 0"
    using assms by simp
  then show "unat p mod 4096 = 0"
    by (simp only: unat_mod) simp
  then obtain q where q: "unat p = 4096 * q"
    by (metis dvd_def mod_0_imp_dvd)
  then have "q < 1048576"
    using unat_uint_lt [of p] by linarith
  then show "unat p + 4096 \<le> 4294967296"
    unfolding q by linarith
qed

lemma page_region:
  assumes "p mod PGSIZE = 0"
  shows "x \<in> region p 4096 \<longleftrightarrow> unat x div 4096 = unat p div 4096"
proof -
  note p = page_unat [OF assms]
  obtain q where q: "unat p = 4096 * q"
    using p(1) by (metis dvd_def mod_0_imp_dvd)
  show ?thesis
  proof
    assume "x \<in> region p 4096"
    then obtain i where i: "i < 4096" "x = p + of_nat i"
      by (auto simp: region_offset)
    then have "unat x = 4096 * q + i"
      using p(2) q unat_plus_small [of p "of_nat i"] by simp
    then show "unat x div 4096 = unat p div 4096"
      using q i(1) by simp
  next
    assume "unat x div 4096 = unat p div 4096"
    then have "unat x = unat p + unat x mod 4096"
      using q by (metis mult_div_mod_eq nonzero_mult_div_cancel_left zero_neq_numeral)
    moreover have "unat x mod 4096 < 4096"
      by simp
    ultimately have "unat p \<le> unat x" "unat x - unat p < 4096"
      by linarith+
    then show "x \<in> region p 4096"
      by (simp add: region_iff unat_sub_if')
  qed
qed

lemma pages_disjoint:
  assumes "p mod PGSIZE = 0" and "q mod PGSIZE = 0" and "p \<noteq> q"
  shows "region p 4096 \<inter> region q 4096 = {}"
proof -
  have "unat p div 4096 \<noteq> unat q div 4096"
    using assms(3) page_unat(1) [OF assms(1)] page_unat(1) [OF assms(2)]
    by (metis div_mult_mod_eq word_unat_eq_iff)
  then show ?thesis
    using page_region [OF assms(1)] page_region [OF assms(2)] by auto
qed

lemma load32_cong:
  assumes "\<And>i. i < 4 \<Longrightarrow> m (a + of_nat i) = m' (a + of_nat i)"
  shows "load32 m a = load32 m' a"
  using assms [of 0] assms [of 1] assms [of 2] assms [of 3] by (simp add: load32_def)

lemma load32_store32 [simp]: "load32 (store32 a w m) a = w"
proof -
  have "a + 1 \<noteq> a" "a + 2 \<noteq> a" "a + 3 \<noteq> a" "a + 2 \<noteq> a + 1" "a + 3 \<noteq> a + 1" "a + 3 \<noteq> a + 2"
    by simp_all
  then show ?thesis
    by (simp add: load32_def store32_def)
qed

lemma store32_other: "x \<notin> region a 4 \<Longrightarrow> store32 a w m x = m x"
  by (simp add: store32_def eval_nat_numeral add.assoc)

section \<open>The free list\<close>

text \<open>The free list holds the pages \<open>xs\<close>, in this order.\<close>

fun chain :: "mem \<Rightarrow> uint \<Rightarrow> uint list \<Rightarrow> bool" where
  "chain m a [] \<longleftrightarrow> a = 0"
| "chain m a (x # xs) \<longleftrightarrow> a = x \<and> x \<noteq> 0 \<and> chain m (load32 m x) xs"

definition page_ok :: "uint \<Rightarrow> uint \<Rightarrow> bool" where
  "page_ok e p \<longleftrightarrow> p mod PGSIZE = 0 \<and> e \<le> p \<and> V2P p < PHYSTOP \<and> p \<noteq> 0"

definition kmem_inv :: "'a kmem_scheme \<Rightarrow> uint list \<Rightarrow> bool" where
  "kmem_inv s xs \<longleftrightarrow> chain (ram s) (freelist s) xs \<and> distinct xs \<and> (\<forall>x \<in> set xs. page_ok (kend s) x)"

lemma chain_unique: "chain m a xs \<Longrightarrow> chain m a ys \<Longrightarrow> xs = ys"
  by (induction xs arbitrary: a ys; case_tac ys) auto

lemma chain_cong:
  assumes "\<And>x. x \<in> set xs \<Longrightarrow> load32 m' x = load32 m x"
  shows "chain m' a xs = chain m a xs"
  using assms by (induction xs arbitrary: a) auto

lemma offset_in_page: "i < 4096 \<Longrightarrow> p + of_nat i \<in> region p 4096"
  by (rule in_region)

text \<open>Changing memory outside the free pages leaves the free list alone.\<close>

lemma chain_frame:
  assumes "chain m a xs" and "\<And>x y. x \<in> set xs \<Longrightarrow> y \<in> region x 4096 \<Longrightarrow> m' y = m y"
  shows "chain m' a xs"
proof -
  have "load32 m' x = load32 m x" if "x \<in> set xs" for x
    using assms(2) [OF that] offset_in_page by (intro load32_cong) auto
  then show ?thesis
    using assms(1) chain_cong by blast
qed

lemma region_4_sub: "region a 4 \<subseteq> region a 4096"
  by (auto simp: region_def)

lemma kfree_ok:
  assumes inv: "kmem_inv s xs" and v: "page_ok (kend s) v" "v \<notin> set xs"
  shows "\<exists>s'. kfree v s = Inr s' \<and> kmem_inv s' (v # xs) \<and> kend s' = kend s
    \<and> (\<forall>x. x \<notin> region v 4096 \<longrightarrow> ram s' x = ram s x)
    \<and> (\<forall>i < 4096. 4 \<le> i \<longrightarrow> ram s' (v + of_nat i) = 1)"
proof -
  let ?m = "store32 v (freelist s) (memset v 1 PGSIZE (ram s))"
  let ?s = "s\<lparr>ram := ?m, freelist := v\<rparr>"
  have run: "kfree v s = Inr ?s"
    using v(1) by (auto simp: kfree_def page_ok_def not_less not_le)
  have out: "?m x = ram s x" if "x \<notin> region v 4096" for x
  proof -
    have "x \<notin> region v 4"
      using that region_4_sub by blast
    with that show ?thesis
      by (simp add: store32_other memset_spec)
  qed
  have "?m (v + of_nat i) = 1" if "4 \<le> i" "i < 4096" for i
  proof -
    have "v + of_nat i \<notin> region v 4"
      using that by (simp add: region_iff)
    then show ?thesis
      using that by (simp add: store32_other memset_spec in_region)
  qed
  moreover have "chain ?m (freelist s) xs"
  proof (rule chain_frame)
    show "chain (ram s) (freelist s) xs"
      using inv by (simp add: kmem_inv_def)
    show "?m y = ram s y" if "x \<in> set xs" "y \<in> region x 4096" for x y
    proof -
      have "region x 4096 \<inter> region v 4096 = {}"
        using inv v that by (intro pages_disjoint) (auto simp: kmem_inv_def page_ok_def)
      then show ?thesis
        using that out by blast
    qed
  qed
  ultimately show ?thesis
    using run inv v out by (auto simp: kmem_inv_def page_ok_def)
qed

lemma kalloc_ok:
  assumes "kmem_inv s xs"
  shows "\<exists>s'. kalloc s = ((case xs of [] \<Rightarrow> 0 | x # _ \<Rightarrow> x), s') \<and> kmem_inv s' (tl xs) \<and> ram s' = ram s \<and> kend s' = kend s"
  using assms by (cases xs) (auto simp: kalloc_def kmem_inv_def Let_def)

section \<open>Filling the free list\<close>

text \<open>The first \<open>n\<close> pages from \<open>p\<close> on.\<close>

definition pages_from :: "uint \<Rightarrow> nat \<Rightarrow> uint list" where
  "pages_from p n = map (\<lambda>i. p + of_nat (4096 * i)) [0..<n]"

lemma pages_from_Suc: "pages_from p (Suc n) = p # pages_from (p + PGSIZE) n"
  by (rule nth_equalityI)
    (auto simp: pages_from_def nth_Cons algebra_simps simp del: upt_Suc split: nat.split)

lemma page_next: "p mod PGSIZE = 0 \<Longrightarrow> (p + PGSIZE) mod PGSIZE = 0"
proof -
  assume p: "p mod PGSIZE = 0"
  have "unat ((p + PGSIZE) mod PGSIZE) = ((unat p + 4096) mod 4294967296) mod 4096"
    by (simp add: unat_mod unat_word_ariths)
  also have "\<dots> = (unat p + 4096) mod 4096"
    by (rule mod_mod_cancel) simp
  also have "\<dots> = 0"
    using page_unat(1) [OF p] by simp
  finally show ?thesis
    by (simp only: unat_eq_zero)
qed

lemma V2P_bounds:
  assumes "KERNBASE \<le> p" and "unat p + 4096 \<le> 2382364672"
  shows "V2P p < PHYSTOP"
  using assms by (simp add: V2P_def KERNBASE_def word_less_nat_alt word_le_nat_alt unat_sub_if')

lemma freerange_loop_ok:
  assumes "kmem_inv s xs" and "p mod PGSIZE = 0" and "kend s \<le> p" and "KERNBASE \<le> p"
    and "unat p + 4096 * k \<le> unat vend" and "unat vend < unat p + 4096 * k + 4096" and "unat vend \<le> 2382364672"
    and "set (pages_from p k) \<inter> set xs = {}" and "distinct (pages_from p k)" and "k < n"
  shows "\<exists>s'. freerange_loop n p vend s = Inr s' \<and> kmem_inv s' (rev (pages_from p k) @ xs) \<and> kend s' = kend s"
  using assms
proof (induction k arbitrary: n p s xs)
  case 0
  then obtain n' where n': "n = Suc n'"
    by (cases n) auto
  have "unat (p + PGSIZE) = unat p + 4096"
    using 0 unat_plus_small [of p PGSIZE] by simp
  then have "\<not> p + PGSIZE \<le> vend"
    using 0 by (simp add: word_le_nat_alt)
  then show ?case
    using 0 n' by (simp add: pages_from_def)
next
  case (Suc k)
  then obtain n' where n': "n = Suc n'" "k < n'"
    by (cases n) auto
  have u: "unat (p + PGSIZE) = unat p + 4096"
    using Suc.prems unat_plus_small [of p PGSIZE] by simp
  have le: "p + PGSIZE \<le> vend" "p \<le> p + PGSIZE"
    using Suc.prems u by (simp_all add: word_le_nat_alt)
  have "p \<noteq> 0"
    using Suc.prems(4) by (auto simp: KERNBASE_def)
  then have "page_ok (kend s) p"
    using Suc.prems V2P_bounds [of p] by (simp add: page_ok_def)
  moreover have "p \<notin> set xs"
    using Suc.prems(8) by (simp add: pages_from_Suc)
  ultimately obtain s1 where s1: "kfree p s = Inr s1" "kmem_inv s1 (p # xs)" "kend s1 = kend s"
    using kfree_ok [OF Suc.prems(1)] by blast
  have "\<exists>s'. freerange_loop n' (p + PGSIZE) vend s1 = Inr s'
      \<and> kmem_inv s' (rev (pages_from (p + PGSIZE) k) @ p # xs) \<and> kend s' = kend s1"
    using Suc.prems s1 n' u le
    by (intro Suc.IH page_next) (auto simp: pages_from_Suc dest: order_trans)
  then show ?case
    using s1 n' le by (auto simp: pages_from_Suc)
qed

lemma PGROUNDDOWN_mod: "PGROUNDDOWN a mod PGSIZE = 0"
proof -
  have m: "PGSIZE - 1 = mask 12" "PGSIZE = 2 ^ 12"
    by (simp_all add: mask_eq_exp_minus_1)
  have "take_bit 12 (a AND NOT (mask 12)) = 0"
    by (rule bit_word_eqI) (auto simp: bit_take_bit_iff bit_and_iff bit_not_iff bit_mask_iff)
  then show ?thesis
    unfolding PGROUNDDOWN_def m(1) by (simp add: take_bit_eq_mod)
qed

lemma PGROUNDUP_mod: "PGROUNDUP a mod PGSIZE = 0"
  using PGROUNDDOWN_mod [of "a + PGSIZE - 1"] by (simp add: PGROUNDUP_def PGROUNDDOWN_def)

lemma unat_pages_from:
  fixes p :: uint
  assumes "unat p + 4096 * k \<le> 4294967296" and "i < k"
  shows "unat (p + of_nat (4096 * i)) = unat p + 4096 * i"
proof -
  have "4096 * i + 4096 \<le> 4096 * k"
    using assms(2) by linarith
  then have "unat p + 4096 * i < 4294967296"
    using assms(1) by linarith
  moreover define w :: uint where "w = of_nat (4096 * i)"
  ultimately have "unat w = 4096 * i"
    unfolding w_def by (intro unat_of_nat_uint) linarith
  then show ?thesis
    using unat_plus_small [of p w] \<open>unat p + 4096 * i < 4294967296\<close> unfolding w_def [symmetric] by simp
qed

lemma distinct_pages_from:
  assumes "unat p + 4096 * k \<le> 4294967296"
  shows "distinct (pages_from p k)"
  unfolding pages_from_def distinct_map
proof (intro conjI inj_onI)
  fix i j
  assume "i \<in> set [0..<k]" "j \<in> set [0..<k]" "p + of_nat (4096 * i) = p + of_nat (4096 * j)"
  then have "unat p + 4096 * i = unat p + 4096 * j"
    using unat_pages_from [OF assms, of i] unat_pages_from [OF assms, of j] by (metis atLeastLessThan_iff set_upt)
  then show "i = j"
    by simp
qed simp

section \<open>Main results\<close>

text \<open>
  C18: the allocator serves the free list. \<^verbatim>\<open>kalloc\<close> returns 0 exactly when no page is free;
  otherwise it returns the first free page, which is then free no more. However the caller and
  others use memory outside the remaining free pages, \<^verbatim>\<open>kfree\<close> of that page succeeds and
  makes it the first free page again, with the free list otherwise intact.
\<close>

theorem kalloc_kfree_round_trip:
  assumes "kmem_inv s xs"
  shows "(xs = [] \<longrightarrow> fst (kalloc s) = 0) \<and>
    (\<forall>p ys. xs = p # ys \<longrightarrow> p \<noteq> 0 \<and> (\<exists>s'. kalloc s = (p, s') \<and> kmem_inv s' ys \<and> p \<notin> set ys \<and>
       (\<forall>m'. (\<forall>x \<in> set ys. \<forall>y \<in> region x 4096. m' y = ram s' y) \<longrightarrow>
          (\<exists>s''. kfree p (s'\<lparr>ram := m'\<rparr>) = Inr s'' \<and> kmem_inv s'' (p # ys)))))"
proof (intro conjI allI impI)
  assume "xs = []"
  then show "fst (kalloc s) = 0"
    using kalloc_ok [OF assms] by auto
next
  fix p ys
  assume xs: "xs = p # ys"
  then have p: "page_ok (kend s) p" "p \<notin> set ys"
    using assms by (auto simp: kmem_inv_def)
  then show "p \<noteq> 0"
    by (simp add: page_ok_def)
  obtain s' where s': "kalloc s = (p, s')" "kmem_inv s' ys" "kend s' = kend s"
    using kalloc_ok [OF assms] xs by auto
  have "\<exists>s''. kfree p (s'\<lparr>ram := m'\<rparr>) = Inr s'' \<and> kmem_inv s'' (p # ys)"
    if m': "\<forall>x \<in> set ys. \<forall>y \<in> region x 4096. m' y = ram s' y" for m'
  proof -
    have "kmem_inv (s'\<lparr>ram := m'\<rparr>) ys"
      using s'(2) m' chain_frame [of "ram s'" "freelist s'" ys m'] by (simp add: kmem_inv_def)
    then show ?thesis
      using kfree_ok [of "s'\<lparr>ram := m'\<rparr>" ys p] p s'(3) by auto
  qed
  then show "\<exists>s'. kalloc s = (p, s') \<and> kmem_inv s' ys \<and> p \<notin> set ys \<and>
       (\<forall>m'. (\<forall>x \<in> set ys. \<forall>y \<in> region x 4096. m' y = ram s' y) \<longrightarrow>
          (\<exists>s''. kfree p (s'\<lparr>ram := m'\<rparr>) = Inr s'' \<and> kmem_inv s'' (p # ys)))"
    using s' p by blast
qed

definition empty_kmem :: kmem where
  "empty_kmem = \<lparr>ram = (\<lambda>_. 0), freelist = 0, use_lock = False, kallocNum = 0, kend = 0x80110000\<rparr>"

theorem kalloc_kfree_round_trip_witness:
  "\<exists>s. kfree 0x80200000 empty_kmem = Inr s \<and> kmem_inv s [0x80200000] \<and> (\<exists>s'. kalloc s = (0x80200000, s') \<and> kmem_inv s' [])"
proof -
  have "kmem_inv empty_kmem []" "page_ok (kend empty_kmem) 0x80200000"
    by (simp_all add: kmem_inv_def empty_kmem_def page_ok_def V2P_def KERNBASE_def)
  then obtain s where "kfree 0x80200000 empty_kmem = Inr s" "kmem_inv s [0x80200000]"
    using kfree_ok by fastforce
  then show ?thesis
    using kalloc_kfree_round_trip [of s "[0x80200000]"] by auto
qed

text \<open>
  C26: \<^verbatim>\<open>freerange\<close> gives the allocator every whole page of its range. For a range of kernel
  addresses that starts at or after the end of the kernel, stays below the top of physical memory
  and holds no page that is already free, it returns, and the free list is extended by exactly
  the pages from the rounded-up start that end at or before \<open>vend\<close>.
\<close>

theorem freerange_frees_pages:
  assumes "kmem_inv s xs" and "st = PGROUNDUP vstart" and "kend s \<le> st" and "KERNBASE \<le> st" and "st \<le> vend"
    and "unat vend \<le> unat (P2V PHYSTOP)" and "k = (unat vend - unat st) div 4096"
    and "set (pages_from st k) \<inter> set xs = {}"
  shows "\<exists>s'. freerange vstart vend s = Inr s' \<and> kmem_inv s' (rev (pages_from st k) @ xs)"
proof -
  have top: "unat vend \<le> 2382364672"
    using assms(6) by (simp add: P2V_def KERNBASE_def)
  have le: "unat st \<le> unat vend"
    using assms(5) by (simp only: word_le_nat_alt)
  have "unat vend - unat st < 4096 * k + 4096"
    using dividend_less_times_div [of 4096 "unat vend - unat st"] assms(7) by simp
  moreover have "4096 * k \<le> unat vend - unat st"
    using assms(7) by simp
  ultimately have k: "unat st + 4096 * k \<le> unat vend" "unat vend < unat st + 4096 * k + 4096"
    using le by linarith+
  have al: "st mod PGSIZE = 0"
    unfolding assms(2) by (rule PGROUNDUP_mod)
  have fuel: "k < 1048577" and top2: "unat st + 4096 * k \<le> 4294967296"
    using k(1) top by linarith+
  from freerange_loop_ok [OF assms(1) al assms(3,4) k top assms(8) distinct_pages_from [OF top2] fuel]
  show ?thesis
    unfolding freerange_def assms(2) by blast
qed

theorem freerange_frees_pages_witness:
  "\<exists>s'. freerange 0x80110001 0x80113000 empty_kmem = Inr s' \<and> kmem_inv s' (rev (pages_from 0x80111000 2) @ [])"
proof (rule freerange_frees_pages)
  show "kmem_inv empty_kmem []"
    by (simp add: kmem_inv_def empty_kmem_def)
  show "0x80111000 = PGROUNDUP 0x80110001"
    by (simp add: PGROUNDUP_def)
  show "kend empty_kmem \<le> 0x80111000" "KERNBASE \<le> 0x80111000"
    by (simp_all add: empty_kmem_def KERNBASE_def)
  show "unat (0x80113000 :: uint) \<le> unat (P2V PHYSTOP)"
    by (simp add: P2V_def KERNBASE_def)
qed simp_all

end
