(* ===== verification/File.thy ===== *)
theory File
  imports Fs Pipe Kalloc
begin

text \<open>
  The file table \<^verbatim>\<open>file.c\<close>, and opening and closing of pipes from \<^verbatim>\<open>pipe.c\<close>. The state
  extends the file system with the page allocator, the table of open files and the pipes, which live in
  pages of the allocator and are found by their address. A file pointer is its index in
  \<^verbatim>\<open>ftable.file\<close>. The sections under \<^verbatim>\<open>ftable.lock\<close> are atomic steps; a call that has to wait
  for the other end of a pipe is the outcome \<^const>\<open>Sleep\<close>. \<open>killed\<close> is
  \<^verbatim>\<open>myproc()->killed\<close>.
\<close>

abbreviation NFILE :: nat where "NFILE \<equiv> 100"

datatype fdtype = FD_NONE | FD_PIPE | FD_INODE

record ofile =
  ftype :: fdtype
  fref :: int
  freadable :: bool
  fwritable :: bool
  fpipe :: uint
  fip :: nat
  foff :: uint

record file_sys = fs_sys +
  km :: kmem
  files :: "nat \<Rightarrow> ofile"
  pipes :: "uint \<Rightarrow> pipe"

definition set_file :: "nat \<Rightarrow> ofile \<Rightarrow> 'a file_sys_scheme \<Rightarrow> 'a file_sys_scheme" where
  "set_file f ff s = s\<lparr>files := (files s)(f := ff)\<rparr>"

definition filealloc :: "'a file_sys_scheme \<Rightarrow> nat option \<times> 'a file_sys_scheme" where
  "filealloc s =
     (case find (\<lambda>f. fref (files s f) = 0) [0..<NFILE] of
        None \<Rightarrow> (None, s)
      | Some f \<Rightarrow> (Some f, set_file f ((files s f)\<lparr>fref := 1\<rparr>) s))"

definition filedup :: "nat \<Rightarrow> 'a file_sys_scheme \<Rightarrow> (nat \<times> 'a file_sys_scheme) res" where
  "filedup f s =
     (if fref (files s f) < 1 then Inl (Panic ''filedup'')
      else Inr (f, set_file f ((files s f)\<lparr>fref := fref (files s f) + 1\<rparr>) s))"

definition pipeclose :: "uint \<Rightarrow> bool \<Rightarrow> 'a file_sys_scheme \<Rightarrow> 'a file_sys_scheme res" where
  "pipeclose p writable s =
     (let q = (if writable then (pipes s p)\<lparr>writeopen := False\<rparr> else (pipes s p)\<lparr>readopen := False\<rparr>);
          s = s\<lparr>pipes := (pipes s)(p := q)\<rparr>
      in if \<not> readopen q \<and> \<not> writeopen q
         then rbind (kfree p (km s)) (\<lambda>k. Inr (s\<lparr>km := k\<rparr>))
         else Inr s)"

definition fileclose :: "nat \<Rightarrow> 'a file_sys_scheme \<Rightarrow> 'a file_sys_scheme res" where
  "fileclose f s =
     (if fref (files s f) < 1 then Inl (Panic ''fileclose'')
      else let ff = (files s f)\<lparr>fref := fref (files s f) - 1\<rparr> in
           if 0 < fref ff then Inr (set_file f ff s)
           else let s = set_file f (ff\<lparr>fref := 0, ftype := FD_NONE\<rparr>) s in
                case ftype ff of
                  FD_PIPE \<Rightarrow> pipeclose (fpipe ff) (fwritable ff) s
                | FD_INODE \<Rightarrow> rbind (begin_op s) (\<lambda>s. rbind (iput (fip ff) s) end_op)
                | FD_NONE \<Rightarrow> Inr s)"

definition pipealloc :: "'a file_sys_scheme \<Rightarrow> ((nat \<times> nat) option \<times> 'a file_sys_scheme) res" where
  "pipealloc s =
     (case filealloc s of
        (None, s) \<Rightarrow> Inr (None, s)
      | (Some f0, s) \<Rightarrow>
          (case filealloc s of
             (None, s) \<Rightarrow> rbind (fileclose f0 s) (\<lambda>s. Inr (None, s))
           | (Some f1, s) \<Rightarrow>
               let (p, k) = kalloc (km s); s = s\<lparr>km := k\<rparr> in
               if p = 0
               then rbind (fileclose f0 s) (\<lambda>s. rbind (fileclose f1 s) (\<lambda>s. Inr (None, s)))
               else let s = s\<lparr>pipes := (pipes s)(p := (pipes s p)\<lparr>readopen := True, writeopen := True, nwrite := 0, nread := 0\<rparr>)\<rparr>;
                        s = set_file f0 ((files s f0)\<lparr>ftype := FD_PIPE, freadable := True, fwritable := False, fpipe := p\<rparr>) s;
                        s = set_file f1 ((files s f1)\<lparr>ftype := FD_PIPE, freadable := False, fwritable := True, fpipe := p\<rparr>) s
                    in Inr (Some (f0, f1), s)))"

definition filestat :: "nat \<Rightarrow> 'a file_sys_scheme \<Rightarrow> (stat option \<times> 'a file_sys_scheme) res" where
  "filestat f s =
     (if ftype (files s f) = FD_INODE
      then rbind (ilock (fip (files s f)) s) (\<lambda>s.
           let st = stati (fip (files s f)) s in
           rbind (iunlock (fip (files s f)) s) (\<lambda>s. Inr (Some st, s)))
      else Inr (None, s))"

text \<open>The result of a read or write is the value returned and, for a read, the bytes stored.\<close>

definition fileread :: "'b file_sys_ext dev_read \<Rightarrow> bool \<Rightarrow> nat \<Rightarrow> int \<Rightarrow> 'b file_sys_scheme \<Rightarrow> (int \<times> bytes \<times> 'b file_sys_scheme) res" where
  "fileread devsw killed f n s =
     (let ff = files s f in
      if \<not> freadable ff then Inr (- 1, [], s)
      else case ftype ff of
          FD_PIPE \<Rightarrow>
            (case piperead killed n (pipes s (fpipe ff)) of
               Ret r bs p \<Rightarrow> Inr (r, bs, s\<lparr>pipes := (pipes s)(fpipe ff := p)\<rparr>)
             | Block bs p \<Rightarrow> Inl Sleep)
        | FD_INODE \<Rightarrow>
            rbind (ilock (fip ff) s) (\<lambda>s.
            rbind (readi devsw (fip ff) (foff ff) (word_of_int n) s) (\<lambda>(r, bs, s).
            let s = (if 0 < r then set_file f ((files s f)\<lparr>foff := foff ff + word_of_int r\<rparr>) s else s) in
            rbind (iunlock (fip ff) s) (\<lambda>s. Inr (r, bs, s))))
        | FD_NONE \<Rightarrow> Inl (Panic ''fileread''))"

text \<open>The bytes one transaction of \<^verbatim>\<open>filewrite\<close> writes at most: three blocks.\<close>

definition write_max :: nat where
  "write_max = ((10 - 1 - 1 - 2) div 2) * 512"

function filewrite_loop :: "'b file_sys_ext dev_write \<Rightarrow> nat \<Rightarrow> bytes \<Rightarrow> nat \<Rightarrow> 'b file_sys_scheme \<Rightarrow> (int \<times> 'b file_sys_scheme) res" where
  "filewrite_loop devsw f addr i s =
     (if i < length addr
      then let n1 = min (length addr - i) write_max; ip = fip (files s f) in
           rbind (begin_op s) (\<lambda>s.
           rbind (ilock ip s) (\<lambda>s.
           rbind (writei devsw ip (take n1 (drop i addr)) (foff (files s f)) s) (\<lambda>(r, s).
           let s = (if 0 < r then set_file f ((files s f)\<lparr>foff := foff (files s f) + word_of_int r\<rparr>) s else s) in
           rbind (iunlock ip s) (\<lambda>s.
           rbind (end_op s) (\<lambda>s.
           if r < 0 then Inr (if i = length addr then int (length addr) else - 1, s)
           else if r \<noteq> int n1 then Inl (Panic ''short filewrite'')
           else filewrite_loop devsw f addr (i + n1) s)))))
      else Inr (if i = length addr then int (length addr) else - 1, s))"
  by pat_completeness auto
termination
  by (relation "measure (\<lambda>(devsw, f, addr, i, s). length addr - i)") (auto simp: write_max_def)

declare filewrite_loop.simps [simp del]

definition filewrite :: "'b file_sys_ext dev_write \<Rightarrow> bool \<Rightarrow> nat \<Rightarrow> bytes \<Rightarrow> 'b file_sys_scheme \<Rightarrow> (int \<times> 'b file_sys_scheme) res" where
  "filewrite devsw killed f addr s =
     (let ff = files s f in
      if \<not> fwritable ff then Inr (- 1, s)
      else case ftype ff of
          FD_PIPE \<Rightarrow>
            (case pipewrite killed addr (pipes s (fpipe ff)) of
               Ret r i p \<Rightarrow> Inr (r, s\<lparr>pipes := (pipes s)(fpipe ff := p)\<rparr>)
             | Block i p \<Rightarrow> Inl Sleep)
        | FD_INODE \<Rightarrow> filewrite_loop devsw f addr 0 s
        | FD_NONE \<Rightarrow> Inl (Panic ''filewrite''))"

section \<open>Opening and closing\<close>

lemma set_file_fields [simp]:
  "files (set_file f ff s) = (files s)(f := ff)" "km (set_file f ff s) = km s" "pipes (set_file f ff s) = pipes s"
  by (simp_all add: set_file_def)

lemma filealloc_Some:
  assumes "filealloc s = (Some f, s')"
  shows "f < NFILE" "fref (files s f) = 0" "s' = set_file f ((files s f)\<lparr>fref := 1\<rparr>) s"
  using assms by (auto simp: filealloc_def find_Some_iff split: option.splits)

lemma filealloc_None: "filealloc s = (None, s') \<longleftrightarrow> s' = s \<and> (\<forall>f < NFILE. fref (files s f) \<noteq> 0)"
  by (auto simp: filealloc_def find_None_iff find_Some_iff split: option.splits)

text \<open>What a successful \<^verbatim>\<open>pipealloc\<close> leaves behind.\<close>

lemma pipealloc_Some:
  assumes inv: "kmem_inv (km s) ps" and run: "pipealloc s = Inr (Some (f0, f1), s1)"
  obtains p xs where "ps = p # xs" "f0 \<noteq> f1" "fref (files s f0) = 0" "fref (files s f1) = 0"
    "kmem_inv (km s1) xs" "kend (km s1) = kend (km s)" "pipes s1 p = (pipes s p)\<lparr>readopen := True, writeopen := True, nwrite := 0, nread := 0\<rparr>"
    "files s1 f0 = (files s f0)\<lparr>fref := 1, ftype := FD_PIPE, freadable := True, fwritable := False, fpipe := p\<rparr>"
    "files s1 f1 = (files s f1)\<lparr>fref := 1, ftype := FD_PIPE, freadable := False, fwritable := True, fpipe := p\<rparr>"
proof -
  obtain g0 t where g0: "filealloc s = (Some g0, t)"
    using run by (auto simp: pipealloc_def split: prod.splits option.splits)
  obtain g1 u where g1: "filealloc t = (Some g1, u)"
    using run g0 by (auto simp: pipealloc_def rbind_def split: prod.splits option.splits sum.splits)
  obtain q k where k: "kalloc (km u) = (q, k)"
    by fastforce
  note a0 = filealloc_Some [OF g0] and a1 = filealloc_Some [OF g1]
  have ne: "g0 \<noteq> g1"
    using a0(3) a1(2) by auto
  have q0: "q \<noteq> 0"
    using run g0 g1 k by (auto simp: pipealloc_def rbind_def split: sum.splits)
  have kmu: "km u = km s" "pipes u = pipes s"
    using a0(3) a1(3) by simp_all
  obtain xs where ps: "ps = q # xs" and kx: "kmem_inv k xs" "kend k = kend (km s)"
    using kalloc_ok [OF inv] k q0 unfolding kmu by (cases ps) auto
  have eq: "f0 = g0" "f1 = g1" "km s1 = k"
    "files s1 f0 = (files s f0)\<lparr>fref := 1, ftype := FD_PIPE, freadable := True, fwritable := False, fpipe := q\<rparr>"
    "files s1 f1 = (files s f1)\<lparr>fref := 1, ftype := FD_PIPE, freadable := False, fwritable := True, fpipe := q\<rparr>"
    "pipes s1 q = (pipes s q)\<lparr>readopen := True, writeopen := True, nwrite := 0, nread := 0\<rparr>"
    using run g0 g1 k q0 ne a0(3) a1(3) by (auto simp: pipealloc_def Let_def)
  show ?thesis
    using that [OF ps] ne a0 a1 kx eq by simp
qed

text \<open>
  C33: a pipe's page is allocated once and returned once. A successful \<^verbatim>\<open>pipealloc\<close> takes the first
  free page and two unused file entries, one readable and one writable, for an empty pipe; closing the two files, in
  either order, keeps the page until the second close, which puts it back at the head of the free
  list, and frees both entries.
\<close>

theorem pipe_open_close:
  assumes "kmem_inv (km s) ps" and "pipealloc s = Inr (Some (f0, f1), s1)" and "{f, g} = {f0, f1}" and "f \<noteq> g"
  shows "\<exists>p xs s2 s3. ps = p # xs \<and> fref (files s f0) = 0 \<and> fref (files s f1) = 0 \<and> contents (pipes s1 p) = []
    \<and> freadable (files s1 f0) \<and> fwritable (files s1 f1) \<and> kmem_inv (km s1) xs
    \<and> fileclose f s1 = Inr s2 \<and> kmem_inv (km s2) xs \<and> fileclose g s2 = Inr s3 \<and> kmem_inv (km s3) (p # xs)
    \<and> fref (files s3 f0) = 0 \<and> fref (files s3 f1) = 0"
proof -
  obtain p xs where p: "ps = p # xs" "f0 \<noteq> f1" "fref (files s f0) = 0" "fref (files s f1) = 0"
    "kmem_inv (km s1) xs" "kend (km s1) = kend (km s)" "pipes s1 p = (pipes s p)\<lparr>readopen := True, writeopen := True, nwrite := 0, nread := 0\<rparr>"
    "files s1 f0 = (files s f0)\<lparr>fref := 1, ftype := FD_PIPE, freadable := True, fwritable := False, fpipe := p\<rparr>"
    "files s1 f1 = (files s f1)\<lparr>fref := 1, ftype := FD_PIPE, freadable := False, fwritable := True, fpipe := p\<rparr>"
    using pipealloc_Some [OF assms(1,2)] by metis
  have fg: "f = f0 \<and> g = f1 \<or> f = f1 \<and> g = f0"
    using assms(3,4) by (auto simp: doubleton_eq_iff)
  have pg: "page_ok (kend (km s1)) p" "p \<notin> set xs"
    using assms(1) p(1,6) by (auto simp: kmem_inv_def)
  obtain k where k: "kfree p (km s1) = Inr k" "kmem_inv k (p # xs)"
    using kfree_ok [OF p(5) pg] by blast
  obtain s2 where s2: "fileclose f s1 = Inr s2" "km s2 = km s1" "fref (files s2 f) = 0" "files s2 g = files s1 g"
    "pipes s2 p = (if f = f0 then (pipes s1 p)\<lparr>readopen := False\<rparr> else (pipes s1 p)\<lparr>writeopen := False\<rparr>)"
    using fg p by (auto simp: fileclose_def pipeclose_def Let_def)
  obtain s3 where s3: "fileclose g s2 = Inr s3" "km s3 = k" "fref (files s3 f) = 0" "fref (files s3 g) = 0"
    using fg p s2 k by (auto simp: fileclose_def pipeclose_def Let_def)
  show ?thesis
    using p s2 s3 k fg by (intro exI [of _ p] exI [of _ xs] exI [of _ s2] exI [of _ s3]) (auto simp: contents_def)
qed

text \<open>A system right after boot: nothing cached, nothing open, one free page.\<close>

definition zero_inode :: inode where
  "zero_inode = \<lparr>idev = 0, inum = 0, iref = 0, isleep = initsleeplock ''inode'', ivalid = False, itype = 0,
     imajor = 0, iminor = 0, inlink = 0, isize = 0, iaddrs = replicate (NDIRECT + 1) 0\<rparr>"

definition zero_file :: ofile where
  "zero_file = \<lparr>ftype = FD_NONE, fref = 0, freadable = False, fwritable = False, fpipe = 0, fip = 0, foff = 0\<rparr>"

definition zero_pipe :: pipe where
  "zero_pipe = \<lparr>pdata = replicate PIPESIZE 0, nread = 0, nwrite = 0, readopen = False, writeopen = False\<rparr>"

definition boot_files :: file_sys where
  "boot_files = \<lparr>curpid = 1, bufs = (\<lambda>_. zero_buf), disk = small_disk, disksize = 100, dwrites = [], lg = zero_log,
     sb = sb_of_bytes (small_disk 1), inodes = (\<lambda>_. zero_inode),
     km = empty_kmem\<lparr>freelist := 0x80200000\<rparr>, files = (\<lambda>_. zero_file), pipes = (\<lambda>_. zero_pipe)\<rparr>"

lemma boot_kmem: "kmem_inv (km boot_files) [0x80200000]"
  by (simp add: boot_files_def kmem_inv_def empty_kmem_def page_ok_def V2P_def KERNBASE_def load32_def mk32_def)

theorem pipe_open_close_witness:
  "\<exists>s1 s2 s3. pipealloc boot_files = Inr (Some (0, 1), s1) \<and> fileclose 0 s1 = Inr s2 \<and> kmem_inv (km s2) []
    \<and> fileclose 1 s2 = Inr s3 \<and> kmem_inv (km s3) [0x80200000]"
proof -
  have "[0..<NFILE] = 0 # 1 # [2..<NFILE]"
    by (simp add: upt_rec)
  then obtain s1 where s1: "pipealloc boot_files = Inr (Some (0, 1), s1)"
    by (auto simp: pipealloc_def filealloc_def boot_files_def zero_file_def kalloc_def empty_kmem_def set_file_def Let_def)
  from pipe_open_close [OF boot_kmem s1, of 0 1] show ?thesis
    using s1 by auto
qed

end
