(* ===== verification/Vm.thy ===== *)
theory Vm
  imports Kalloc
begin

text \<open>
  Page tables, \<^verbatim>\<open>vm.c\<close> with the layout of \<^verbatim>\<open>mmu.h\<close> and \<^verbatim>\<open>memlayout.h\<close>. A page
  directory and its page tables are pages of the kernel's memory, addressed as the kernel does, by their
  virtual addresses above \<^verbatim>\<open>KERNBASE\<close>; the memory is that of the page allocator. \<open>kdata\<close>
  is the linker symbol \<^verbatim>\<open>data\<close>. A pointer to a page table entry is its address, \<open>None\<close> the
  null pointer. The messages printed on the console are left out. The loops over user addresses
  count in naturals: user sizes are below \<^verbatim>\<open>KERNBASE\<close> in every call, so the C variables hold
  the same values.
\<close>

section \<open>Addresses and entries\<close>

abbreviation NPDENTRIES :: nat where "NPDENTRIES \<equiv> 1024"
abbreviation PTE_P :: uint where "PTE_P \<equiv> 1"
abbreviation PTE_W :: uint where "PTE_W \<equiv> 2"
abbreviation PTE_U :: uint where "PTE_U \<equiv> 4"
abbreviation EXTMEM :: uint where "EXTMEM \<equiv> 0x100000"
abbreviation DEVSPACE :: uint where "DEVSPACE \<equiv> 0xFE000000"

definition KERNLINK :: uint where
  "KERNLINK = KERNBASE + EXTMEM"

definition PDX :: "uint \<Rightarrow> nat" where
  "PDX va = unat (drop_bit 22 va AND 0x3FF)"

definition PTX :: "uint \<Rightarrow> nat" where
  "PTX va = unat (drop_bit 12 va AND 0x3FF)"

definition PTE_ADDR :: "uint \<Rightarrow> uint" where
  "PTE_ADDR pte = pte AND NOT 0xFFF"

definition PTE_FLAGS :: "uint \<Rightarrow> uint" where
  "PTE_FLAGS pte = pte AND 0xFFF"

text \<open>The address of an entry of a directory or table.\<close>

definition entry :: "uint \<Rightarrow> nat \<Rightarrow> uint" where
  "entry tab i = tab + of_nat (4 * i)"

section \<open>The operations\<close>

definition walkpgdir :: "uint \<Rightarrow> uint \<Rightarrow> bool \<Rightarrow> 'a kmem_scheme \<Rightarrow> uint option \<times> 'a kmem_scheme" where
  "walkpgdir pgdir va alloc s =
     (let pde = entry pgdir (PDX va); v = load32 (ram s) pde in
      if v AND PTE_P \<noteq> 0 then (Some (entry (P2V (PTE_ADDR v)) (PTX va)), s)
      else if \<not> alloc then (None, s)
      else let (pgtab, s) = kalloc s in
           if pgtab = 0 then (None, s)
           else let m = memset pgtab 0 PGSIZE (ram s);
                    m = store32 pde (V2P pgtab OR PTE_P OR PTE_W OR PTE_U) m
                in (Some (entry pgtab (PTX va)), s\<lparr>ram := m\<rparr>))"

text \<open>
  The loop of \<^verbatim>\<open>mappages\<close> visits page-aligned addresses from \<open>a\<close> to \<open>lst\<close>; there are
  \<open>2 ^ 20\<close> of them, so that many rounds are enough.
\<close>

fun mappages_loop :: "nat \<Rightarrow> uint \<Rightarrow> uint \<Rightarrow> uint \<Rightarrow> uint \<Rightarrow> uint \<Rightarrow> 'a kmem_scheme \<Rightarrow> (int \<times> 'a kmem_scheme) res" where
  "mappages_loop 0 pgdir a lst pa perm s = Inl Diverge"
| "mappages_loop (Suc n) pgdir a lst pa perm s =
     (case walkpgdir pgdir a True s of
        (None, s) \<Rightarrow> Inr (- 1, s)
      | (Some pte, s) \<Rightarrow>
          if load32 (ram s) pte AND PTE_P \<noteq> 0 then Inl (Panic ''remap'')
          else let s = s\<lparr>ram := store32 pte (pa OR perm OR PTE_P) (ram s)\<rparr> in
               if a = lst then Inr (0, s)
               else mappages_loop n pgdir (a + PGSIZE) lst (pa + PGSIZE) perm s)"

definition mappages :: "uint \<Rightarrow> uint \<Rightarrow> uint \<Rightarrow> uint \<Rightarrow> uint \<Rightarrow> 'a kmem_scheme \<Rightarrow> (int \<times> 'a kmem_scheme) res" where
  "mappages pgdir va sz pa perm s =
     mappages_loop 1048576 pgdir (PGROUNDDOWN va) (PGROUNDDOWN (va + sz - 1)) pa perm s"

function deallocuvm_loop :: "uint \<Rightarrow> nat \<Rightarrow> nat \<Rightarrow> 'a kmem_scheme \<Rightarrow> 'a kmem_scheme res" where
  "deallocuvm_loop pgdir oldsz a s =
     (if a < oldsz
      then case walkpgdir pgdir (of_nat a) False s of
          (None, s) \<Rightarrow> deallocuvm_loop pgdir oldsz ((a div 4194304 + 1) * 4194304) s
        | (Some pte, s) \<Rightarrow>
            let v = load32 (ram s) pte in
            if v AND PTE_P \<noteq> 0
            then if PTE_ADDR v = 0 then Inl (Panic ''kfree'')
                 else rbind (kfree (P2V (PTE_ADDR v)) s) (\<lambda>s.
                      deallocuvm_loop pgdir oldsz (a + 4096) (s\<lparr>ram := store32 pte 0 (ram s)\<rparr>))
            else deallocuvm_loop pgdir oldsz (a + 4096) s
      else Inr s)"
  by pat_completeness auto
termination
proof (relation "measure (\<lambda>(pgdir, oldsz, a, s). oldsz - a)", goal_cases)
  case (2 pgdir oldsz a s)
  have "a mod 4194304 < 4194304" "a = 4194304 * (a div 4194304) + a mod 4194304"
    by simp_all
  then have "a < (a div 4194304 + 1) * 4194304"
    by (metis add.commute mult.commute mult_Suc plus_1_eq_Suc add_less_cancel_left)
  then show ?case
    using 2 by simp
qed auto

declare deallocuvm_loop.simps [simp del]

definition deallocuvm :: "uint \<Rightarrow> uint \<Rightarrow> uint \<Rightarrow> 'a kmem_scheme \<Rightarrow> (uint \<times> 'a kmem_scheme) res" where
  "deallocuvm pgdir oldsz newsz s =
     (if oldsz \<le> newsz then Inr (oldsz, s)
      else rbind (deallocuvm_loop pgdir (unat oldsz) (unat (PGROUNDUP newsz)) s) (\<lambda>s. Inr (newsz, s)))"

definition freevm :: "uint \<Rightarrow> 'a kmem_scheme \<Rightarrow> 'a kmem_scheme res" where
  "freevm pgdir s =
     (if pgdir = 0 then Inl (Panic ''freevm: no pgdir'')
      else rbind (deallocuvm pgdir KERNBASE 0 s) (\<lambda>(_, s).
           rbind (for_each (\<lambda>i s. let v = load32 (ram s) (entry pgdir i) in
                     if v AND PTE_P \<noteq> 0 then kfree (P2V (PTE_ADDR v)) s else Inr s) [0..<NPDENTRIES] s) (\<lambda>s.
           kfree pgdir s)))"

text \<open>The kernel's mappings: virtual address, physical start and end, permissions.\<close>

definition kmap :: "uint \<Rightarrow> (uint \<times> uint \<times> uint \<times> uint) list" where
  "kmap kdata =
     [(KERNBASE, 0, EXTMEM, PTE_W),
      (KERNLINK, V2P KERNLINK, V2P kdata, 0),
      (kdata, V2P kdata, PHYSTOP, PTE_W),
      (DEVSPACE, DEVSPACE, 0, PTE_W)]"

fun setupkvm_maps :: "uint \<Rightarrow> (uint \<times> uint \<times> uint \<times> uint) list \<Rightarrow> 'a kmem_scheme \<Rightarrow> (uint \<times> 'a kmem_scheme) res" where
  "setupkvm_maps pgdir [] s = Inr (pgdir, s)"
| "setupkvm_maps pgdir ((virt, phys_start, phys_end, perm) # ks) s =
     rbind (mappages pgdir virt (phys_end - phys_start) phys_start perm s) (\<lambda>(r, s).
     if r < 0 then rbind (freevm pgdir s) (\<lambda>s. Inr (0, s)) else setupkvm_maps pgdir ks s)"

definition setupkvm :: "uint \<Rightarrow> 'a kmem_scheme \<Rightarrow> (uint \<times> 'a kmem_scheme) res" where
  "setupkvm kdata s =
     (let (pgdir, s) = kalloc (s\<lparr>kallocNum := 0\<rparr>) in
      if pgdir = 0 then Inr (0, s)
      else let s = s\<lparr>ram := memset pgdir 0 PGSIZE (ram s)\<rparr> in
           if DEVSPACE < P2V PHYSTOP then Inl (Panic ''PHYSTOP too high'')
           else setupkvm_maps pgdir (kmap kdata) s)"

text \<open>\<^verbatim>\<open>poke\<close> stores bytes at consecutive addresses.\<close>

fun poke :: "uint \<Rightarrow> bytes \<Rightarrow> mem \<Rightarrow> mem" where
  "poke a [] m = m"
| "poke a (b # bs) m = poke (a + 1) bs (m(a := b))"

text \<open>\<^verbatim>\<open>inituvm\<close> does not check the result of \<^verbatim>\<open>kalloc\<close>: without a page it writes at address 0.\<close>

definition inituvm :: "uint \<Rightarrow> bytes \<Rightarrow> 'a kmem_scheme \<Rightarrow> 'a kmem_scheme res" where
  "inituvm pgdir init s =
     (if 4096 \<le> length init then Inl (Panic ''inituvm: more than a page'')
      else let (page, s) = kalloc s in
           if page = 0 then Inl Fault
           else let s = s\<lparr>ram := memset page 0 PGSIZE (ram s)\<rparr> in
                rbind (mappages pgdir 0 PGSIZE (V2P page) (PTE_W OR PTE_U) s) (\<lambda>(_, s).
                Inr (s\<lparr>ram := poke page init (ram s)\<rparr>)))"

function allocuvm_loop :: "uint \<Rightarrow> uint \<Rightarrow> uint \<Rightarrow> nat \<Rightarrow> 'a kmem_scheme \<Rightarrow> (uint \<times> 'a kmem_scheme) res" where
  "allocuvm_loop pgdir oldsz newsz a s =
     (if a < unat newsz
      then let (page, s) = kalloc s in
           if page = 0 then rbind (deallocuvm pgdir newsz oldsz s) (\<lambda>(_, s). Inr (0, s))
           else let s = s\<lparr>ram := memset page 0 PGSIZE (ram s)\<rparr> in
                rbind (mappages pgdir (of_nat a) PGSIZE (V2P page) (PTE_W OR PTE_U) s) (\<lambda>(r, s).
                if r < 0
                then rbind (deallocuvm pgdir newsz oldsz s) (\<lambda>(_, s).
                     rbind (kfree page s) (\<lambda>s. Inr (0, s)))
                else allocuvm_loop pgdir oldsz newsz (a + 4096) s)
      else Inr (newsz, s))"
  by pat_completeness auto
termination
  by (relation "measure (\<lambda>(pgdir, oldsz, newsz, a, s). unat newsz - a)") auto

declare allocuvm_loop.simps [simp del]

definition allocuvm :: "uint \<Rightarrow> uint \<Rightarrow> uint \<Rightarrow> 'a kmem_scheme \<Rightarrow> (uint \<times> 'a kmem_scheme) res" where
  "allocuvm pgdir oldsz newsz s =
     (if KERNBASE \<le> newsz then Inr (0, s)
      else if newsz < oldsz then Inr (oldsz, s)
      else allocuvm_loop pgdir oldsz newsz (unat (PGROUNDUP oldsz)) s)"

definition clearpteu :: "uint \<Rightarrow> uint \<Rightarrow> 'a kmem_scheme \<Rightarrow> 'a kmem_scheme res" where
  "clearpteu pgdir uva s =
     (case walkpgdir pgdir uva False s of
        (None, s) \<Rightarrow> Inl (Panic ''clearpteu'')
      | (Some pte, s) \<Rightarrow> Inr (s\<lparr>ram := store32 pte (load32 (ram s) pte AND NOT PTE_U) (ram s)\<rparr>))"

function copyuvm_loop :: "uint \<Rightarrow> uint \<Rightarrow> nat \<Rightarrow> nat \<Rightarrow> 'a kmem_scheme \<Rightarrow> (uint \<times> 'a kmem_scheme) res" where
  "copyuvm_loop pgdir d sz i s =
     (if i < sz
      then case walkpgdir pgdir (of_nat i) False s of
          (None, s) \<Rightarrow> Inl (Panic ''copyuvm: pte should exist'')
        | (Some pte, s) \<Rightarrow>
            let v = load32 (ram s) pte in
            if v AND PTE_P = 0 then Inl (Panic ''copyuvm: page not present'')
            else let (page, s) = kalloc s in
                 if page = 0 then rbind (freevm d s) (\<lambda>s. Inr (0, s))
                 else let s = s\<lparr>ram := memmove page (P2V (PTE_ADDR v)) PGSIZE (ram s)\<rparr> in
                      rbind (mappages d (of_nat i) PGSIZE (V2P page) (PTE_FLAGS v) s) (\<lambda>(r, s).
                      if r < 0 then rbind (kfree page s) (\<lambda>s. rbind (freevm d s) (\<lambda>s. Inr (0, s)))
                      else copyuvm_loop pgdir d sz (i + 4096) s)
      else Inr (d, s))"
  by pat_completeness auto
termination
  by (relation "measure (\<lambda>(pgdir, d, sz, i, s). sz - i)") auto

declare copyuvm_loop.simps [simp del]

definition copyuvm :: "uint \<Rightarrow> uint \<Rightarrow> uint \<Rightarrow> 'a kmem_scheme \<Rightarrow> (uint \<times> 'a kmem_scheme) res" where
  "copyuvm kdata pgdir sz s =
     rbind (setupkvm kdata s) (\<lambda>(d, s).
     if d = 0 then Inr (0, s) else copyuvm_loop pgdir d (unat sz) 0 s)"

text \<open>\<^verbatim>\<open>uva2ka\<close> uses the entry that \<^verbatim>\<open>walkpgdir\<close> returns without testing it for null.\<close>

definition uva2ka :: "uint \<Rightarrow> uint \<Rightarrow> 'a kmem_scheme \<Rightarrow> uint res" where
  "uva2ka pgdir uva s =
     (case walkpgdir pgdir uva False s of
        (None, s) \<Rightarrow> Inl Fault
      | (Some pte, s) \<Rightarrow>
          let v = load32 (ram s) pte in
          if v AND PTE_P = 0 then Inr 0
          else if v AND PTE_U = 0 then Inr 0
          else Inr (P2V (PTE_ADDR v)))"

lemma page_offset: "va - PGROUNDDOWN va = va AND mask 12"
proof -
  have "PGROUNDDOWN va = va AND NOT (mask 12)"
    by (simp add: PGROUNDDOWN_def mask_eq_exp_minus_1)
  moreover have "va = (va AND NOT (mask 12)) + (va AND mask 12)"
    by (subst disjunctive_add) (auto simp: bit_simps intro!: bit_word_eqI)
  ultimately show ?thesis
    by (metis add_diff_cancel_left')
qed
lemma page_offset_lt: "unat (va - PGROUNDDOWN va) < 4096"
  by (simp add: page_offset unat_and_mask)

function copyout :: "uint \<Rightarrow> uint \<Rightarrow> bytes \<Rightarrow> 'a kmem_scheme \<Rightarrow> (int \<times> 'a kmem_scheme) res" where
  "copyout pgdir va buf s =
     (if buf \<noteq> []
      then let va0 = PGROUNDDOWN va in
           rbind (uva2ka pgdir va0 s) (\<lambda>pa0.
           if pa0 = 0 then Inr (- 1, s)
           else let n = min (4096 - unat (va - va0)) (length buf);
                    s = s\<lparr>ram := poke (pa0 + (va - va0)) (take n buf) (ram s)\<rparr>
                in copyout pgdir (va0 + PGSIZE) (drop n buf) s)
      else Inr (0, s))"
  by pat_completeness auto
termination
proof (relation "measure (\<lambda>(pgdir, va, buf, s). length buf)", simp, goal_cases)
  case (1 pgdir va buf s va0 pa0 n s')
  then show ?case
    using page_offset_lt [of va] by auto
qed

declare copyout.simps [simp del]

end
