(* ===== verification/Vm_Map.thy ===== *)
theory Vm_Map
  imports Vm
begin

text \<open>
  What the page tables mean. The translation of an address is the page table entry the hardware
  would find for it; a directory is well formed when it and its tables are distinct pages of memory outside the
  free list. For well-formed directories \<^verbatim>\<open>walkpgdir\<close> and \<^verbatim>\<open>mappages\<close> extend the translation
  by exactly the pages asked for.
\<close>

section \<open>Entries\<close>

lemma PDX_less: "PDX va < 1024"
  using unat_and_mask [of "drop_bit 22 va" 10] by (simp add: PDX_def mask_eq_exp_minus_1)

lemma PTX_less: "PTX va < 1024"
  using unat_and_mask [of "drop_bit 12 va" 10] by (simp add: PTX_def mask_eq_exp_minus_1)

lemma in_entry: "i < 1024 \<Longrightarrow> x \<in> region (entry tab i) 4 \<Longrightarrow> 4 * i \<le> unat (x - tab) \<and> unat (x - tab) < 4 * i + 4"
proof -
  assume i: "i < 1024" and "x \<in> region (entry tab i) 4"
  then obtain j where j: "j < 4" "x = tab + of_nat (4 * i) + of_nat j"
    by (auto simp: region_offset entry_def)
  have "x - tab = of_nat (4 * i + j)"
    using j by simp
  moreover have "4 * i + j < 4294967296"
    using i j by linarith
  ultimately have "unat (x - tab) = 4 * i + j"
    by (metis unat_of_nat_uint)
  then show "4 * i \<le> unat (x - tab) \<and> unat (x - tab) < 4 * i + 4"
    using j by simp
qed

lemma entry_in_page: "i < 1024 \<Longrightarrow> region (entry tab i) 4 \<subseteq> region tab 4096"
  using in_entry by (fastforce simp: region_iff)

lemma entries_disjoint: "i < 1024 \<Longrightarrow> j < 1024 \<Longrightarrow> i \<noteq> j \<Longrightarrow> region (entry tab i) 4 \<inter> region (entry tab j) 4 = {}"
proof (rule ccontr)
  assume ij: "i < 1024" "j < 1024" "i \<noteq> j" and "region (entry tab i) 4 \<inter> region (entry tab j) 4 \<noteq> {}"
  then obtain x where "x \<in> region (entry tab i) 4" "x \<in> region (entry tab j) 4"
    by blast
  then have "4 * i < 4 * j + 4" "4 * j < 4 * i + 4"
    using in_entry [OF ij(1)] in_entry [OF ij(2)] by (meson le_less_trans)+
  then show False
    using ij(3) by linarith
qed

lemma load32_frame: "(\<And>x. x \<in> region a 4 \<Longrightarrow> m x = m' x) \<Longrightarrow> load32 m a = load32 m' a"
  by (intro load32_cong) (auto simp: in_region)

lemma load32_store32_disjoint: "region a 4 \<inter> region b 4 = {} \<Longrightarrow> load32 (store32 a w m) b = load32 m b"
  by (intro load32_frame) (auto intro!: store32_other)

text \<open>A store into an entry, seen through an entry of the same or another page.\<close>

lemma load_entry_store:
  assumes "t mod PGSIZE = 0" and "u mod PGSIZE = 0" and "i < 1024" and "j < 1024"
  shows "load32 (store32 (entry t i) w m) (entry u j) = (if t = u \<and> i = j then w else load32 m (entry u j))"
proof (cases "t = u")
  case True
  then show ?thesis
    using entries_disjoint [OF assms(3,4)] by (auto simp: load32_store32_disjoint)
next
  case False
  then have "region t 4096 \<inter> region u 4096 = {}"
    using pages_disjoint [OF assms(1,2)] by simp
  then have "region (entry t i) 4 \<inter> region (entry u j) 4 = {}"
    using entry_in_page [OF assms(3), of t] entry_in_page [OF assms(4), of u] by blast
  then show ?thesis
    using False by (simp add: load32_store32_disjoint)
qed

lemma load_entry_memset:
  assumes "t mod PGSIZE = 0" and "u mod PGSIZE = 0" and "j < 1024"
  shows "load32 (memset t 0 PGSIZE m) (entry u j) = (if t = u then 0 else load32 m (entry u j))"
proof (cases "t = u")
  case True
  have "load32 (memset t 0 PGSIZE m) (entry u j) = load32 (\<lambda>_. 0) (entry u j)"
    using entry_in_page [OF assms(3), of u] True by (intro load32_frame) (auto simp: memset_spec)
  then show ?thesis
    using True by (simp add: load32_def mk32_def)
next
  case False
  then have "region t 4096 \<inter> region u 4096 = {}"
    using pages_disjoint [OF assms(1,2)] by simp
  then show ?thesis
    using False entry_in_page [OF assms(3), of u]
    by (simp, intro load32_frame) (auto simp: memset_spec)
qed

lemma PTE_ADDR_V2P:
  assumes "p mod PGSIZE = 0" and "f AND NOT 0xFFF = 0"
  shows "PTE_ADDR (V2P p OR f) = V2P p"
proof -
  have m: "0xFFF = (mask 12 :: uint)" "PGSIZE = 2 ^ 12" "KERNBASE = 2 ^ 31"
    by (simp_all add: mask_eq_exp_minus_1 KERNBASE_def)
  have "V2P p mod 2 ^ 12 = 0"
  proof -
    obtain q where q: "unat p = 4096 * q"
      using page_unat(1) [OF assms(1)] by (metis dvd_def mod_0_imp_dvd)
    have "unat (V2P p) = 4096 * (if 524288 \<le> q then q - 524288 else q + 524288)"
      using q by (auto simp: V2P_def KERNBASE_def unat_sub_if')
    then show ?thesis
      by (simp add: word_unat_eq_iff unat_mod)
  qed
  then have "take_bit 12 (V2P p) = 0"
    by (simp add: take_bit_eq_mod)
  then have low: "\<not> bit (V2P p) n" if "n < 12" for n
    using that by (metis bit_0_eq bit_take_bit_iff bot_apply bot_bool_def)
  have high: "\<not> bit f n" if "12 \<le> n" "n < 32" for n
  proof
    assume "bit f n"
    then have "bit (f AND NOT (mask 12)) n"
      using that by (simp add: bit_simps)
    then show False
      using assms(2) unfolding m by simp
  qed
  show ?thesis
    unfolding PTE_ADDR_def m using low high by (intro bit_word_eqI) (auto simp: bit_simps not_less, meson not_le)
qed

section \<open>Translations\<close>

definition pde :: "mem \<Rightarrow> uint \<Rightarrow> nat \<Rightarrow> uint" where
  "pde m pgdir i = load32 m (entry pgdir i)"

definition tab :: "mem \<Rightarrow> uint \<Rightarrow> nat \<Rightarrow> uint" where
  "tab m pgdir i = P2V (PTE_ADDR (pde m pgdir i))"

definition present :: "uint \<Rightarrow> bool" where
  "present v \<longleftrightarrow> v AND PTE_P \<noteq> 0"

text \<open>The page table entry of the page with the directory index \<open>i\<close> and table index \<open>j\<close>.\<close>

definition pte :: "mem \<Rightarrow> uint \<Rightarrow> nat \<Rightarrow> nat \<Rightarrow> uint" where
  "pte m pgdir i j = (if present (pde m pgdir i) then load32 m (entry (tab m pgdir i) j) else 0)"

definition translate :: "mem \<Rightarrow> uint \<Rightarrow> uint \<Rightarrow> uint option" where
  "translate m pgdir va =
     (let v = pte m pgdir (PDX va) (PTX va) in if present v then Some v else None)"

definition pt_wf :: "mem \<Rightarrow> uint \<Rightarrow> uint \<Rightarrow> uint list \<Rightarrow> bool" where
  "pt_wf m e pgdir xs \<longleftrightarrow> page_ok e pgdir \<and> pgdir \<notin> set xs
     \<and> (\<forall>i < 1024. present (pde m pgdir i) \<longrightarrow> page_ok e (tab m pgdir i) \<and> tab m pgdir i \<notin> set xs \<and> tab m pgdir i \<noteq> pgdir)
     \<and> (\<forall>i < 1024. \<forall>j < 1024. present (pde m pgdir i) \<longrightarrow> present (pde m pgdir j) \<longrightarrow> tab m pgdir i = tab m pgdir j \<longrightarrow> i = j)"

lemma present_bit: "present v \<longleftrightarrow> bit v 0"
  using and_exp_eq_0_iff_not_bit [of v 0] by (simp add: present_def)

lemma not_present_0 [simp]: "\<not> present 0"
  by (simp add: present_def)

lemma page_ok_mod: "page_ok e p \<Longrightarrow> p mod PGSIZE = 0"
  by (simp add: page_ok_def)

lemma P2V_V2P [simp]: "P2V (V2P p) = p"
  by (simp add: P2V_def V2P_def)

text \<open>Storing a page table entry changes that entry only.\<close>

lemma store_pte:
  fixes w :: uint
  assumes wf: "pt_wf m e pgdir xs" and i: "i < 1024" "j < 1024" "present (pde m pgdir i)"
  defines "m' \<equiv> store32 (entry (tab m pgdir i) j) w m"
  shows "k < 1024 \<Longrightarrow> pde m' pgdir k = pde m pgdir k"
    and "pt_wf m' e pgdir xs"
    and "\<lbrakk>k < 1024; l < 1024\<rbrakk> \<Longrightarrow> pte m' pgdir k l = (if k = i \<and> l = j then w else pte m pgdir k l)"
proof -
  have t: "tab m pgdir i mod PGSIZE = 0" "pgdir mod PGSIZE = 0" "tab m pgdir i \<noteq> pgdir"
    using wf i by (auto simp: pt_wf_def page_ok_def)
  have d: "pde m' pgdir k = pde m pgdir k" if "k < 1024" for k
    using load_entry_store [OF t(1,2) i(2) that] t(3) by (simp add: m'_def pde_def)
  have tb: "tab m' pgdir k = tab m pgdir k" if "k < 1024" for k
    using d [OF that] by (simp add: tab_def)
  show "pt_wf m' e pgdir xs"
    using wf d tb unfolding pt_wf_def by metis
  show "pde m' pgdir k = pde m pgdir k" if "k < 1024"
    by (rule d [OF that])
  show "pte m' pgdir k l = (if k = i \<and> l = j then w else pte m pgdir k l)" if "k < 1024" "l < 1024"
  proof (cases "present (pde m pgdir k)")
    case True
    then have "tab m pgdir k mod PGSIZE = 0"
      using wf that(1) by (auto simp: pt_wf_def page_ok_def)
    moreover have "tab m pgdir k = tab m pgdir i \<longleftrightarrow> k = i"
      using wf i that(1) True by (auto simp: pt_wf_def)
    ultimately show ?thesis
      using load_entry_store [OF t(1) _ i(2) that(2), of "tab m pgdir k" w m] d [OF that(1)] tb [OF that(1)] True
      by (auto simp: pte_def m'_def)
  next
    case False
    then show ?thesis
      using d [OF that(1)] i(3) by (auto simp: pte_def)
  qed
qed

text \<open>A new, empty page table.\<close>

lemma new_table:
  assumes wf: "pt_wf m e pgdir (p # xs)" and p: "page_ok e p" "p \<notin> set xs" and i: "i < 1024" "\<not> present (pde m pgdir i)"
    and v: "v = V2P p OR PTE_P OR PTE_W OR PTE_U"
  defines "m' \<equiv> store32 (entry pgdir i) v (memset p 0 PGSIZE m)"
  shows "present (pde m' pgdir i)" and "tab m' pgdir i = p" and "pt_wf m' e pgdir xs"
    and "\<lbrakk>k < 1024; l < 1024\<rbrakk> \<Longrightarrow> pte m' pgdir k l = pte m pgdir k l"
proof -
  have pg: "p mod PGSIZE = 0" "pgdir mod PGSIZE = 0" "p \<noteq> pgdir"
    using wf p by (auto simp: pt_wf_def page_ok_def)
  have d: "pde m' pgdir k = (if k = i then v else pde m pgdir k)" if "k < 1024" for k
    using load_entry_store [OF pg(2,2) i(1) that] load_entry_memset [OF pg(1,2) that] pg(3)
    by (auto simp: m'_def pde_def)
  have pv: "present v"
    by (simp add: v present_bit bit_simps)
  have tv: "P2V (PTE_ADDR v) = p"
  proof -
    have "v = V2P p OR (PTE_P OR PTE_W OR PTE_U)"
      by (simp add: v or.assoc)
    then show ?thesis
      using PTE_ADDR_V2P [OF pg(1), of "PTE_P OR PTE_W OR PTE_U"] by simp
  qed
  show pi: "present (pde m' pgdir i)" and ti: "tab m' pgdir i = p"
    using d [OF i(1)] pv tv by (simp_all add: tab_def)
  have wfT: "page_ok e (tab m pgdir k)" "tab m pgdir k \<notin> set (p # xs)" "tab m pgdir k \<noteq> pgdir"
    if "k < 1024" "present (pde m pgdir k)" for k
    using wf that by (simp_all add: pt_wf_def)
  have wfI: "k = l" if "k < 1024" "l < 1024" "present (pde m pgdir k)" "present (pde m pgdir l)" "tab m pgdir k = tab m pgdir l" for k l
    using wf that by (simp add: pt_wf_def)
  have tk: "tab m' pgdir k = tab m pgdir k" "tab m pgdir k \<noteq> p" if "k < 1024" "k \<noteq> i" "present (pde m pgdir k)" for k
    using d [OF that(1)] that wfT(2) [OF that(1,3)] by (simp_all add: tab_def)
  have old: "present (pde m pgdir k)" if "k < 1024" "k \<noteq> i" "present (pde m' pgdir k)" for k
    using d [OF that(1)] that by simp
  have good: "page_ok e (tab m' pgdir k) \<and> tab m' pgdir k \<notin> set xs \<and> tab m' pgdir k \<noteq> pgdir" if "k < 1024" "present (pde m' pgdir k)" for k
  proof (cases "k = i")
    case True
    then show ?thesis
      using ti p pg(3) by simp
  next
    case False
    note o = old [OF that(1) False that(2)]
    show ?thesis
      using wfT [OF that(1) o] tk [OF that(1) False o] by simp
  qed
  have inj: "k = l" if k: "k < 1024" "present (pde m' pgdir k)" and l: "l < 1024" "present (pde m' pgdir l)"
    and eq: "tab m' pgdir k = tab m' pgdir l" for k l
  proof (rule ccontr)
    assume "k \<noteq> l"
    then consider "k = i" "l \<noteq> i" | "l = i" "k \<noteq> i" | "k \<noteq> i" "l \<noteq> i"
      by blast
    then show False
    proof cases
      case 1
      then show False
        using ti eq tk [OF l(1) 1(2) old [OF l(1) 1(2) l(2)]] by simp
    next
      case 2
      then show False
        using ti eq tk [OF k(1) 2(2) old [OF k(1) 2(2) k(2)]] by simp
    next
      case 3
      note ok = old [OF k(1) 3(1) k(2)] and ol = old [OF l(1) 3(2) l(2)]
      show False
        using wfI [OF k(1) l(1) ok ol] eq tk(1) [OF k(1) 3(1) ok] tk(1) [OF l(1) 3(2) ol] \<open>k \<noteq> l\<close> by simp
    qed
  qed
  have "page_ok e pgdir" "pgdir \<notin> set xs"
    using wf by (simp_all add: pt_wf_def)
  then show "pt_wf m' e pgdir xs"
    unfolding pt_wf_def using good inj by blast
  show "pte m' pgdir k l = pte m pgdir k l" if "k < 1024" "l < 1024"
  proof (cases "k = i")
    case True
    have "load32 m' (entry p l) = 0"
      using load_entry_store [OF pg(2,1) i(1) that(2)] load_entry_memset [OF pg(1,1) that(2)] pg(3)
      by (auto simp: m'_def)
    then show ?thesis
      using True pi ti i(2) by (simp add: pte_def)
  next
    case False
    show ?thesis
    proof (cases "present (pde m pgdir k)")
      case True
      have "tab m pgdir k mod PGSIZE = 0" "tab m pgdir k \<noteq> pgdir"
        using wf that(1) True by (auto simp: pt_wf_def page_ok_def)
      then have "load32 m' (entry (tab m pgdir k) l) = load32 m (entry (tab m pgdir k) l)"
        using load_entry_store [OF pg(2) _ i(1) that(2), of "tab m pgdir k"] load_entry_memset [OF pg(1) _ that(2), of "tab m pgdir k"]
          tk(2) [OF that(1) False True] by (auto simp: m'_def)
      then show ?thesis
        using tk(1) [OF that(1) False True] d [OF that(1)] False by (simp add: pte_def)
    next
      case np: False
      then show ?thesis
        using d [OF that(1)] False by (simp add: pte_def)
    qed
  qed
qed

section \<open>Page numbers\<close>

definition pteN :: "mem \<Rightarrow> uint \<Rightarrow> nat \<Rightarrow> uint" where
  "pteN m pgdir n = pte m pgdir (n div 1024) (n mod 1024)"

lemma PDX_page: "PDX va = unat va div 4096 div 1024"
proof -
  have "unat (drop_bit 22 va) = unat va div 4194304"
    by (simp add: drop_bit_eq_div unat_div)
  moreover have "unat va div 4194304 < 1024"
    using unat_uint_lt [of va] by (simp add: div_less_iff_less_mult)
  ultimately show ?thesis
    using unat_and_mask [of "drop_bit 22 va" 10] by (simp add: PDX_def mask_eq_exp_minus_1 div_mult2_eq [symmetric])
qed

lemma PTX_page: "PTX va = unat va div 4096 mod 1024"
  using unat_and_mask [of "drop_bit 12 va" 10]
  by (simp add: PTX_def mask_eq_exp_minus_1 drop_bit_eq_div unat_div)

lemma translate_pteN:
  "translate m pgdir va = (let v = pteN m pgdir (unat va div 4096) in if present v then Some v else None)"
  by (simp add: translate_def pteN_def PDX_page PTX_page)

lemma pageno_less: "unat (va :: uint) div 4096 < 1048576"
  using unat_uint_lt [of va] by (simp add: div_less_iff_less_mult)

lemma pageno_split: "n < 1048576 \<Longrightarrow> n div 1024 < 1024 \<and> n mod 1024 < 1024" for n :: nat
  by (simp add: div_less_iff_less_mult)

lemma pageno_eq: "n div 1024 = k div 1024 \<and> n mod 1024 = k mod 1024 \<longleftrightarrow> n = k" for n k :: nat
  by (metis div_mult_mod_eq)

section \<open>Walking and mapping\<close>

lemma kmem_inv_ram:
  assumes "kmem_inv s xs" and "\<And>x y. x \<in> set xs \<Longrightarrow> y \<in> region x 4096 \<Longrightarrow> m y = ram s y"
  shows "kmem_inv (s\<lparr>ram := m\<rparr>) xs"
  using assms(1) chain_frame [of "ram s" "freelist s" xs m] assms(2) by (simp add: kmem_inv_def)

lemma store_other_page:
  assumes "t mod PGSIZE = 0" and "u mod PGSIZE = 0" and "t \<noteq> u" and "i < 1024" and "y \<in> region u 4096"
  shows "store32 (entry t i) w m y = m y"
proof (rule store32_other)
  show "y \<notin> region (entry t i) 4"
    using entry_in_page [OF assms(4), of t] pages_disjoint [OF assms(1,2,3)] assms(5) by blast
qed

lemma memset_other_page:
  assumes "t mod PGSIZE = 0" and "u mod PGSIZE = 0" and "t \<noteq> u" and "y \<in> region u 4096"
  shows "memset t c PGSIZE m y = m y"
  using pages_disjoint [OF assms(1,2,3)] assms(4) by (auto simp: memset_spec)

lemma free_page: "kmem_inv s xs \<Longrightarrow> x \<in> set xs \<Longrightarrow> page_ok (kend s) x"
  by (simp add: kmem_inv_def)

text \<open>The state of an address space: the directory is well formed with respect to the free list.\<close>

definition vm_inv :: "uint \<Rightarrow> 'a kmem_scheme \<Rightarrow> uint list \<Rightarrow> bool" where
  "vm_inv pgdir s xs \<longleftrightarrow> kmem_inv s xs \<and> pt_wf (ram s) (kend s) pgdir xs"

lemma walkpgdir_present:
  "present (pde (ram s) pgdir (PDX va)) \<Longrightarrow>
     walkpgdir pgdir va alloc s = (Some (entry (tab (ram s) pgdir (PDX va)) (PTX va)), s)"
  by (simp add: walkpgdir_def present_def pde_def tab_def Let_def)

lemma walkpgdir_absent: "\<not> present (pde (ram s) pgdir (PDX va)) \<Longrightarrow> walkpgdir pgdir va False s = (None, s)"
  by (simp add: walkpgdir_def present_def pde_def Let_def)

lemma walkpgdir_alloc:
  assumes inv: "vm_inv pgdir s xs" and room: "xs \<noteq> []"
  shows "\<exists>s' ys. walkpgdir pgdir va True s = (Some (entry (tab (ram s') pgdir (PDX va)) (PTX va)), s')
    \<and> vm_inv pgdir s' ys \<and> kend s' = kend s \<and> length xs \<le> length ys + 1 \<and> present (pde (ram s') pgdir (PDX va))
    \<and> (\<forall>n < 1048576. pteN (ram s') pgdir n = pteN (ram s) pgdir n)"
proof (cases "present (pde (ram s) pgdir (PDX va))")
  case True
  then show ?thesis
    using inv by (intro exI [of _ s] exI [of _ xs]) (simp add: walkpgdir_present)
next
  case False
  obtain p ys where xs: "xs = p # ys"
    using room by (cases xs) auto
  have wf: "pt_wf (ram s) (kend s) pgdir (p # ys)" and km: "kmem_inv s (p # ys)"
    using inv by (simp_all add: vm_inv_def xs)
  obtain s1 where s1: "kalloc s = (p, s1)" "kmem_inv s1 ys" "ram s1 = ram s" "kend s1 = kend s"
    using kalloc_ok [OF km] by auto
  have p: "page_ok (kend s) p" "p \<notin> set ys" "p \<noteq> 0"
    using km by (auto simp: kmem_inv_def page_ok_def)
  define v where "v = V2P p OR PTE_P OR PTE_W OR PTE_U"
  define m' where "m' = store32 (entry pgdir (PDX va)) v (memset p 0 PGSIZE (ram s))"
  note nt = new_table [OF wf p(1,2) PDX_less False v_def, folded m'_def]
  let ?s = "s1\<lparr>ram := m'\<rparr>"
  have run: "walkpgdir pgdir va True s = (Some (entry p (PTX va)), ?s)"
    using False s1(1) p(3) by (simp add: walkpgdir_def present_def pde_def Let_def m'_def v_def s1(3))
  have pd: "page_ok (kend s) pgdir" "pgdir \<notin> set ys"
    using wf by (auto simp: pt_wf_def)
  have "kmem_inv ?s ys"
  proof (rule kmem_inv_ram [OF s1(2)])
    fix x y assume x: "x \<in> set ys" "y \<in> region x 4096"
    then have "page_ok (kend s) x"
      using free_page [OF s1(2)] s1(4) by simp
    then have md: "pgdir mod PGSIZE = 0" "p mod PGSIZE = 0" "x mod PGSIZE = 0"
      using p(1) pd(1) by (simp_all add: page_ok_def)
    have ne: "pgdir \<noteq> x" "p \<noteq> x"
      using x(1) p(2) pd(2) by auto
    show "m' y = ram s1 y"
      unfolding m'_def s1(3)
      using store_other_page [OF md(1,3) ne(1) PDX_less x(2)] memset_other_page [OF md(2,3) ne(2) x(2)] by metis
  qed
  then have "vm_inv pgdir ?s ys"
    using nt(3) s1(4) by (simp add: vm_inv_def)
  moreover have "pteN m' pgdir n = pteN (ram s) pgdir n" if "n < 1048576" for n
    using nt(4) [of "n div 1024" "n mod 1024"] pageno_split [OF that] by (simp add: pteN_def)
  ultimately show ?thesis
    using run nt(1,2) s1(4) xs by (intro exI [of _ ?s] exI [of _ ys]) simp
qed

text \<open>One round of \<^verbatim>\<open>mappages\<close>.\<close>

lemma set_entry:
  fixes w :: uint
  assumes inv: "vm_inv pgdir s xs" and pr: "present (pde (ram s) pgdir (PDX va))"
  defines "s' \<equiv> s\<lparr>ram := store32 (entry (tab (ram s) pgdir (PDX va)) (PTX va)) w (ram s)\<rparr>"
  shows "vm_inv pgdir s' xs" and "\<And>n. n < 1048576 \<Longrightarrow> pteN (ram s') pgdir n = (if n = unat va div 4096 then w else pteN (ram s) pgdir n)"
proof -
  have wf: "pt_wf (ram s) (kend s) pgdir xs" and km: "kmem_inv s xs"
    using inv by (simp_all add: vm_inv_def)
  note st = store_pte [where w = w, OF wf PDX_less PTX_less pr]
  have t: "page_ok (kend s) (tab (ram s) pgdir (PDX va))" "tab (ram s) pgdir (PDX va) \<notin> set xs"
    using wf pr PDX_less by (auto simp: pt_wf_def)
  have "kmem_inv s' xs"
    unfolding s'_def
  proof (rule kmem_inv_ram [OF km])
    fix x y assume x: "x \<in> set xs" "y \<in> region x 4096"
    then show "store32 (entry (tab (ram s) pgdir (PDX va)) (PTX va)) w (ram s) y = ram s y"
      using store_other_page [OF _ _ _ PTX_less x(2)] t page_ok_mod free_page [OF km x(1)] by metis
  qed
  then show "vm_inv pgdir s' xs"
    using st(2) by (simp add: vm_inv_def s'_def)
  fix n :: nat assume n: "n < 1048576"
  show "pteN (ram s') pgdir n = (if n = unat va div 4096 then w else pteN (ram s) pgdir n)"
    using st(3) [of "n div 1024" "n mod 1024"] pageno_split [OF n] pageno_eq [of n "unat va div 4096"]
    by (simp add: pteN_def s'_def PDX_page PTX_page)
qed

lemma map_round:
  assumes inv: "vm_inv pgdir s xs" and room: "xs \<noteq> []" and un: "\<not> present (pteN (ram s) pgdir (unat a div 4096))"
  obtains s' ys where "mappages_loop (Suc n) pgdir a lst pa perm s =
      (if a = lst then Inr (0, s') else mappages_loop n pgdir (a + PGSIZE) lst (pa + PGSIZE) perm s')"
    and "vm_inv pgdir s' ys" and "kend s' = kend s" and "length xs \<le> length ys + 1"
    and "\<And>k. k < 1048576 \<Longrightarrow> pteN (ram s') pgdir k = (if k = unat a div 4096 then pa OR perm OR PTE_P else pteN (ram s) pgdir k)"
proof -
  obtain s1 ys where 1: "walkpgdir pgdir a True s = (Some (entry (tab (ram s1) pgdir (PDX a)) (PTX a)), s1)"
    "vm_inv pgdir s1 ys" "kend s1 = kend s" "length xs \<le> length ys + 1" "present (pde (ram s1) pgdir (PDX a))"
    "\<And>k. k < 1048576 \<Longrightarrow> pteN (ram s1) pgdir k = pteN (ram s) pgdir k"
    using walkpgdir_alloc [OF inv room, of a] by blast
  let ?pte = "entry (tab (ram s1) pgdir (PDX a)) (PTX a)"
  have "pteN (ram s1) pgdir (unat a div 4096) = load32 (ram s1) ?pte"
    using 1(5) by (simp add: pteN_def pte_def PDX_page PTX_page)
  then have np: "load32 (ram s1) ?pte AND PTE_P = 0"
    using un 1(6) [OF pageno_less, of a] by (simp add: present_def)
  define s2 where "s2 = s1\<lparr>ram := store32 ?pte (pa OR perm OR PTE_P) (ram s1)\<rparr>"
  have run: "mappages_loop (Suc n) pgdir a lst pa perm s =
      (if a = lst then Inr (0, s2) else mappages_loop n pgdir (a + PGSIZE) lst (pa + PGSIZE) perm s2)"
    using 1(1) np by (simp add: s2_def Let_def)
  note se = set_entry [where w = "pa OR perm OR PTE_P", OF 1(2,5), folded s2_def]
  have "kend s2 = kend s"
    using 1(3) by (simp add: s2_def)
  then show ?thesis
    using that [OF run se(1) _ 1(4)] se(2) 1(6) by simp
qed

lemma mappages_loop_ok:
  assumes "vm_inv pgdir s xs" and "k < length xs" and "k < n" and "unat a mod 4096 = 0"
    and "unat a + 4096 * k < 4294967296"
    and "\<And>i. i \<le> k \<Longrightarrow> \<not> present (pteN (ram s) pgdir (unat a div 4096 + i))"
  shows "\<exists>s' ys. mappages_loop n pgdir a (a + of_nat (4096 * k)) pa perm s = Inr (0, s') \<and> vm_inv pgdir s' ys \<and> kend s' = kend s
    \<and> length xs \<le> length ys + k + 1
    \<and> (\<forall>j < 1048576. pteN (ram s') pgdir j =
         (if unat a div 4096 \<le> j \<and> j \<le> unat a div 4096 + k
          then (pa + of_nat (4096 * (j - unat a div 4096))) OR perm OR PTE_P else pteN (ram s) pgdir j))"
  using assms
proof (induction k arbitrary: n a pa s xs)
  case 0
  obtain n' where n: "n = Suc n'"
    using "0.prems"(3) by (cases n) simp_all
  define p where "p = unat a div 4096"
  have A: "xs \<noteq> []" "\<not> present (pteN (ram s) pgdir (unat a div 4096))"
    using "0.prems"(2) "0.prems"(6) [of 0] by auto
  obtain s' ys where 1: "mappages_loop n pgdir a a pa perm s = Inr (0, s')" "vm_inv pgdir s' ys" "kend s' = kend s"
    "length xs \<le> length ys + 1"
    "\<And>k. k < 1048576 \<Longrightarrow> pteN (ram s') pgdir k = (if k = p then pa OR perm OR PTE_P else pteN (ram s) pgdir k)"
    unfolding n p_def by (rule map_round [OF "0.prems"(1) A, of n' a pa perm]) simp
  have "pteN (ram s') pgdir j = (if p \<le> j \<and> j \<le> p + 0
          then (pa + of_nat (4096 * (j - p))) OR perm OR PTE_P else pteN (ram s) pgdir j)" if "j < 1048576" for j
    using 1(5) [OF that] by (cases "j = p") auto
  then show ?case
    using 1(1-4) unfolding p_def by (intro exI [of _ s'] exI [of _ ys]) simp
next
  case (Suc k)
  obtain n' where n: "n = Suc n'"
    using Suc.prems(3) by (cases n) simp_all
  let ?lst = "a + of_nat (4096 * Suc k)" and ?p = "unat a div 4096"
  have "unat (of_nat (4096 * Suc k) :: uint) = 4096 * Suc k"
    using Suc.prems(5) by (intro unat_of_nat_uint) simp
  then have "(of_nat (4096 * Suc k) :: uint) \<noteq> 0"
    by (metis mult_is_0 nat.distinct(1) unat_0 zero_neq_numeral)
  then have ne: "a \<noteq> ?lst"
    by (metis add_cancel_right_right)
  have A: "xs \<noteq> []" "\<not> present (pteN (ram s) pgdir ?p)"
    using Suc.prems(2) Suc.prems(6) [of 0] by auto
  obtain s1 ys where 1: "mappages_loop n pgdir a ?lst pa perm s = mappages_loop n' pgdir (a + PGSIZE) ?lst (pa + PGSIZE) perm s1"
    "vm_inv pgdir s1 ys" "kend s1 = kend s" "length xs \<le> length ys + 1"
    "\<And>j. j < 1048576 \<Longrightarrow> pteN (ram s1) pgdir j = (if j = ?p then pa OR perm OR PTE_P else pteN (ram s) pgdir j)"
    unfolding n by (rule map_round [OF Suc.prems(1) A, of n' ?lst pa perm]) (use ne in simp)
  have ua: "unat (a + PGSIZE) = unat a + 4096"
    using Suc.prems(5) unat_plus_small [of a PGSIZE] by simp
  have pa1: "unat (a + PGSIZE) div 4096 = Suc ?p"
    unfolding ua by simp
  have lst: "?lst = (a + PGSIZE) + of_nat (4096 * k)"
    by simp
  have un: "\<not> present (pteN (ram s1) pgdir (unat (a + PGSIZE) div 4096 + i))" if "i \<le> k" for i
  proof -
    have "4096 * ?p \<le> unat a"
      by simp
    then have "4096 * (?p + Suc i) < 4294967296"
      using Suc.prems(5) that by simp
    then have "?p + Suc i < 1048576"
      by simp
    then show ?thesis
      unfolding pa1 using 1(5) [of "?p + Suc i"] Suc.prems(6) [of "Suc i"] that by simp
  qed
  have side: "k < length ys" "k < n'" "unat (a + PGSIZE) mod 4096 = 0" "unat (a + PGSIZE) + 4096 * k < 4294967296"
    using Suc.prems(2,3,4,5) 1(4) n ua by simp_all
  obtain s' zs where 2: "mappages_loop n' pgdir (a + PGSIZE) ?lst (pa + PGSIZE) perm s1 = Inr (0, s')" "vm_inv pgdir s' zs"
    "kend s' = kend s1" "length ys \<le> length zs + k + 1"
    "\<And>j. j < 1048576 \<Longrightarrow> pteN (ram s') pgdir j = (if Suc ?p \<le> j \<and> j \<le> Suc ?p + k
          then (pa + PGSIZE + of_nat (4096 * (j - Suc ?p))) OR perm OR PTE_P else pteN (ram s1) pgdir j)"
    using Suc.IH [OF 1(2) side un, of "pa + PGSIZE"] unfolding pa1 lst by - (drule meta_mp, assumption, elim exE conjE, simp)
  have "pteN (ram s') pgdir j = (if ?p \<le> j \<and> j \<le> ?p + Suc k
          then (pa + of_nat (4096 * (j - ?p))) OR perm OR PTE_P else pteN (ram s) pgdir j)" if j: "j < 1048576" for j
  proof (cases "Suc ?p \<le> j")
    case True
    then have "pa + PGSIZE + of_nat (4096 * (j - Suc ?p)) = pa + of_nat (4096 * (j - ?p))"
    proof -
      have "4096 * (j - ?p) = 4096 + 4096 * (j - Suc ?p)"
        using True by simp
      then show ?thesis
        by (simp only: of_nat_add) simp
    qed
    then show ?thesis
      using 2(5) [OF j] 1(5) [OF j] True by simp
  next
    case False
    then show ?thesis
      using 2(5) [OF j] 1(5) [OF j] by auto
  qed
  then show ?case
    using 1 2 by (intro exI [of _ s'] exI [of _ zs]) simp
qed

lemma aligned_difference:
  fixes a b :: uint
  assumes "a mod PGSIZE = 0" and "b mod PGSIZE = 0" and "a \<le> b"
  shows "b = a + of_nat (4096 * ((unat b - unat a) div 4096))" and "unat a + 4096 * ((unat b - unat a) div 4096) = unat b"
proof -
  obtain p q where pq: "unat a = 4096 * p" "unat b = 4096 * q"
    using page_unat(1) [OF assms(1)] page_unat(1) [OF assms(2)] by (metis dvd_def mod_0_imp_dvd)
  have "p \<le> q"
    using assms(3) pq by (simp add: word_le_nat_alt)
  have d: "unat b - unat a = 4096 * (q - p)"
    by (simp add: pq diff_mult_distrib2)
  show u: "unat a + 4096 * ((unat b - unat a) div 4096) = unat b"
    unfolding d using pq \<open>p \<le> q\<close> by simp
  have "of_nat (unat b) = (of_nat (unat a + 4096 * ((unat b - unat a) div 4096)) :: uint)"
    unfolding u by simp
  then show "b = a + of_nat (4096 * ((unat b - unat a) div 4096))"
    by (simp only: of_nat_add of_nat_unat ucast_id)
qed

lemma present_mapped: "present (x OR PTE_P)"
  by (simp add: present_bit bit_simps)

text \<open>
  C10: \<^verbatim>\<open>mappages\<close> maps exactly the pages it is asked for. In a well-formed address space, for a
  range of addresses none of whose \<open>k + 1\<close> pages is mapped yet, and with enough free pages for the page
  tables, it returns 0; afterwards the pages of the range translate, in order, to the pages from \<open>pa\<close> on with
  the permissions \<open>perm\<close>, every other address translates as before, and the address space and
  the free list are well formed again.
\<close>

theorem mappages_translate:
  assumes "vm_inv pgdir s xs" and "a = PGROUNDDOWN va" and "lst = PGROUNDDOWN (va + sz - 1)" and "a \<le> lst"
    and "k = (unat lst - unat a) div 4096" and "k < length xs"
    and "\<forall>x. unat a \<le> unat x \<and> unat x < unat a + 4096 * Suc k \<longrightarrow> translate (ram s) pgdir x = None"
  shows "\<exists>s' ys. mappages pgdir va sz pa perm s = Inr (0, s') \<and> vm_inv pgdir s' ys
    \<and> (\<forall>x. translate (ram s') pgdir x =
         (if unat a \<le> unat x \<and> unat x < unat a + 4096 * Suc k
          then Some ((pa + of_nat (4096 * (unat x div 4096 - unat a div 4096))) OR perm OR PTE_P)
          else translate (ram s) pgdir x))"
proof -
  have al: "a mod PGSIZE = 0" "lst mod PGSIZE = 0"
    using PGROUNDDOWN_mod assms(2,3) by simp_all
  note ad = aligned_difference [OF al assms(4), folded assms(5)]
  obtain p where p: "unat a = 4096 * p"
    using page_unat(1) [OF al(1)] by (metis dvd_def mod_0_imp_dvd)
  have top: "unat a + 4096 * k < 4294967296"
    using ad(2) unat_uint_lt [of lst] by simp
  then have pk: "p + k < 1048576"
    using p by linarith
  have un: "\<not> present (pteN (ram s) pgdir (unat a div 4096 + i))" if "i \<le> k" for i
  proof -
    have "p + i < 1048576"
      using that pk by simp
    then have x: "unat (of_nat (4096 * (p + i)) :: uint) = 4096 * (p + i)"
      by (intro unat_of_nat_uint) simp
    have "translate (ram s) pgdir (of_nat (4096 * (p + i))) = None"
      using assms(7) x p that by simp
    then show ?thesis
      unfolding translate_pteN x using p by (simp add: Let_def split: if_splits)
  qed
  have side: "k < (1048576 :: nat)" "unat a mod 4096 = 0"
    using pk p by simp_all
  obtain s' ys where s': "mappages_loop 1048576 pgdir a lst pa perm s = Inr (0, s')" "vm_inv pgdir s' ys"
    "\<And>j. j < 1048576 \<Longrightarrow> pteN (ram s') pgdir j = (if p \<le> j \<and> j \<le> p + k
          then (pa + of_nat (4096 * (j - p))) OR perm OR PTE_P else pteN (ram s) pgdir j)"
    using mappages_loop_ok [OF assms(1,6) side top un, of pa perm] unfolding ad(1) [symmetric] p
    by - (drule meta_mp, assumption, elim exE conjE, simp)
  have "translate (ram s') pgdir x =
         (if unat a \<le> unat x \<and> unat x < unat a + 4096 * Suc k
          then Some ((pa + of_nat (4096 * (unat x div 4096 - unat a div 4096))) OR perm OR PTE_P)
          else translate (ram s) pgdir x)" for x
  proof -
    have "unat a \<le> unat x \<and> unat x < unat a + 4096 * Suc k \<longleftrightarrow> p \<le> unat x div 4096 \<and> unat x div 4096 \<le> p + k"
    proof -
      define n r where "n = unat x div 4096" and "r = unat x mod 4096"
      have "unat x = 4096 * n + r" "r < 4096"
        by (simp_all add: n_def r_def)
      then have "4096 * p \<le> unat x \<longleftrightarrow> p \<le> n" "unat x < 4096 * p + 4096 * Suc k \<longleftrightarrow> n \<le> p + k"
        by auto
      then show ?thesis
        unfolding n_def [symmetric] p by simp
    qed
    then show ?thesis
      unfolding translate_pteN s'(3) [OF pageno_less] using present_mapped p by (simp add: Let_def or.assoc [symmetric])
  qed
  then show ?thesis
    using s'(1,2) unfolding mappages_def assms(2,3) by (intro exI [of _ s'] exI [of _ ys]) simp
qed

definition one_page_vm :: kmem where
  "one_page_vm = empty_kmem\<lparr>freelist := 0x80201000\<rparr>"

lemma one_page_vm_inv: "vm_inv 0x80200000 one_page_vm [0x80201000]"
  by (simp add: vm_inv_def kmem_inv_def pt_wf_def pde_def load32_def mk32_def one_page_vm_def empty_kmem_def page_ok_def
      V2P_def KERNBASE_def)

theorem mappages_translate_witness:
  "\<exists>s' ys. mappages 0x80200000 0x1234 1 0x5000 PTE_W one_page_vm = Inr (0, s') \<and> vm_inv 0x80200000 s' ys
    \<and> translate (ram s') 0x80200000 0x1FFF = Some 0x5003 \<and> translate (ram s') 0x80200000 0x2000 = None"
proof -
  have un: "translate (ram one_page_vm) 0x80200000 x = None" for x
    by (simp add: translate_def pte_def pde_def load32_def mk32_def one_page_vm_def empty_kmem_def)
  have "\<exists>s' ys. mappages 0x80200000 0x1234 1 0x5000 PTE_W one_page_vm = Inr (0, s') \<and> vm_inv 0x80200000 s' ys
    \<and> (\<forall>x. translate (ram s') 0x80200000 x =
         (if unat (0x1000 :: uint) \<le> unat x \<and> unat x < unat (0x1000 :: uint) + 4096 * Suc 0
          then Some ((0x5000 + of_nat (4096 * (unat x div 4096 - unat (0x1000 :: uint) div 4096))) OR PTE_W OR PTE_P)
          else translate (ram one_page_vm) 0x80200000 x))"
    by (rule mappages_translate [OF one_page_vm_inv, where lst = "0x1000"]) (simp_all add: un PGROUNDDOWN_def)
  then obtain s' ys where s': "mappages 0x80200000 0x1234 1 0x5000 PTE_W one_page_vm = Inr (0, s')" "vm_inv 0x80200000 s' ys"
    and tr: "\<And>x. translate (ram s') 0x80200000 x =
         (if unat (0x1000 :: uint) \<le> unat x \<and> unat x < unat (0x1000 :: uint) + 4096 * Suc 0
          then Some ((0x5000 + of_nat (4096 * (unat x div 4096 - unat (0x1000 :: uint) div 4096))) OR PTE_W OR PTE_P)
          else None)"
    unfolding un by blast
  have "translate (ram s') 0x80200000 0x1FFF = Some 0x5003" "translate (ram s') 0x80200000 0x2000 = None"
    unfolding tr by simp_all
  then show ?thesis
    using s' by blast
qed

end
