(* ===== verification/Proc.thy ===== *)
theory Proc
  imports Spinlock File Vm Format Console
begin

text \<open>
  \<^verbatim>\<open>proc.c\<close>, \<^verbatim>\<open>proc.h\<close> and the address-space switches of \<^verbatim>\<open>vm.c\<close>: the process table
  and every operation on it. The state extends the file layer's with the processors, the
  table, its lock and the static variables of \<^verbatim>\<open>proc.c\<close>. A function that calls
  \<^verbatim>\<open>sched\<close> is two definitions, the code up to the context switch (\<open>_enter\<close>) and the code
  after it (\<open>_leave\<close>), since between the two the processor runs something else.
\<close>

abbreviation NPROC :: nat where "NPROC \<equiv> 64"
abbreviation NOFILE :: nat where "NOFILE \<equiv> 16"
abbreviation KSTACKSIZE :: uint where "KSTACKSIZE \<equiv> 4096"

section \<open>The process table\<close>

datatype procstate = UNUSED | EMBRYO | SLEEPING | RUNNABLE | RUNNING | ZOMBIE

text \<open>
  A wait channel is the address of some kernel object; the only objects of which this file
  itself makes channels are the slots of the process table.
\<close>

datatype wchan = On_proc nat | On_addr uint

record proc =
  psz :: uint
  pgdir :: uint
  kstack :: uint
  pstate :: procstate
  pid :: int
  parent :: "nat option"
  tf :: uint
  pcontext :: uint
  chan :: "wchan option"
  killed :: bool
  fds :: "nat \<Rightarrow> nat option"
  cwd :: "nat option"
  pname :: bytes

type_synonym ptab = "nat \<Rightarrow> proc"

record proc_sys = file_sys +
  hw :: machine
  ptlock :: spinlock
  ptable :: ptab
  initproc :: "nat option"
  nextpid :: int
  first :: bool
  kpgdir :: uint

text \<open>
  What the running processor and the linked kernel image supply: the local APIC id, the
  address of a lock argument on the stack (only the call-stack record of \<^verbatim>\<open>acquire\<close>
  depends on it), the addresses of \<^verbatim>\<open>forkret\<close>, \<^verbatim>\<open>trapret\<close>, \<^verbatim>\<open>data\<close> and \<^verbatim>\<open>ticks\<close>, and the
  embedded first program.
\<close>

record kenv =
  lapicid :: uchar
  lkarg :: uint
  forkret_at :: uint
  trapret_at :: uint
  kdata_at :: uint
  ticks_at :: uint
  initcode :: bytes

definition upd_proc :: "nat \<Rightarrow> (proc \<Rightarrow> proc) \<Rightarrow> 'a proc_sys_scheme \<Rightarrow> 'a proc_sys_scheme" where
  "upd_proc i f s = s\<lparr>ptable := (ptable s)(i := f (ptable s i))\<rparr>"

definition on_ptable :: "(ptab \<Rightarrow> ptab) \<Rightarrow> 'a proc_sys_scheme \<Rightarrow> 'a proc_sys_scheme" where
  "on_ptable f s = s\<lparr>ptable := f (ptable s)\<rparr>"

definition set_ram :: "(mem \<Rightarrow> mem) \<Rightarrow> 'a proc_sys_scheme \<Rightarrow> 'a proc_sys_scheme" where
  "set_ram f s = s\<lparr>km := (km s)\<lparr>ram := f (ram (km s))\<rparr>\<rparr>"

section \<open>The current process and the table lock\<close>

definition pinit :: "'a proc_sys_scheme \<Rightarrow> 'a proc_sys_scheme" where
  "pinit s = s\<lparr>ptlock := initlock (ptlock s) ''ptable''\<rparr>"

definition myproc :: "kenv \<Rightarrow> 'a proc_sys_scheme \<Rightarrow> (nat option \<times> 'a proc_sys_scheme) res" where
  "myproc K s =
     rbind (pushcli (lapicid K) (hw s)) (\<lambda>m.
     rbind (mycpu (lapicid K) m) (\<lambda>c.
     let p = cproc (cpus m ! c) in
     rbind (popcli (lapicid K) m) (\<lambda>m. Inr (p, s\<lparr>hw := m\<rparr>))))"

text \<open>Most callers dereference the result.\<close>

definition curproc :: "kenv \<Rightarrow> 'a proc_sys_scheme \<Rightarrow> (nat \<times> 'a proc_sys_scheme) res" where
  "curproc K s = rbind (myproc K s) (\<lambda>(p, s). case p of None \<Rightarrow> Inl Fault | Some p \<Rightarrow> Inr (p, s))"

definition acquire_ptable :: "kenv \<Rightarrow> 'a proc_sys_scheme \<Rightarrow> 'a proc_sys_scheme res" where
  "acquire_ptable K s =
     rbind (acquire (load32 (ram (km s))) (lkarg K) (lapicid K) (ptlock s) (hw s)) (\<lambda>(l, m).
     Inr (s\<lparr>ptlock := l, hw := m\<rparr>))"

definition release_ptable :: "kenv \<Rightarrow> 'a proc_sys_scheme \<Rightarrow> 'a proc_sys_scheme res" where
  "release_ptable K s =
     rbind (release (lapicid K) (ptlock s) (hw s)) (\<lambda>(l, m). Inr (s\<lparr>ptlock := l, hw := m\<rparr>))"

section \<open>Address-space switches\<close>

definition switchkvm :: "kenv \<Rightarrow> 'a proc_sys_scheme \<Rightarrow> 'a proc_sys_scheme" where
  "switchkvm K s = s\<lparr>hw := (hw s)\<lparr>cr3 := (cr3 (hw s))(lapicid K := V2P (kpgdir s))\<rparr>\<rparr>"

definition kvmalloc :: "kenv \<Rightarrow> 'a proc_sys_scheme \<Rightarrow> 'a proc_sys_scheme res" where
  "kvmalloc K s =
     rbind (setupkvm (kdata_at K) (km s)) (\<lambda>(d, k). Inr (switchkvm K (s\<lparr>km := k, kpgdir := d\<rparr>)))"

text \<open>
  \<^verbatim>\<open>switchuvm\<close>: the task-state descriptor it writes into the processor's segment table
  always describes the processor's own task state, and is left out.
\<close>

definition switchuvm :: "kenv \<Rightarrow> nat option \<Rightarrow> 'a proc_sys_scheme \<Rightarrow> 'a proc_sys_scheme res" where
  "switchuvm K p s =
     (case p of None \<Rightarrow> Inl (Panic ''switchuvm: no process'')
      | Some p \<Rightarrow>
          if kstack (ptable s p) = 0 then Inl (Panic ''switchuvm: no kstack'')
          else if pgdir (ptable s p) = 0 then Inl (Panic ''switchuvm: no pgdir'')
          else rbind (pushcli (lapicid K) (hw s)) (\<lambda>m.
               rbind (mycpu (lapicid K) m) (\<lambda>c.
               let m = cpu_upd c (\<lambda>u. u\<lparr>ts_ss0 := 16, ts_esp0 := kstack (ptable s p) + KSTACKSIZE,
                     ts_iomb := 0xFFFF\<rparr>) m;
                   m = m\<lparr>cr3 := (cr3 m)(lapicid K := V2P (pgdir (ptable s p)))\<rparr>
               in rbind (popcli (lapicid K) m) (\<lambda>m. Inr (s\<lparr>hw := m\<rparr>)))))"

section \<open>Creating processes\<close>

text \<open>Sizes and offsets of \<^verbatim>\<open>struct trapframe\<close> and \<^verbatim>\<open>struct context\<close>.\<close>

abbreviation TF_SIZE :: uint where "TF_SIZE \<equiv> 76"
abbreviation TF_eax :: uint where "TF_eax \<equiv> 28"
abbreviation TF_es :: uint where "TF_es \<equiv> 40"
abbreviation TF_ds :: uint where "TF_ds \<equiv> 44"
abbreviation TF_eip :: uint where "TF_eip \<equiv> 56"
abbreviation TF_cs :: uint where "TF_cs \<equiv> 60"
abbreviation TF_eflags :: uint where "TF_eflags \<equiv> 64"
abbreviation TF_esp :: uint where "TF_esp \<equiv> 68"
abbreviation TF_ss :: uint where "TF_ss \<equiv> 72"
abbreviation CONTEXT_SIZE :: uint where "CONTEXT_SIZE \<equiv> 20"
abbreviation CTX_eip :: uint where "CTX_eip \<equiv> 16"
abbreviation CTX_ebp :: uint where "CTX_ebp \<equiv> 12"

definition store16 :: "uint \<Rightarrow> ushort \<Rightarrow> mem \<Rightarrow> mem" where
  "store16 a w m = m(a := byte_of 0 w, a + 1 := byte_of 1 w)"

text \<open>The frame a new kernel stack starts with: trap frame, return address, context.\<close>

definition build_stack :: "kenv \<Rightarrow> uint \<Rightarrow> mem \<Rightarrow> mem" where
  "build_stack K sp m =
     (let sp = sp - 4; m = store32 sp (trapret_at K) m;
          sp = sp - CONTEXT_SIZE; m = memset sp 0 CONTEXT_SIZE m
      in store32 (sp + CTX_eip) (forkret_at K) m)"

definition alloc_slot :: "'a proc_sys_scheme \<Rightarrow> nat option \<times> 'a proc_sys_scheme" where
  "alloc_slot s =
     (case find (\<lambda>i. pstate (ptable s i) = UNUSED) [0..<NPROC] of
        None \<Rightarrow> (None, s)
      | Some i \<Rightarrow> (Some i, (upd_proc i (\<lambda>p. p\<lparr>pstate := EMBRYO, pid := nextpid s\<rparr>) s)
                           \<lparr>nextpid := nextpid s + 1\<rparr>))"

definition alloc_stack :: "kenv \<Rightarrow> nat \<Rightarrow> 'a proc_sys_scheme \<Rightarrow> nat option \<times> 'a proc_sys_scheme" where
  "alloc_stack K i s =
     (let (k, m) = kalloc (km s);
          s = upd_proc i (\<lambda>p. p\<lparr>kstack := k\<rparr>) (s\<lparr>km := m\<rparr>)
      in if k = 0 then (None, upd_proc i (\<lambda>p. p\<lparr>pstate := UNUSED\<rparr>) s)
         else let sp = k + KSTACKSIZE - TF_SIZE;
                  s = upd_proc i (\<lambda>p. p\<lparr>tf := sp, pcontext := sp - 4 - CONTEXT_SIZE\<rparr>) s
              in (Some i, set_ram (build_stack K sp) s))"

definition allocproc :: "kenv \<Rightarrow> 'a proc_sys_scheme \<Rightarrow> (nat option \<times> 'a proc_sys_scheme) res" where
  "allocproc K s =
     rbind (acquire_ptable K s) (\<lambda>s.
     case alloc_slot s of
       (None, s) \<Rightarrow> rbind (release_ptable K s) (\<lambda>s. Inr (None, s))
     | (Some i, s) \<Rightarrow> rbind (release_ptable K s) (\<lambda>s. Inr (alloc_stack K i s)))"

text \<open>\<^verbatim>\<open>safestrcpy\<close> into the 16 bytes of a process name.\<close>

definition set_name :: "bytes \<Rightarrow> bytes \<Rightarrow> bytes" where
  "set_name t old = (let cs = takeWhile (\<lambda>c. c \<noteq> 0) (take 15 t) in cs @ 0 # drop (Suc (length cs)) old)"

text \<open>
  The flat segments of user mode are selectors 3 and 4 at privilege level 3; \<^verbatim>\<open>FL_IF\<close> is bit 9.
\<close>

definition user_frame :: "uint \<Rightarrow> mem \<Rightarrow> mem" where
  "user_frame t m =
     (let m = memset t 0 TF_SIZE m;
          m = store16 (t + TF_cs) 0x1B m;
          m = store16 (t + TF_ds) 0x23 m;
          m = store16 (t + TF_es) 0x23 m;
          m = store16 (t + TF_ss) 0x23 m;
          m = store32 (t + TF_eflags) 0x200 m;
          m = store32 (t + TF_esp) PGSIZE m
      in store32 (t + TF_eip) 0 m)"

definition set_runnable :: "kenv \<Rightarrow> nat \<Rightarrow> 'a proc_sys_scheme \<Rightarrow> 'a proc_sys_scheme res" where
  "set_runnable K i s =
     rbind (acquire_ptable K s) (\<lambda>s.
     release_ptable K (upd_proc i (\<lambda>p. p\<lparr>pstate := RUNNABLE\<rparr>) s))"

definition userinit :: "kenv \<Rightarrow> 'a proc_sys_scheme \<Rightarrow> 'a proc_sys_scheme res" where
  "userinit K s =
     rbind (allocproc K s) (\<lambda>(p, s).
     let s = s\<lparr>initproc := p\<rparr> in
     case p of None \<Rightarrow> Inl Fault
     | Some p \<Rightarrow>
         rbind (setupkvm (kdata_at K) (km s)) (\<lambda>(d, k).
         let s = upd_proc p (\<lambda>q. q\<lparr>pgdir := d\<rparr>) (s\<lparr>km := k\<rparr>) in
         if d = 0 then Inl (Panic ''userinit: out of memory?'')
         else rbind (inituvm d (initcode K) (km s)) (\<lambda>k.
         let s = upd_proc p (\<lambda>q. q\<lparr>psz := PGSIZE\<rparr>) (s\<lparr>km := k\<rparr>);
             s = set_ram (user_frame (tf (ptable s p))) s;
             s = upd_proc p (\<lambda>q. q\<lparr>pname := set_name (ascii ''initcode'' @ [0]) (pname q)\<rparr>) s
         in rbind (namei 0 (ascii ''/'') s) (\<lambda>(ip, s).
            set_runnable K p (upd_proc p (\<lambda>q. q\<lparr>cwd := ip\<rparr>) s)))))"

definition growproc :: "kenv \<Rightarrow> int \<Rightarrow> 'a proc_sys_scheme \<Rightarrow> (int \<times> 'a proc_sys_scheme) res" where
  "growproc K n s =
     rbind (curproc K s) (\<lambda>(cur, s).
     let sz = psz (ptable s cur); d = pgdir (ptable s cur) in
     rbind (if 0 < n then allocuvm d sz (sz + of_int n) (km s)
            else if n < 0 then deallocuvm d sz (sz + of_int n) (km s)
            else Inr (sz, km s)) (\<lambda>(sz, k).
     let s = s\<lparr>km := k\<rparr> in
     if n \<noteq> 0 \<and> sz = 0 then Inr (- 1, s)
     else rbind (switchuvm K (Some cur) (upd_proc cur (\<lambda>p. p\<lparr>psz := sz\<rparr>) s)) (\<lambda>s. Inr (0, s))))"

definition dup_fd :: "nat \<Rightarrow> nat \<Rightarrow> nat \<Rightarrow> 'a proc_sys_scheme \<Rightarrow> 'a proc_sys_scheme res" where
  "dup_fd cur np i s =
     (case fds (ptable s cur) i of
        None \<Rightarrow> Inr s
      | Some f \<Rightarrow> rbind (filedup f s) (\<lambda>(g, s).
          Inr (upd_proc np (\<lambda>p. p\<lparr>fds := (fds p)(i := Some g)\<rparr>) s)))"

text \<open>The part of \<^verbatim>\<open>fork\<close> after the address space is copied, up to publishing the child.\<close>

definition fork_child :: "nat \<Rightarrow> nat \<Rightarrow> 'a proc_sys_scheme \<Rightarrow> 'a proc_sys_scheme res" where
  "fork_child cur np s =
     (let s = upd_proc np (\<lambda>p. p\<lparr>psz := psz (ptable s cur), parent := Some cur\<rparr>) s;
          s = set_ram (\<lambda>m. poke (tf (ptable s np)) (peek m (tf (ptable s cur)) (unat TF_SIZE)) m) s;
          s = set_ram (store32 (tf (ptable s np) + TF_eax) 0) s
      in rbind (for_each (dup_fd cur np) [0..<NOFILE] s) (\<lambda>s.
         case cwd (ptable s cur) of None \<Rightarrow> Inl Fault
         | Some ip \<Rightarrow>
             let (ip, s) = idup ip s;
                 s = upd_proc np (\<lambda>p. p\<lparr>cwd := Some ip\<rparr>) s
             in Inr (upd_proc np (\<lambda>p. p\<lparr>pname := set_name (pname (ptable s cur)) (pname p)\<rparr>) s)))"

text \<open>Copying the address space; when that fails the new slot is given back.\<close>

definition fork_copy :: "kenv \<Rightarrow> nat \<Rightarrow> nat \<Rightarrow> 'a proc_sys_scheme \<Rightarrow> (bool \<times> 'a proc_sys_scheme) res" where
  "fork_copy K cur np s =
     rbind (copyuvm (kdata_at K) (pgdir (ptable s cur)) (psz (ptable s cur)) (km s)) (\<lambda>(d, k).
     let s = upd_proc np (\<lambda>p. p\<lparr>pgdir := d\<rparr>) (s\<lparr>km := k\<rparr>) in
     if d = 0
     then rbind (kfree (kstack (ptable s np)) (km s)) (\<lambda>k.
          Inr (False, upd_proc np (\<lambda>p. p\<lparr>kstack := 0, pstate := UNUSED\<rparr>) (s\<lparr>km := k\<rparr>)))
     else Inr (True, s))"

definition fork :: "kenv \<Rightarrow> 'a proc_sys_scheme \<Rightarrow> (int \<times> 'a proc_sys_scheme) res" where
  "fork K s =
     rbind (curproc K s) (\<lambda>(cur, s).
     rbind (allocproc K s) (\<lambda>(np, s).
     case np of None \<Rightarrow> Inr (- 1, s)
     | Some np \<Rightarrow>
         rbind (fork_copy K cur np s) (\<lambda>(ok, s).
         if \<not> ok then Inr (- 1, s)
         else rbind (fork_child cur np s) (\<lambda>s.
              let n = pid (ptable s np) in
              rbind (set_runnable K np s) (\<lambda>s. Inr (n, s))))))"

section \<open>Giving up the processor\<close>

text \<open>
  \<^verbatim>\<open>sched\<close> up to its context switch returns the saved \<^verbatim>\<open>intena\<close>; after the switch it
  restores it on the processor that resumed the process.
\<close>

definition sched_enter :: "kenv \<Rightarrow> 'a proc_sys_scheme \<Rightarrow> (bool \<times> 'a proc_sys_scheme) res" where
  "sched_enter K s =
     rbind (curproc K s) (\<lambda>(p, s).
     rbind (holding (lapicid K) (ptlock s) (hw s)) (\<lambda>(h, m).
     let s = s\<lparr>hw := m\<rparr> in
     if \<not> h then Inl (Panic ''sched ptable.lock'')
     else rbind (mycpu (lapicid K) (hw s)) (\<lambda>c.
     if ncli (cpus (hw s) ! c) \<noteq> 1 then Inl (Panic ''sched locks'')
     else if pstate (ptable s p) = RUNNING then Inl (Panic ''sched running'')
     else if eflags_if (hw s) (lapicid K) then Inl (Panic ''sched interruptible'')
     else Inr (intena (cpus (hw s) ! c), s))))"

definition sched_leave :: "kenv \<Rightarrow> bool \<Rightarrow> 'a proc_sys_scheme \<Rightarrow> 'a proc_sys_scheme res" where
  "sched_leave K ena s =
     rbind (mycpu (lapicid K) (hw s)) (\<lambda>c. Inr (s\<lparr>hw := cpu_upd c (\<lambda>u. u\<lparr>intena := ena\<rparr>) (hw s)\<rparr>))"

definition yield_enter :: "kenv \<Rightarrow> 'a proc_sys_scheme \<Rightarrow> (bool \<times> 'a proc_sys_scheme) res" where
  "yield_enter K s =
     rbind (acquire_ptable K s) (\<lambda>s.
     rbind (curproc K s) (\<lambda>(p, s).
     sched_enter K (upd_proc p (\<lambda>q. q\<lparr>pstate := RUNNABLE\<rparr>) s)))"

definition yield_leave :: "kenv \<Rightarrow> bool \<Rightarrow> 'a proc_sys_scheme \<Rightarrow> 'a proc_sys_scheme res" where
  "yield_leave K ena s = rbind (sched_leave K ena s) (release_ptable K)"

definition forkret :: "kenv \<Rightarrow> 'a proc_sys_scheme \<Rightarrow> 'a proc_sys_scheme res" where
  "forkret K s =
     rbind (release_ptable K s) (\<lambda>s.
     if first s
     then rbind (iinit ROOTDEV (s\<lparr>first := False\<rparr>)) (initlog ROOTDEV)
     else Inr s)"

text \<open>The lock argument of \<^verbatim>\<open>sleep\<close>: null, the table's own lock, or another lock.\<close>

datatype lockarg = No_lock | Table_lock | Lock spinlock

definition sleep_enter ::
  "kenv \<Rightarrow> wchan \<Rightarrow> lockarg \<Rightarrow> 'a proc_sys_scheme \<Rightarrow> (bool \<times> lockarg \<times> 'a proc_sys_scheme) res" where
  "sleep_enter K ch l s =
     rbind (myproc K s) (\<lambda>(p, s).
     case p of None \<Rightarrow> Inl (Panic ''sleep'')
     | Some p \<Rightarrow>
         rbind (case l of
                  No_lock \<Rightarrow> Inl (Panic ''sleep without lk'')
                | Table_lock \<Rightarrow> Inr (l, s)
                | Lock sl \<Rightarrow>
                    rbind (acquire_ptable K s) (\<lambda>s.
                    rbind (release (lapicid K) sl (hw s)) (\<lambda>(sl, m). Inr (Lock sl, s\<lparr>hw := m\<rparr>)))) (\<lambda>(l, s).
         rbind (sched_enter K (upd_proc p (\<lambda>q. q\<lparr>chan := Some ch, pstate := SLEEPING\<rparr>) s)) (\<lambda>(ena, s).
         Inr (ena, l, s))))"

definition sleep_wake :: "kenv \<Rightarrow> bool \<Rightarrow> nat \<Rightarrow> 'a proc_sys_scheme \<Rightarrow> 'a proc_sys_scheme res" where
  "sleep_wake K ena p s =
     rbind (sched_leave K ena s) (\<lambda>s. Inr (upd_proc p (\<lambda>q. q\<lparr>chan := None\<rparr>) s))"

definition sleep_leave ::
  "kenv \<Rightarrow> bool \<Rightarrow> nat \<Rightarrow> lockarg \<Rightarrow> 'a proc_sys_scheme \<Rightarrow> (lockarg \<times> 'a proc_sys_scheme) res" where
  "sleep_leave K ena p l s =
     rbind (sleep_wake K ena p s) (\<lambda>s.
     case l of
       Lock sl \<Rightarrow>
         rbind (release_ptable K s) (\<lambda>s.
         rbind (acquire (load32 (ram (km s))) (lkarg K) (lapicid K) sl (hw s)) (\<lambda>(sl, m).
         Inr (Lock sl, s\<lparr>hw := m\<rparr>)))
     | _ \<Rightarrow> Inr (l, s))"

section \<open>Waking and killing\<close>

definition wakeup1 :: "wchan option \<Rightarrow> ptab \<Rightarrow> ptab" where
  "wakeup1 ch t =
     fold (\<lambda>i t. if pstate (t i) = SLEEPING \<and> chan (t i) = ch
                 then t(i := (t i)\<lparr>pstate := RUNNABLE\<rparr>) else t) [0..<NPROC] t"

definition wakeup :: "kenv \<Rightarrow> wchan option \<Rightarrow> 'a proc_sys_scheme \<Rightarrow> 'a proc_sys_scheme res" where
  "wakeup K ch s =
     rbind (acquire_ptable K s) (\<lambda>s. release_ptable K (on_ptable (wakeup1 ch) s))"

definition kill_slot :: "nat \<Rightarrow> ptab \<Rightarrow> ptab" where
  "kill_slot i t =
     t(i := (t i)\<lparr>killed := True, pstate := (if pstate (t i) = SLEEPING then RUNNABLE else pstate (t i))\<rparr>)"

definition kill :: "kenv \<Rightarrow> int \<Rightarrow> 'a proc_sys_scheme \<Rightarrow> (int \<times> 'a proc_sys_scheme) res" where
  "kill K n s =
     rbind (acquire_ptable K s) (\<lambda>s.
     case find (\<lambda>i. pid (ptable s i) = n) [0..<NPROC] of
       Some i \<Rightarrow> rbind (release_ptable K (on_ptable (kill_slot i) s)) (\<lambda>s. Inr (0, s))
     | None \<Rightarrow> rbind (release_ptable K s) (\<lambda>s. Inr (- 1, s)))"

section \<open>Exit and wait\<close>

definition close_fd :: "nat \<Rightarrow> nat \<Rightarrow> 'a proc_sys_scheme \<Rightarrow> 'a proc_sys_scheme res" where
  "close_fd cur fd s =
     (case fds (ptable s cur) fd of
        None \<Rightarrow> Inr s
      | Some f \<Rightarrow> rbind (fileclose f s) (\<lambda>s.
          Inr (upd_proc cur (\<lambda>p. p\<lparr>fds := (fds p)(fd := None)\<rparr>) s)))"

definition reparent :: "nat \<Rightarrow> nat option \<Rightarrow> ptab \<Rightarrow> ptab" where
  "reparent cur ini t =
     fold (\<lambda>i t. if parent (t i) = Some cur
                 then let t = t(i := (t i)\<lparr>parent := ini\<rparr>) in
                      if pstate (t i) = ZOMBIE then wakeup1 (map_option On_proc ini) t else t
                 else t) [0..<NPROC] t"

text \<open>The part of \<^verbatim>\<open>exit\<close> under the table lock, up to the switch that never returns.\<close>

definition exit_ptable :: "nat \<Rightarrow> nat option \<Rightarrow> ptab \<Rightarrow> ptab" where
  "exit_ptable cur ini t =
     (let t = wakeup1 (map_option On_proc (parent (t cur))) t;
          t = reparent cur ini t
      in t(cur := (t cur)\<lparr>pstate := ZOMBIE\<rparr>))"

definition exit_switch :: "kenv \<Rightarrow> nat \<Rightarrow> 'a proc_sys_scheme \<Rightarrow> 'a proc_sys_scheme res" where
  "exit_switch K cur s =
     rbind (acquire_ptable K s) (\<lambda>s.
     rbind (sched_enter K (on_ptable (exit_ptable cur (initproc s)) s)) (\<lambda>(_, s). Inr s))"

definition exit :: "kenv \<Rightarrow> 'a proc_sys_scheme \<Rightarrow> 'a proc_sys_scheme res" where
  "exit K s =
     rbind (curproc K s) (\<lambda>(cur, s).
     if initproc s = Some cur then Inl (Panic ''init exiting'')
     else rbind (for_each (close_fd cur) [0..<NOFILE] s) (\<lambda>s.
          rbind (begin_op s) (\<lambda>s.
          case cwd (ptable s cur) of None \<Rightarrow> Inl Fault
          | Some ip \<Rightarrow>
              rbind (iput ip s) (\<lambda>s.
              rbind (end_op s) (\<lambda>s.
              exit_switch K cur (upd_proc cur (\<lambda>p. p\<lparr>cwd := None\<rparr>) s))))))"

text \<open>
  One pass of the loop of \<^verbatim>\<open>wait\<close>, with the lock held: a zombie child is freed, or there is
  nothing to wait for, or the caller sleeps on its own slot until a child exits.
\<close>

datatype wait_out = Reaped int | No_child | Blocked bool

definition reap_slot :: "nat \<Rightarrow> ptab \<Rightarrow> ptab" where
  "reap_slot i t =
     t(i := (t i)\<lparr>kstack := 0, pid := 0, parent := None, pname := (pname (t i))[0 := 0],
        killed := False, pstate := UNUSED\<rparr>)"

definition wait_pass :: "kenv \<Rightarrow> nat \<Rightarrow> 'a proc_sys_scheme \<Rightarrow> (wait_out \<times> 'a proc_sys_scheme) res" where
  "wait_pass K cur s =
     (case find (\<lambda>i. parent (ptable s i) = Some cur \<and> pstate (ptable s i) = ZOMBIE) [0..<NPROC] of
        Some i \<Rightarrow>
          rbind (kfree (kstack (ptable s i)) (km s)) (\<lambda>k.
          rbind (freevm (pgdir (ptable s i)) k) (\<lambda>k.
          let n = pid (ptable s i) in
          rbind (release_ptable K (on_ptable (reap_slot i) (s\<lparr>km := k\<rparr>))) (\<lambda>s. Inr (Reaped n, s))))
      | None \<Rightarrow>
          if find (\<lambda>i. parent (ptable s i) = Some cur) [0..<NPROC] = None \<or> killed (ptable s cur)
          then rbind (release_ptable K s) (\<lambda>s. Inr (No_child, s))
          else rbind (sleep_enter K (On_proc cur) Table_lock s) (\<lambda>(ena, _, s). Inr (Blocked ena, s)))"

definition wait_enter :: "kenv \<Rightarrow> 'a proc_sys_scheme \<Rightarrow> (wait_out \<times> 'a proc_sys_scheme) res" where
  "wait_enter K s =
     rbind (curproc K s) (\<lambda>(cur, s). rbind (acquire_ptable K s) (wait_pass K cur))"

definition wait_again :: "kenv \<Rightarrow> bool \<Rightarrow> nat \<Rightarrow> 'a proc_sys_scheme \<Rightarrow> (wait_out \<times> 'a proc_sys_scheme) res" where
  "wait_again K ena cur s =
     rbind (sleep_leave K ena cur Table_lock s) (\<lambda>(_, s). wait_pass K cur s)"

section \<open>The scheduler\<close>

text \<open>
  The loop of \<^verbatim>\<open>scheduler\<close> by its parts: entering the loop over the table, one slot of it
  (which dispatches the process found there, or skips the slot), the code after the switch
  back, and leaving the loop. \<open>c\<close> is the processor, read once on entry.
  The sleep locks below read the current process id from \<^const>\<open>curpid\<close>, so dispatching
  sets it.
\<close>

definition scheduler_start :: "nat \<Rightarrow> 'a proc_sys_scheme \<Rightarrow> 'a proc_sys_scheme" where
  "scheduler_start c s = s\<lparr>hw := cpu_upd c (\<lambda>u. u\<lparr>cproc := None\<rparr>) (hw s)\<rparr>"

definition scheduler_top :: "kenv \<Rightarrow> 'a proc_sys_scheme \<Rightarrow> 'a proc_sys_scheme res" where
  "scheduler_top K s = acquire_ptable K (s\<lparr>hw := set_if (lapicid K) True (hw s)\<rparr>)"

definition scheduler_slot :: "kenv \<Rightarrow> nat \<Rightarrow> nat \<Rightarrow> 'a proc_sys_scheme \<Rightarrow> (bool \<times> 'a proc_sys_scheme) res" where
  "scheduler_slot K c i s =
     (if pstate (ptable s i) \<noteq> RUNNABLE then Inr (False, s)
      else rbind (switchuvm K (Some i) (s\<lparr>hw := cpu_upd c (\<lambda>u. u\<lparr>cproc := Some i\<rparr>) (hw s)\<rparr>)) (\<lambda>s.
           Inr (True, (upd_proc i (\<lambda>p. p\<lparr>pstate := RUNNING\<rparr>) s)\<lparr>curpid := pid (ptable s i)\<rparr>)))"

definition scheduler_back :: "kenv \<Rightarrow> nat \<Rightarrow> 'a proc_sys_scheme \<Rightarrow> 'a proc_sys_scheme" where
  "scheduler_back K c s =
     (let s = switchkvm K s in s\<lparr>hw := cpu_upd c (\<lambda>u. u\<lparr>cproc := None\<rparr>) (hw s)\<rparr>)"

definition scheduler_bottom :: "kenv \<Rightarrow> 'a proc_sys_scheme \<Rightarrow> 'a proc_sys_scheme res" where
  "scheduler_bottom K s = release_ptable K s"

section \<open>The process listing\<close>

definition state_name :: "procstate \<Rightarrow> string" where
  "state_name st =
     (case st of UNUSED \<Rightarrow> ''unused'' | EMBRYO \<Rightarrow> ''embryo'' | SLEEPING \<Rightarrow> ''sleep ''
      | RUNNABLE \<Rightarrow> ''runble'' | RUNNING \<Rightarrow> ''run   '' | ZOMBIE \<Rightarrow> ''zombie'')"

text \<open>One line of \<^verbatim>\<open>procdump\<close>: pid, state and name, and the call stack of a sleeping process.\<close>

definition procdump_line :: "mem \<Rightarrow> proc \<Rightarrow> bytes" where
  "procdump_line m p =
     printint digits_lower (of_int (pid p)) 10 True @ ascii '' '' @ ascii (state_name (pstate p)) @ ascii '' ''
     @ takeWhile (\<lambda>c. c \<noteq> 0) (pname p)
     @ (if pstate p = SLEEPING
        then let fp = load32 m (pcontext p + CTX_ebp) + 8 in
             concat (map (\<lambda>pc. ascii '' '' @ printint digits_lower pc 16 False)
               (takeWhile (\<lambda>pc. pc \<noteq> 0) (getcallerpcs (load32 m) fp)))
        else [])
     @ [10]"

definition procdump :: "'a proc_sys_scheme \<Rightarrow> console \<Rightarrow> console res" where
  "procdump s c =
     for_each (\<lambda>i c. if pstate (ptable s i) = UNUSED then Inr c
                     else putchars (procdump_line (ram (km s)) (ptable s i)) c) [0..<NPROC] c"

end
