(* ===== verification/Proc_Table.thy ===== *)
theory Proc_Table
  imports Proc
begin

text \<open>
  What the operations of \<^verbatim>\<open>proc.c\<close> do to the process table: closed forms of the loops over
  the table, and for every operation the exact change of the table, the lock word and the
  processors when it succeeds.
\<close>

section \<open>The loops over the table\<close>

lemma wakeup1_prefix:
  "fold (\<lambda>i t. if pstate (t i) = SLEEPING \<and> chan (t i) = ch
                 then t(i := (t i)\<lparr>pstate := RUNNABLE\<rparr>) else t) [0..<n] t i =
   (if i < n \<and> pstate (t i) = SLEEPING \<and> chan (t i) = ch then (t i)\<lparr>pstate := RUNNABLE\<rparr> else t i)"
  by (induction n) auto

lemma wakeup1_eq:
  "wakeup1 ch t i =
   (if i < NPROC \<and> pstate (t i) = SLEEPING \<and> chan (t i) = ch then (t i)\<lparr>pstate := RUNNABLE\<rparr> else t i)"
  unfolding wakeup1_def by (rule wakeup1_prefix)

definition zombie_child :: "nat \<Rightarrow> ptab \<Rightarrow> nat \<Rightarrow> bool" where
  "zombie_child cur t n \<longleftrightarrow> (\<exists>j<n. parent (t j) = Some cur \<and> pstate (t j) = ZOMBIE)"

lemma zombie_child_Suc:
  "zombie_child cur t (Suc n) \<longleftrightarrow> zombie_child cur t n \<or> (parent (t n) = Some cur \<and> pstate (t n) = ZOMBIE)"
  by (auto simp: zombie_child_def less_Suc_eq)

text \<open>A slot after \<open>n\<close> rounds of handing over the children of \<open>cur\<close>.\<close>

definition handed :: "nat \<Rightarrow> nat option \<Rightarrow> ptab \<Rightarrow> nat \<Rightarrow> nat \<Rightarrow> proc" where
  "handed cur ini t n i =
     (t i)\<lparr>parent := (if i < n \<and> parent (t i) = Some cur then ini else parent (t i)),
           pstate := (if zombie_child cur t n \<and> i < NPROC \<and> pstate (t i) = SLEEPING
                        \<and> chan (t i) = map_option On_proc ini then RUNNABLE else pstate (t i))\<rparr>"

lemma reparent_prefix:
  "fold (\<lambda>i t. if parent (t i) = Some cur
                 then let t = t(i := (t i)\<lparr>parent := ini\<rparr>) in
                      if pstate (t i) = ZOMBIE then wakeup1 (map_option On_proc ini) t else t
                 else t) [0..<n] t = handed cur ini t n"
proof (induction n)
  case 0
  show ?case by (auto simp: handed_def zombie_child_def)
next
  case (Suc n)
  have p: "parent (handed cur ini t n n) = parent (t n)" by (simp add: handed_def)
  have z: "pstate (handed cur ini t n n) = ZOMBIE \<longleftrightarrow> pstate (t n) = ZOMBIE" by (auto simp: handed_def)
  show ?case
    by (rule ext) (use Suc.IH p z in \<open>auto simp: Let_def wakeup1_eq handed_def zombie_child_Suc less_Suc_eq\<close>)
qed

lemma reparent_eq: "reparent cur ini t = handed cur ini t NPROC"
  unfolding reparent_def by (rule reparent_prefix)

lemma wakeup1_fields:
  "pid (wakeup1 ch t i) = pid (t i)" "chan (wakeup1 ch t i) = chan (t i)" "fds (wakeup1 ch t i) = fds (t i)"
  "parent (wakeup1 ch t i) = parent (t i)"
  "pstate (wakeup1 ch t i) =
     (if i < NPROC \<and> pstate (t i) = SLEEPING \<and> chan (t i) = ch then RUNNABLE else pstate (t i))"
  by (simp_all add: wakeup1_eq)

lemma zombie_child_wakeup1: "zombie_child cur (wakeup1 ch t) n = zombie_child cur t n"
proof -
  have "pstate (wakeup1 ch t j) = ZOMBIE \<longleftrightarrow> pstate (t j) = ZOMBIE" for j
    by (simp add: wakeup1_eq)
  then show ?thesis by (simp add: zombie_child_def wakeup1_fields(4))
qed

lemma exit_ptable_fields:
  fixes t :: ptab and cur :: nat and ini :: "nat option"
  defines "t' \<equiv> exit_ptable cur ini t"
  shows "pid (t' i) = pid (t i)" and "chan (t' i) = chan (t i)" and "fds (t' i) = fds (t i)"
    and "parent (t' i) = (if i < NPROC \<and> parent (t i) = Some cur then ini else parent (t i))"
    and "pstate (t' i) =
      (if i = cur then ZOMBIE
       else if i < NPROC \<and> pstate (t i) = SLEEPING
            \<and> (chan (t i) = map_option On_proc (parent (t cur))
               \<or> (zombie_child cur t NPROC \<and> chan (t i) = map_option On_proc ini)) then RUNNABLE
       else pstate (t i))"
  by (simp_all add: t'_def exit_ptable_def Let_def reparent_eq handed_def wakeup1_fields zombie_child_wakeup1) blast

section \<open>What changes\<close>

text \<open>The processors and the processes they run are the same.\<close>

definition cpu_same :: "machine \<Rightarrow> machine \<Rightarrow> bool" where
  "cpu_same m m' \<longleftrightarrow> map apicid (cpus m') = map apicid (cpus m) \<and> map cproc (cpus m') = map cproc (cpus m)"

lemma cpu_same_refl [simp]: "cpu_same m m"
  by (simp add: cpu_same_def)

lemma cpu_same_trans: "cpu_same m m' \<Longrightarrow> cpu_same m' m'' \<Longrightarrow> cpu_same m m''"
  by (simp add: cpu_same_def)

lemma map_update_same:
  "(\<And>u. g (f u) = g u) \<Longrightarrow> map g (xs[i := f (xs ! i)]) = map g xs"
  by (cases "i < length xs") (simp_all add: map_update list_update_beyond list_update_same_conv)

lemma cpu_same_upd:
  assumes "cpu_same m m'" and "\<And>u. apicid (f u) = apicid u" and "\<And>u. cproc (f u) = cproc u"
  shows "cpu_same m (cpu_upd i f m')"
  using assms by (simp add: cpu_same_def map_update_same)

lemma cpu_same_set_if [simp]: "cpu_same m (set_if a b m') = cpu_same m m'"
  by (simp add: cpu_same_def)

lemma cpu_same_cr3 [simp]: "cpu_same m (m'\<lparr>cr3 := x\<rparr>) = cpu_same m m'"
  by (simp add: cpu_same_def)

lemma pushcli_same: "pushcli a m = Inr m' \<Longrightarrow> cpu_same m m'"
  by (auto simp: pushcli_def Let_def split: if_splits intro!: cpu_same_upd)

lemma popcli_same: "popcli a m = Inr m' \<Longrightarrow> cpu_same m m'"
  by (auto simp: popcli_def Let_def split: if_splits intro!: cpu_same_upd)

lemma holding_same: "holding a l m = Inr (h, m') \<Longrightarrow> cpu_same m m'"
  by (auto simp: holding_def dest!: pushcli_same popcli_same intro: cpu_same_trans)

lemma acquire_effect:
  "acquire rd v a l m = Inr (l', m') \<Longrightarrow> cpu_same m m' \<and> locked l = 0 \<and> locked l' = 1"
  by (auto simp: acquire_def acquire_enter_def acquire_record_def xchg_lock_def Let_def
      split: if_splits dest!: pushcli_same holding_same intro: cpu_same_trans)

lemma release_effect:
  "release a l m = Inr (l', m') \<Longrightarrow> cpu_same m m' \<and> locked l' = 0"
  by (auto simp: release_def release_enter_def store_unlock_def
      split: if_splits dest!: popcli_same holding_same intro: cpu_same_trans)

lemma acquire_ptable_effect:
  assumes "acquire_ptable K s = Inr s'"
  obtains l m where "s' = s\<lparr>ptlock := l, hw := m\<rparr>" "cpu_same (hw s) m" "locked (ptlock s) = 0" "locked l = 1"
  using assms by (auto simp: acquire_ptable_def dest!: acquire_effect)

lemma release_ptable_effect:
  assumes "release_ptable K s = Inr s'"
  obtains l m where "s' = s\<lparr>ptlock := l, hw := m\<rparr>" "cpu_same (hw s) m" "locked l = 0"
  using assms by (auto simp: release_ptable_def dest!: release_effect)

text \<open>The processor with index \<open>c\<close> runs the code.\<close>

definition runs_on :: "kenv \<Rightarrow> nat \<Rightarrow> machine \<Rightarrow> bool" where
  "runs_on K c m \<longleftrightarrow> wf_cpus m \<and> c < length (cpus m) \<and> lapicid K = apicid (cpus m ! c)"

lemma runs_on_same: "cpu_same m m' \<Longrightarrow> runs_on K c m \<Longrightarrow> runs_on K c m'"
  unfolding cpu_same_def runs_on_def wf_cpus_def by (metis length_map nth_map)

lemma cproc_same: "cpu_same m m' \<Longrightarrow> c < length (cpus m) \<Longrightarrow> cproc (cpus m' ! c) = cproc (cpus m ! c)"
  unfolding cpu_same_def by (metis length_map nth_map)

lemma mycpu_runs: "runs_on K c m \<Longrightarrow> mycpu (lapicid K) m = Inr i \<Longrightarrow> i = c"
  using mycpu_self [of m c "lapicid K"] by (auto simp: runs_on_def mycpu_def split: if_splits)

lemma myproc_effect:
  assumes "myproc K s = Inr (p, s')" and "runs_on K c (hw s)"
  obtains m where "s' = s\<lparr>hw := m\<rparr>" "cpu_same (hw s) m" "p = cproc (cpus (hw s) ! c)"
proof -
  obtain m1 i m2 where m: "pushcli (lapicid K) (hw s) = Inr m1" "mycpu (lapicid K) m1 = Inr i"
      "p = cproc (cpus m1 ! i)" "popcli (lapicid K) m1 = Inr m2" "s' = s\<lparr>hw := m2\<rparr>"
    using assms(1) by (auto simp: myproc_def Let_def)
  note sm = pushcli_same [OF m(1)]
  have "i = c" using mycpu_runs [OF runs_on_same [OF sm assms(2)] m(2)] .
  then have "p = cproc (cpus (hw s) ! c)"
    using m(3) cproc_same [OF sm] assms(2) by (simp add: runs_on_def)
  then show thesis
    by (rule that [OF m(5) cpu_same_trans [OF sm popcli_same [OF m(4)]]])
qed

lemma curproc_effect:
  assumes "curproc K s = Inr (p, s')" and "runs_on K c (hw s)"
  obtains m where "s' = s\<lparr>hw := m\<rparr>" "cpu_same (hw s) m" "cproc (cpus (hw s) ! c) = Some p"
proof -
  obtain q where q: "myproc K s = Inr (q, s')" "q = Some p"
    using assms(1) by (auto simp: curproc_def split: option.splits)
  show thesis
    by (rule myproc_effect [OF q(1) assms(2)]) (rule that, use q(2) in simp_all)
qed

lemma sched_enter_effect:
  assumes "sched_enter K s = Inr (e, s')" and "runs_on K c (hw s)"
  obtains m where "s' = s\<lparr>hw := m\<rparr>" "cpu_same (hw s) m"
proof -
  obtain p s1 h m where 1: "curproc K s = Inr (p, s1)" "holding (lapicid K) (ptlock s1) (hw s1) = Inr (h, m)"
      "s' = s1\<lparr>hw := m\<rparr>"
    using assms(1) by (auto simp: sched_enter_def Let_def split: if_splits)
  obtain m1 where m1: "s1 = s\<lparr>hw := m1\<rparr>" "cpu_same (hw s) m1"
    by (rule curproc_effect [OF 1(1) assms(2)])
  show thesis
    by (rule that [of m]) (use 1 m1 holding_same [OF 1(2)] in \<open>auto intro: cpu_same_trans\<close>)
qed

lemma sched_leave_effect:
  assumes "sched_leave K e s = Inr s'"
  obtains m where "s' = s\<lparr>hw := m\<rparr>" "cpu_same (hw s) m"
  using assms by (auto simp: sched_leave_def cpu_same_upd)

lemma switchuvm_effect:
  assumes "switchuvm K p s = Inr s'"
  obtains m where "s' = s\<lparr>hw := m\<rparr>" "cpu_same (hw s) m"
proof -
  obtain q where q: "p = Some q" using assms by (auto simp: switchuvm_def split: option.splits)
  obtain m1 i m2 where m: "pushcli (lapicid K) (hw s) = Inr m1"
      "popcli (lapicid K) ((cpu_upd i (\<lambda>u. u\<lparr>ts_ss0 := 16, ts_esp0 := kstack (ptable s q) + KSTACKSIZE,
          ts_iomb := 0xFFFF\<rparr>) m1)\<lparr>cr3 := (cr3 m1)(lapicid K := V2P (pgdir (ptable s q)))\<rparr>) = Inr m2"
      "s' = s\<lparr>hw := m2\<rparr>"
    using assms unfolding q
    by (auto simp: switchuvm_def Let_def cpu_upd_def split: if_splits)
  have "cpu_same m1 ((cpu_upd i (\<lambda>u. u\<lparr>ts_ss0 := 16, ts_esp0 := kstack (ptable s q) + KSTACKSIZE,
          ts_iomb := 0xFFFF\<rparr>) m1)\<lparr>cr3 := (cr3 m1)(lapicid K := V2P (pgdir (ptable s q)))\<rparr>)"
    by (simp add: cpu_same_upd)
  then show thesis
    by (rule that [OF m(3) cpu_same_trans [OF pushcli_same [OF m(1)] cpu_same_trans [OF _ popcli_same [OF m(2)]]]])
qed

end
