(* ===== verification/Sched.thy ===== *)
theory Sched
  imports Proc_Table
begin

text \<open>
  The processors running the kernel together: each is in its scheduler loop or runs a
  process, and the steps of the system are the operations of \<^verbatim>\<open>proc.c\<close>, interleaved at the
  points where the table lock is taken and given up. Every reachable state keeps the table
  and the processors consistent.
\<close>

section \<open>Where a processor stands\<close>

text \<open>
  \<open>Top\<close> is the idle part of \<^verbatim>\<open>scheduler\<close>, \<open>Loop i\<close> its loop at slot \<open>i\<close> with the table lock
  held. A dispatched process first holds the lock it got from the scheduler (\<open>Locked\<close>), then
  runs freely (\<open>Free\<close>; \<open>Forking\<close> and \<open>Ready\<close> while it builds a child), and gives the
  processor up with the lock held (\<open>Switching\<close>).
\<close>

datatype ctl = Top | Loop nat | Locked nat | Free nat | Forking nat nat | Ready nat nat | Switching nat

text \<open>Where a process that is not running continues when it is dispatched.\<close>

datatype cont = Fresh | Yielded bool | Slept bool | Waiting bool

fun on_cpu :: "ctl \<Rightarrow> nat option" where
  "on_cpu Top = None"
| "on_cpu (Loop i) = None"
| "on_cpu (Locked i) = Some i"
| "on_cpu (Free i) = Some i"
| "on_cpu (Forking i j) = Some i"
| "on_cpu (Ready i j) = Some i"
| "on_cpu (Switching i) = Some i"

fun in_sched :: "ctl \<Rightarrow> bool" where
  "in_sched (Loop i) = True"
| "in_sched (Locked i) = True"
| "in_sched (Switching i) = True"
| "in_sched _ = False"

fun switching :: "ctl \<Rightarrow> bool" where
  "switching (Switching i) = True"
| "switching _ = False"

fun embryo :: "ctl \<Rightarrow> nat option" where
  "embryo (Forking i j) = Some j"
| "embryo (Ready i j) = Some j"
| "embryo _ = None"

record ssys =
  ctls :: "nat \<Rightarrow> ctl"
  conts :: "nat \<Rightarrow> cont"
  ks :: proc_sys

abbreviation ncpu :: "ssys \<Rightarrow> nat" where "ncpu S \<equiv> length (cpus (hw (ks S)))"
abbreviation tab :: "ssys \<Rightarrow> ptab" where "tab S \<equiv> ptable (ks S)"
abbreviation state_of :: "ssys \<Rightarrow> nat \<Rightarrow> procstate" where "state_of S i \<equiv> pstate (ptable (ks S) i)"

definition go :: "nat \<Rightarrow> ctl \<Rightarrow> proc_sys \<Rightarrow> ssys \<Rightarrow> ssys" where
  "go c x k S = S\<lparr>ctls := (ctls S)(c := x), ks := k\<rparr>"

definition save :: "nat \<Rightarrow> cont \<Rightarrow> ssys \<Rightarrow> ssys" where
  "save i r S = S\<lparr>conts := (conts S)(i := r)\<rparr>"

definition waited :: "nat \<Rightarrow> nat \<Rightarrow> wait_out \<Rightarrow> proc_sys \<Rightarrow> ssys \<Rightarrow> ssys" where
  "waited c i w k S =
     (case w of Blocked e \<Rightarrow> save i (Waiting e) (go c (Switching i) k S) | _ \<Rightarrow> go c (Free i) k S)"

text \<open>
  Kernel and user code that is not an operation on the process table may change everything
  but the table's scheduling fields, its lock, and which process runs where.
\<close>

definition other_code :: "proc_sys \<Rightarrow> proc_sys \<Rightarrow> bool" where
  "other_code k k' \<longleftrightarrow> ptlock k' = ptlock k \<and> cpu_same (hw k) (hw k') \<and> nextpid k' = nextpid k \<and> initproc k' = initproc k
     \<and> (\<forall>i. pstate (ptable k' i) = pstate (ptable k i) \<and> pid (ptable k' i) = pid (ptable k i)
            \<and> parent (ptable k' i) = parent (ptable k i) \<and> chan (ptable k' i) = chan (ptable k i))"

text \<open>
  The steps of processor \<open>c\<close>, whose environment is \<open>E c\<close>. Interrupt handlers call \<^verbatim>\<open>wakeup\<close>
  on an idle processor as well. Only \<^verbatim>\<open>wait\<close> sleeps on a slot of the process table.
\<close>

inductive sched_step :: "(nat \<Rightarrow> kenv) \<Rightarrow> nat \<Rightarrow> ssys \<Rightarrow> ssys \<Rightarrow> bool" for E c S where
  top: "c < ncpu S \<Longrightarrow> ctls S c = Top \<Longrightarrow> scheduler_top (E c) (ks S) = Inr k \<Longrightarrow>
     sched_step E c S (go c (Loop 0) k S)"
| skip: "c < ncpu S \<Longrightarrow> ctls S c = Loop i \<Longrightarrow> i < NPROC \<Longrightarrow>
     scheduler_slot (E c) c i (ks S) = Inr (False, k) \<Longrightarrow> sched_step E c S (go c (Loop (Suc i)) k S)"
| dispatch: "c < ncpu S \<Longrightarrow> ctls S c = Loop i \<Longrightarrow> i < NPROC \<Longrightarrow>
     scheduler_slot (E c) c i (ks S) = Inr (True, k) \<Longrightarrow> sched_step E c S (go c (Locked i) k S)"
| bottom: "c < ncpu S \<Longrightarrow> ctls S c = Loop i \<Longrightarrow> \<not> i < NPROC \<Longrightarrow>
     scheduler_bottom (E c) (ks S) = Inr k \<Longrightarrow> sched_step E c S (go c Top k S)"
| begin_run: "c < ncpu S \<Longrightarrow> ctls S c = Locked i \<Longrightarrow> conts S i = Fresh \<Longrightarrow>
     release_ptable (E c) (ks S) = Inr k \<Longrightarrow> sched_step E c S (go c (Free i) k S)"
| end_yield: "c < ncpu S \<Longrightarrow> ctls S c = Locked i \<Longrightarrow> conts S i = Yielded e \<Longrightarrow>
     yield_leave (E c) e (ks S) = Inr k \<Longrightarrow> sched_step E c S (go c (Free i) k S)"
| end_sleep: "c < ncpu S \<Longrightarrow> ctls S c = Locked i \<Longrightarrow> conts S i = Slept e \<Longrightarrow>
     rbind (sleep_wake (E c) e i (ks S)) (release_ptable (E c)) = Inr k \<Longrightarrow>
     sched_step E c S (go c (Free i) k S)"
| end_wait: "c < ncpu S \<Longrightarrow> ctls S c = Locked i \<Longrightarrow> conts S i = Waiting e \<Longrightarrow>
     wait_again (E c) e i (ks S) = Inr (w, k) \<Longrightarrow> sched_step E c S (waited c i w k S)"
| yielding: "c < ncpu S \<Longrightarrow> ctls S c = Free i \<Longrightarrow> yield_enter (E c) (ks S) = Inr (e, k) \<Longrightarrow>
     sched_step E c S (save i (Yielded e) (go c (Switching i) k S))"
| sleeping: "c < ncpu S \<Longrightarrow> ctls S c = Free i \<Longrightarrow>
     sleep_enter (E c) (On_addr a) (Lock l) (ks S) = Inr (e, l', k) \<Longrightarrow>
     sched_step E c S (save i (Slept e) (go c (Switching i) k S))"
| waiting: "c < ncpu S \<Longrightarrow> ctls S c = Free i \<Longrightarrow> wait_enter (E c) (ks S) = Inr (w, k) \<Longrightarrow>
     sched_step E c S (waited c i w k S)"
| exiting: "c < ncpu S \<Longrightarrow> ctls S c = Free i \<Longrightarrow> initproc (ks S) \<noteq> Some i \<Longrightarrow>
     exit_switch (E c) i (ks S) = Inr k \<Longrightarrow> sched_step E c S (go c (Switching i) k S)"
| switched: "c < ncpu S \<Longrightarrow> ctls S c = Switching i \<Longrightarrow>
     sched_step E c S (go c (Loop (Suc i)) (scheduler_back (E c) c (ks S)) S)"
| waking: "c < ncpu S \<Longrightarrow> ctls S c = Free i \<or> ctls S c = Top \<Longrightarrow> wakeup (E c) ch (ks S) = Inr k \<Longrightarrow>
     sched_step E c S (go c (ctls S c) k S)"
| killing: "c < ncpu S \<Longrightarrow> ctls S c = Free i \<Longrightarrow> kill (E c) n (ks S) = Inr (r, k) \<Longrightarrow>
     sched_step E c S (go c (ctls S c) k S)"
| no_slot: "c < ncpu S \<Longrightarrow> ctls S c = Free i \<Longrightarrow> allocproc (E c) (ks S) = Inr (None, k) \<Longrightarrow>
     sched_step E c S (go c (Free i) k S)"
| new_slot: "c < ncpu S \<Longrightarrow> ctls S c = Free i \<Longrightarrow> allocproc (E c) (ks S) = Inr (Some j, k) \<Longrightarrow>
     sched_step E c S (save j Fresh (go c (Forking i j) k S))"
| no_copy: "c < ncpu S \<Longrightarrow> ctls S c = Forking i j \<Longrightarrow> fork_copy (E c) i j (ks S) = Inr (False, k) \<Longrightarrow>
     sched_step E c S (go c (Free i) k S)"
| copied: "c < ncpu S \<Longrightarrow> ctls S c = Forking i j \<Longrightarrow> fork_copy (E c) i j (ks S) = Inr (True, k') \<Longrightarrow>
     fork_child i j k' = Inr k \<Longrightarrow> sched_step E c S (go c (Ready i j) k S)"
| publish: "c < ncpu S \<Longrightarrow> ctls S c = Ready i j \<Longrightarrow> set_runnable (E c) j (ks S) = Inr k \<Longrightarrow>
     sched_step E c S (go c (Free i) k S)"
| other: "c < ncpu S \<Longrightarrow> \<not> in_sched (ctls S c) \<Longrightarrow> other_code (ks S) k \<Longrightarrow>
     sched_step E c S (go c (ctls S c) k S)"

text \<open>
  The state in which the processors enter \<^verbatim>\<open>scheduler\<close>: the first process is runnable in
  slot 0 and every other slot is unused.
\<close>

definition sched_init :: "(nat \<Rightarrow> kenv) \<Rightarrow> ssys \<Rightarrow> bool" where
  "sched_init E S \<longleftrightarrow> ctls S = (\<lambda>_. Top) \<and> conts S 0 = Fresh \<and> locked (ptlock (ks S)) = 0 \<and> wf_cpus (hw (ks S))
     \<and> (\<forall>c < ncpu S. lapicid (E c) = apicid (cpus (hw (ks S)) ! c) \<and> cproc (cpus (hw (ks S)) ! c) = None)
     \<and> initproc (ks S) = Some 0 \<and> nextpid (ks S) = 2 \<and> pid (tab S 0) = 1 \<and> state_of S 0 = RUNNABLE
     \<and> (\<forall>i > 0. state_of S i = UNUSED) \<and> (\<forall>i. parent (tab S i) = None)"

inductive sched_reach :: "(nat \<Rightarrow> kenv) \<Rightarrow> ssys \<Rightarrow> bool" for E where
  start: "sched_init E S \<Longrightarrow> sched_reach E S"
| step: "sched_reach E S \<Longrightarrow> sched_step E c S S' \<Longrightarrow> sched_reach E S'"

section \<open>The invariant\<close>

definition hw_inv :: "(nat \<Rightarrow> kenv) \<Rightarrow> (nat \<Rightarrow> ctl) \<Rightarrow> machine \<Rightarrow> bool" where
  "hw_inv E C m \<longleftrightarrow> wf_cpus m \<and> (\<forall>c \<ge> length (cpus m). C c = Top)
     \<and> (\<forall>c < length (cpus m). lapicid (E c) = apicid (cpus m ! c) \<and> cproc (cpus m ! c) = on_cpu (C c))"

text \<open>
  The processors: at most one is inside the code that holds the table lock; a process is
  \<open>RUNNING\<close> exactly while one processor runs it; a child under construction is \<open>EMBRYO\<close> and
  belongs to one processor.
\<close>

definition ctl_inv :: "(nat \<Rightarrow> ctl) \<Rightarrow> bool \<Rightarrow> (nat \<Rightarrow> procstate) \<Rightarrow> bool" where
  "ctl_inv C L st \<longleftrightarrow>
     (\<forall>c d. in_sched (C c) \<longrightarrow> in_sched (C d) \<longrightarrow> c = d) \<and> (\<forall>c. in_sched (C c) \<longrightarrow> L)
   \<and> (\<forall>c i. on_cpu (C c) = Some i \<longrightarrow> i < NPROC \<and> (st i = RUNNING \<longleftrightarrow> \<not> switching (C c)))
   \<and> (\<forall>c d i. on_cpu (C c) = Some i \<longrightarrow> on_cpu (C d) = Some i \<longrightarrow> c = d)
   \<and> (\<forall>i. st i = RUNNING \<longrightarrow> (\<exists>c. on_cpu (C c) = Some i))
   \<and> (\<forall>c j. embryo (C c) = Some j \<longrightarrow> j < NPROC \<and> st j = EMBRYO)
   \<and> (\<forall>c d j. embryo (C c) = Some j \<longrightarrow> embryo (C d) = Some j \<longrightarrow> c = d)"

text \<open>
  The table: no process sleeps in \<^verbatim>\<open>wait\<close> while it has a zombie child; the processes in use
  have distinct positive ids below \<^verbatim>\<open>nextpid\<close>; parents are slots of the table, no process is its
  own parent, and the first process is alive and has none.
\<close>

definition settled :: "procstate \<Rightarrow> bool" where
  "settled st \<longleftrightarrow> st = SLEEPING \<or> st = RUNNABLE \<or> st = RUNNING"

definition in_wait :: "ptab \<Rightarrow> nat \<Rightarrow> bool" where
  "in_wait t p \<longleftrightarrow> pstate (t p) = SLEEPING \<and> chan (t p) = Some (On_proc p)"

definition tab_inv :: "ptab \<Rightarrow> int \<Rightarrow> nat option \<Rightarrow> bool" where
  "tab_inv t n ini \<longleftrightarrow>
     (\<forall>z p. z < NPROC \<longrightarrow> pstate (t z) = ZOMBIE \<longrightarrow> parent (t z) = Some p \<longrightarrow> \<not> in_wait t p)
   \<and> (\<forall>i < NPROC. pstate (t i) \<noteq> UNUSED \<longrightarrow> 1 \<le> pid (t i) \<and> pid (t i) < n)
   \<and> (\<forall>i j. i < NPROC \<longrightarrow> j < NPROC \<longrightarrow> pstate (t i) \<noteq> UNUSED \<longrightarrow> pstate (t j) \<noteq> UNUSED \<longrightarrow>
        pid (t i) = pid (t j) \<longrightarrow> i = j)
   \<and> (\<forall>i p. i < NPROC \<longrightarrow> parent (t i) = Some p \<longrightarrow> p < NPROC \<and> p \<noteq> i)
   \<and> (\<forall>p. ini = Some p \<longrightarrow> p < NPROC \<and> settled (pstate (t p)) \<and> parent (t p) = None) \<and> 1 \<le> n"

definition sched_inv :: "(nat \<Rightarrow> kenv) \<Rightarrow> ssys \<Rightarrow> bool" where
  "sched_inv E S \<longleftrightarrow> hw_inv E (ctls S) (hw (ks S))
     \<and> ctl_inv (ctls S) (locked (ptlock (ks S)) \<noteq> 0) (\<lambda>i. state_of S i)
     \<and> tab_inv (tab S) (nextpid (ks S)) (initproc (ks S))"

subsection \<open>Moves of one processor\<close>

text \<open>Changes of states that no processor depends on.\<close>

definition quiet :: "(nat \<Rightarrow> procstate) \<Rightarrow> (nat \<Rightarrow> procstate) \<Rightarrow> bool" where
  "quiet st st' \<longleftrightarrow> (\<forall>j. st' j = st j \<or> (st j \<noteq> RUNNING \<and> st j \<noteq> EMBRYO \<and> st' j \<noteq> RUNNING))"

lemma quiet_refl [simp]: "quiet st st"
  by (simp add: quiet_def)

lemma ctl_invD:
  assumes "ctl_inv C L st"
  shows "in_sched (C c) \<Longrightarrow> in_sched (C d) \<Longrightarrow> c = d" and "in_sched (C c) \<Longrightarrow> L"
    and "on_cpu (C c) = Some i \<Longrightarrow> i < NPROC \<and> (st i = RUNNING \<longleftrightarrow> \<not> switching (C c))"
    and "on_cpu (C c) = Some i \<Longrightarrow> on_cpu (C d) = Some i \<Longrightarrow> c = d"
    and "st i = RUNNING \<Longrightarrow> \<exists>c. on_cpu (C c) = Some i"
    and "embryo (C c) = Some j \<Longrightarrow> j < NPROC \<and> st j = EMBRYO"
    and "embryo (C c) = Some j \<Longrightarrow> embryo (C d) = Some j \<Longrightarrow> c = d"
  using assms unfolding ctl_inv_def by blast+

text \<open>A processor moves and states change: what is left to check.\<close>

lemma ctl_move:
  assumes inv: "ctl_inv C L st"
    and "in_sched x \<Longrightarrow> L' \<and> (in_sched (C c) \<or> \<not> L)" and "L' \<or> in_sched (C c) \<or> \<not> L"
    and "\<And>i. on_cpu x = Some i \<Longrightarrow> i < NPROC \<and> (st' i = RUNNING \<longleftrightarrow> \<not> switching x) \<and> (\<forall>d. d \<noteq> c \<longrightarrow> on_cpu (C d) \<noteq> Some i)"
    and "\<And>d i. d \<noteq> c \<Longrightarrow> on_cpu (C d) = Some i \<Longrightarrow> (st' i = RUNNING \<longleftrightarrow> st i = RUNNING)"
    and "\<And>i. st' i = RUNNING \<Longrightarrow> on_cpu x = Some i \<or> st i = RUNNING \<and> on_cpu (C c) \<noteq> Some i"
    and "\<And>j. embryo x = Some j \<Longrightarrow> j < NPROC \<and> st' j = EMBRYO \<and> (\<forall>d. d \<noteq> c \<longrightarrow> embryo (C d) \<noteq> Some j)"
    and "\<And>d j. d \<noteq> c \<Longrightarrow> embryo (C d) = Some j \<Longrightarrow> st' j = EMBRYO"
  shows "ctl_inv (C(c := x)) L' st'"
  unfolding ctl_inv_def
proof (intro conjI allI impI)
  fix d e assume "in_sched ((C(c := x)) d)" "in_sched ((C(c := x)) e)"
  then show "d = e" using assms(2) by (auto split: if_splits dest: ctl_invD(1,2) [OF inv])
next
  fix d assume "in_sched ((C(c := x)) d)"
  then show L' using assms(2,3) by (auto split: if_splits dest: ctl_invD(1,2) [OF inv])
next
  fix d i assume "on_cpu ((C(c := x)) d) = Some i"
  then show "i < NPROC" "(st' i = RUNNING) = (\<not> switching ((C(c := x)) d))"
    using assms(4,5) ctl_invD(3) [OF inv] by (auto split: if_splits)
next
  fix d e i assume "on_cpu ((C(c := x)) d) = Some i" "on_cpu ((C(c := x)) e) = Some i"
  then show "d = e" using assms(4) by (auto split: if_splits dest: ctl_invD(4) [OF inv])
next
  fix i assume "st' i = RUNNING"
  then show "\<exists>d. on_cpu ((C(c := x)) d) = Some i"
    using assms(6) ctl_invD(5) [OF inv] by (metis fun_upd_apply)
next
  fix d j assume "embryo ((C(c := x)) d) = Some j"
  then show "j < NPROC" "st' j = EMBRYO"
    using assms(7,8) ctl_invD(6) [OF inv] by (auto split: if_splits)
next
  fix d e j assume "embryo ((C(c := x)) d) = Some j" "embryo ((C(c := x)) e) = Some j"
  then show "d = e" using assms(7) by (auto split: if_splits dest: ctl_invD(7) [OF inv])
qed

lemma embryo_on: "on_cpu x = None \<Longrightarrow> embryo x = None"
  by (cases x) simp_all

lemma quietD:
  assumes "quiet st st'"
  shows "st' i = RUNNING \<longleftrightarrow> st i = RUNNING" and "st i = EMBRYO \<Longrightarrow> st' i = EMBRYO"
  using assms unfolding quiet_def by metis+

lemma ctl_idle:
  assumes "ctl_inv C L st" and "on_cpu (C c) = None" and "on_cpu x = None" and "quiet st st'"
    and "in_sched x \<Longrightarrow> L' \<and> (in_sched (C c) \<or> \<not> L)" and "L' \<or> in_sched (C c) \<or> \<not> L"
  shows "ctl_inv (C(c := x)) L' st'"
  by (rule ctl_move [OF assms(1)])
    (use assms(2,3,5,6) embryo_on [OF assms(3)] in \<open>simp_all add: quietD [OF assms(4)] ctl_invD(6) [OF assms(1)]\<close>)

lemma ctl_dispatch:
  assumes inv: "ctl_inv C L st" and c: "C c = Loop i" "i < NPROC" "st i = RUNNABLE"
  shows "ctl_inv (C(c := Locked i)) L (st(i := RUNNING))"
proof (rule ctl_move [OF inv])
  have free: "on_cpu (C d) \<noteq> Some i" for d
  proof
    assume d: "on_cpu (C d) = Some i"
    then have "switching (C d)" using ctl_invD(3) [OF inv d] c(3) by simp
    then have "in_sched (C d)" by (cases "C d") simp_all
    then have "d = c" using ctl_invD(1) [OF inv, of d c] c(1) by simp
    with d c(1) show False by simp
  qed
  show "(st(i := RUNNING)) k = RUNNING \<longleftrightarrow> st k = RUNNING" if "on_cpu (C d) = Some k" for d k
    using that free by auto
  show "k < NPROC \<and> ((st(i := RUNNING)) k = RUNNING) = (\<not> switching (Locked i)) \<and> (\<forall>d. d \<noteq> c \<longrightarrow> on_cpu (C d) \<noteq> Some k)"
    if "on_cpu (Locked i) = Some k" for k
    using that c(2) free by simp
  show "(st(i := RUNNING)) j = EMBRYO" if "embryo (C d) = Some j" for d j
    using ctl_invD(6) [OF inv that] c(3) by auto
qed (use c ctl_invD(2) [OF inv, of c] in \<open>auto split: if_splits\<close>)

lemma ctl_sole:
  assumes "ctl_inv C L st" and "on_cpu (C c) = Some i"
  shows "\<forall>d. d \<noteq> c \<longrightarrow> on_cpu (C d) \<noteq> Some i"
  using ctl_invD(4) [OF assms] by blast

lemma ctl_stay:
  assumes inv: "ctl_inv C L st" and c: "on_cpu (C c) = Some i" "on_cpu x = Some i" "\<not> switching (C c)" "\<not> switching x"
    "embryo x = embryo (C c) \<or> embryo x = None" "\<not> in_sched x" "if in_sched (C c) then \<not> L' else L' = L"
    and q: "quiet st st'"
  shows "ctl_inv (C(c := x)) L' st'"
proof (rule ctl_move [OF inv])
  show "k < NPROC \<and> (st' k = RUNNING) = (\<not> switching x) \<and> (\<forall>d. d \<noteq> c \<longrightarrow> on_cpu (C d) \<noteq> Some k)"
    if "on_cpu x = Some k" for k
    using that c(2,4) ctl_invD(3) [OF inv c(1)] c(3) ctl_sole [OF inv c(1)] by (auto simp: quietD [OF q])
  show "j < NPROC \<and> st' j = EMBRYO \<and> (\<forall>d. d \<noteq> c \<longrightarrow> embryo (C d) \<noteq> Some j)" if "embryo x = Some j" for j
  proof -
    have e: "embryo (C c) = Some j" using that c(5) by auto
    show ?thesis using ctl_invD(6) [OF inv e] by (auto simp: quietD [OF q] dest: ctl_invD(7) [OF inv e])
  qed
qed (use c ctl_invD(2) [OF inv, of c] in \<open>auto simp: quietD [OF q] dest: ctl_invD(6) [OF inv] split: if_splits\<close>)

lemma ctl_switch:
  assumes inv: "ctl_inv C L st" and c: "on_cpu (C c) = Some i" "in_sched (C c) \<or> \<not> L"
    and st: "st' i \<noteq> RUNNING" "\<And>j. j \<noteq> i \<Longrightarrow> st' j = st j \<or> (st j = SLEEPING \<and> st' j = RUNNABLE)"
    and r: "\<not> switching (C c)"
  shows "ctl_inv (C(c := Switching i)) True st'"
proof (rule ctl_move [OF inv])
  note run = ctl_invD(3) [OF inv c(1)] and uniq = ctl_invD(4) [OF inv c(1)]
  show "k < NPROC \<and> (st' k = RUNNING) = (\<not> switching (Switching i)) \<and> (\<forall>d. d \<noteq> c \<longrightarrow> on_cpu (C d) \<noteq> Some k)"
    if "on_cpu (Switching i) = Some k" for k
    using that run st(1) ctl_sole [OF inv c(1)] by auto
  show "st' k = RUNNING \<longleftrightarrow> st k = RUNNING" if "d \<noteq> c" "on_cpu (C d) = Some k" for d k
  proof -
    have "k \<noteq> i" using that uniq by blast
    then show ?thesis using st(2) [of k] by auto
  qed
  show "on_cpu (Switching i) = Some k \<or> st k = RUNNING \<and> on_cpu (C c) \<noteq> Some k" if "st' k = RUNNING" for k
    using that st c(1) by (metis option.inject procstate.distinct(23) procstate.distinct(25))
  show "st' j = EMBRYO" if "embryo (C d) = Some j" for d j
  proof -
    have "st j = EMBRYO" using ctl_invD(6) [OF inv that] by simp
    moreover have "j \<noteq> i" using calculation run r by auto
    ultimately show ?thesis using st(2) [of j] by auto
  qed
qed (use c in auto)

lemma ctl_back:
  assumes inv: "ctl_inv C L st" and c: "C c = Switching i"
  shows "ctl_inv (C(c := Loop (Suc i))) L st"
  by (rule ctl_move [OF inv])
    (use c ctl_invD(2) [OF inv, of c] ctl_invD(3) [OF inv, of c] in \<open>auto dest: ctl_invD(6) [OF inv]\<close>)

lemma ctl_new:
  assumes inv: "ctl_inv C L st" and c: "C c = Free i" "j < NPROC" "st j = UNUSED"
  shows "ctl_inv (C(c := Forking i j)) L (st(j := EMBRYO))"
proof (rule ctl_move [OF inv])
  note run = ctl_invD(3) [OF inv, of c i]
  show "k < NPROC \<and> ((st(j := EMBRYO)) k = RUNNING) = (\<not> switching (Forking i j)) \<and> (\<forall>d. d \<noteq> c \<longrightarrow> on_cpu (C d) \<noteq> Some k)"
    if "on_cpu (Forking i j) = Some k" for k
    using that run c ctl_sole [OF inv, of c i] by auto
  show "l < NPROC \<and> (st(j := EMBRYO)) l = EMBRYO \<and> (\<forall>d. d \<noteq> c \<longrightarrow> embryo (C d) \<noteq> Some l)"
    if "embryo (Forking i j) = Some l" for l
    using that c by (auto dest: ctl_invD(6) [OF inv])
  show "(st(j := EMBRYO)) l = EMBRYO" if "embryo (C d) = Some l" for d l
    using ctl_invD(6) [OF inv that] by simp
qed (use c in \<open>auto split: if_splits\<close>)

lemma ctl_end:
  assumes inv: "ctl_inv C L st" and c: "on_cpu (C c) = Some i" "embryo (C c) = Some j" "v \<noteq> RUNNING"
  shows "ctl_inv (C(c := Free i)) L (st(j := v))"
proof (rule ctl_move [OF inv])
  have f: "\<not> switching (C c)" "\<not> in_sched (C c)" using c(2) by (cases "C c"; simp)+
  note run = ctl_invD(3) [OF inv c(1)] and em = ctl_invD(6) [OF inv c(2)]
  show "k < NPROC \<and> ((st(j := v)) k = RUNNING) = (\<not> switching (Free i)) \<and> (\<forall>d. d \<noteq> c \<longrightarrow> on_cpu (C d) \<noteq> Some k)"
    if "on_cpu (Free i) = Some k" for k
    using that run em f ctl_sole [OF inv c(1)] by auto
  show "(st(j := v)) k = RUNNING \<longleftrightarrow> st k = RUNNING" for k
    using c(3) em by auto
  show "(st(j := v)) l = EMBRYO" if "d \<noteq> c" "embryo (C d) = Some l" for d l
  proof -
    have "l \<noteq> j" using ctl_invD(7) [OF inv that(2), of c] that(1) c(2) by blast
    then show ?thesis using ctl_invD(6) [OF inv that(2)] by simp
  qed
qed (use c ctl_invD(6) [OF inv c(2)] ctl_invD(2) [OF inv, of c] in \<open>auto split: if_splits\<close>)

subsection \<open>Changes of the table\<close>

text \<open>No process is born, dies, or starts to wait.\<close>

definition calm :: "ptab \<Rightarrow> ptab \<Rightarrow> bool" where
  "calm t t' \<longleftrightarrow> (\<forall>i. pid (t' i) = pid (t i) \<and> parent (t' i) = parent (t i)
     \<and> (pstate (t i) = UNUSED \<longrightarrow> pstate (t' i) = UNUSED) \<and> (pstate (t' i) = ZOMBIE \<longrightarrow> pstate (t i) = ZOMBIE)
     \<and> (settled (pstate (t i)) \<longrightarrow> settled (pstate (t' i))) \<and> (in_wait t' i \<longrightarrow> in_wait t i))"

lemma tab_invD:
  assumes "tab_inv t n ini"
  shows "z < NPROC \<Longrightarrow> pstate (t z) = ZOMBIE \<Longrightarrow> parent (t z) = Some p \<Longrightarrow> \<not> in_wait t p"
    and "i < NPROC \<Longrightarrow> pstate (t i) \<noteq> UNUSED \<Longrightarrow> 1 \<le> pid (t i) \<and> pid (t i) < n"
    and "i < NPROC \<Longrightarrow> j < NPROC \<Longrightarrow> pstate (t i) \<noteq> UNUSED \<Longrightarrow> pstate (t j) \<noteq> UNUSED \<Longrightarrow> pid (t i) = pid (t j) \<Longrightarrow> i = j"
    and "i < NPROC \<Longrightarrow> parent (t i) = Some p \<Longrightarrow> p < NPROC \<and> p \<noteq> i"
    and "ini = Some p \<Longrightarrow> p < NPROC \<and> settled (pstate (t p)) \<and> parent (t p) = None" and "1 \<le> n"
  using assms unfolding tab_inv_def by blast+

lemma tab_invI:
  assumes "\<And>z p. z < NPROC \<Longrightarrow> pstate (t z) = ZOMBIE \<Longrightarrow> parent (t z) = Some p \<Longrightarrow> \<not> in_wait t p"
    and "\<And>i. i < NPROC \<Longrightarrow> pstate (t i) \<noteq> UNUSED \<Longrightarrow> 1 \<le> pid (t i) \<and> pid (t i) < n"
    and "\<And>i j. i < NPROC \<Longrightarrow> j < NPROC \<Longrightarrow> pstate (t i) \<noteq> UNUSED \<Longrightarrow> pstate (t j) \<noteq> UNUSED \<Longrightarrow> pid (t i) = pid (t j) \<Longrightarrow> i = j"
    and "\<And>i p. i < NPROC \<Longrightarrow> parent (t i) = Some p \<Longrightarrow> p < NPROC \<and> p \<noteq> i"
    and "\<And>p. ini = Some p \<Longrightarrow> p < NPROC \<and> settled (pstate (t p)) \<and> parent (t p) = None" and "1 \<le> n"
  shows "tab_inv t n ini"
  unfolding tab_inv_def using assms by (intro conjI allI impI) blast+

lemma tab_keep:
  assumes inv: "tab_inv t n ini"
    and c: "\<And>i. pid (t' i) = pid (t i)" "\<And>i. parent (t' i) = parent (t i)"
      "\<And>i. pstate (t' i) \<noteq> UNUSED \<Longrightarrow> pstate (t i) \<noteq> UNUSED" "\<And>i. settled (pstate (t i)) \<Longrightarrow> settled (pstate (t' i))"
    and z: "\<And>z p. z < NPROC \<Longrightarrow> pstate (t' z) = ZOMBIE \<Longrightarrow> parent (t z) = Some p \<Longrightarrow> \<not> in_wait t' p"
  shows "tab_inv t' n ini"
proof (rule tab_invI)
  show "\<not> in_wait t' p" if "z < NPROC" "pstate (t' z) = ZOMBIE" "parent (t' z) = Some p" for z p
    using z [OF that(1,2)] that(3) c(2) by simp
  show "i = j" if "i < NPROC" "j < NPROC" "pstate (t' i) \<noteq> UNUSED" "pstate (t' j) \<noteq> UNUSED" "pid (t' i) = pid (t' j)" for i j
    using tab_invD(3) [OF inv that(1,2) c(3) [OF that(3)] c(3) [OF that(4)]] that(5) c(1) by simp
  show "1 \<le> pid (t' i) \<and> pid (t' i) < n" if "i < NPROC" "pstate (t' i) \<noteq> UNUSED" for i
    using tab_invD(2) [OF inv that(1) c(3) [OF that(2)]] c(1) by simp
  show "p < NPROC \<and> p \<noteq> i" if "i < NPROC" "parent (t' i) = Some p" for i p
    using tab_invD(4) [OF inv that(1)] that(2) c(2) by simp
  show "p < NPROC \<and> settled (pstate (t' p)) \<and> parent (t' p) = None" if "ini = Some p" for p
    using tab_invD(5) [OF inv that] c(2,4) by simp
qed (rule tab_invD(6) [OF inv])

lemma tab_calm:
  assumes inv: "tab_inv t n ini" and "calm t t'"
  shows "tab_inv t' n ini"
proof -
  have c: "pid (t' i) = pid (t i)" "parent (t' i) = parent (t i)" "pstate (t' i) \<noteq> UNUSED \<Longrightarrow> pstate (t i) \<noteq> UNUSED"
    "settled (pstate (t i)) \<Longrightarrow> settled (pstate (t' i))" "pstate (t' i) = ZOMBIE \<Longrightarrow> pstate (t i) = ZOMBIE"
    "in_wait t' i \<Longrightarrow> in_wait t i" for i
    using assms(2) unfolding calm_def by blast+
  show ?thesis
    by (rule tab_keep [OF inv c(1-4)]) (use tab_invD(1) [OF inv] c(5,6) in blast)+
qed

lemma tab_wait:
  assumes inv: "tab_inv t n ini" and none: "\<And>i. i < NPROC \<Longrightarrow> parent (t i) = Some cur \<Longrightarrow> pstate (t i) \<noteq> ZOMBIE"
    and live: "pstate (t cur) = RUNNING"
  shows "tab_inv (t(cur := (t cur)\<lparr>chan := ch, pstate := SLEEPING\<rparr>)) n ini"
    (is "tab_inv ?t n ini")
proof (rule tab_keep [OF inv])
  show "\<not> in_wait ?t p" if "z < NPROC" "pstate (?t z) = ZOMBIE" "parent (t z) = Some p" for z p
  proof -
    have zz: "pstate (t z) = ZOMBIE" using that(2) by (simp split: if_splits)
    then have "p \<noteq> cur" using none [OF that(1)] that(3) by blast
    then show ?thesis using tab_invD(1) [OF inv that(1) zz that(3)] by (simp add: in_wait_def)
  qed
qed (use live in \<open>auto simp: settled_def split: if_splits\<close>)

lemma tab_reap:
  assumes inv: "tab_inv t n ini" and "pstate (t k) = ZOMBIE"
  shows "tab_inv (reap_slot k t) n ini"
proof (rule tab_invI)
  have f: "pid (reap_slot k t i) = (if i = k then 0 else pid (t i))"
    "parent (reap_slot k t i) = (if i = k then None else parent (t i))"
    "pstate (reap_slot k t i) = (if i = k then UNUSED else pstate (t i))" for i
    by (simp_all add: reap_slot_def)
  have w: "in_wait (reap_slot k t) p \<Longrightarrow> in_wait t p" for p
    by (auto simp: in_wait_def reap_slot_def split: if_splits)
  show "\<not> in_wait (reap_slot k t) p" if "z < NPROC" "pstate (reap_slot k t z) = ZOMBIE" "parent (reap_slot k t z) = Some p" for z p
    using tab_invD(1) [OF inv that(1)] that(2,3) w by (auto simp: f split: if_splits)
  show "1 \<le> pid (reap_slot k t i) \<and> pid (reap_slot k t i) < n" if "i < NPROC" "pstate (reap_slot k t i) \<noteq> UNUSED" for i
    using tab_invD(2) [OF inv that(1)] that(2) by (auto simp: f split: if_splits)
  show "i = j" if "i < NPROC" "j < NPROC" "pstate (reap_slot k t i) \<noteq> UNUSED" "pstate (reap_slot k t j) \<noteq> UNUSED"
    "pid (reap_slot k t i) = pid (reap_slot k t j)" for i j
    using tab_invD(3) [OF inv that(1,2)] that(3-5) unfolding f by presburger
  show "p < NPROC \<and> p \<noteq> i" if "i < NPROC" "parent (reap_slot k t i) = Some p" for i p
    using tab_invD(4) [OF inv that(1)] that(2) by (auto simp: f split: if_splits)
  show "p < NPROC \<and> settled (pstate (reap_slot k t p)) \<and> parent (reap_slot k t p) = None" if "ini = Some p" for p
    using tab_invD(5) [OF inv that] assms(2) by (auto simp: f settled_def)
qed (rule tab_invD(6) [OF inv])

lemma tab_new:
  assumes inv: "tab_inv t n ini" and u: "pstate (t k) = UNUSED"
    and same: "\<And>i. parent (t' i) = parent (t i)" "\<And>i. chan (t' i) = chan (t i)"
    and new: "\<And>i. pid (t' i) = (if i = k then n else pid (t i))" "\<And>i. i \<noteq> k \<Longrightarrow> pstate (t' i) = pstate (t i)"
      "pstate (t' k) = EMBRYO \<or> pstate (t' k) = UNUSED"
  shows "tab_inv t' (n + 1) ini"
proof (rule tab_invI)
  have w: "in_wait t' p \<Longrightarrow> in_wait t p" for p
    using new(2,3) same(2) by (cases "p = k") (auto simp: in_wait_def)
  show "\<not> in_wait t' p" if "z < NPROC" "pstate (t' z) = ZOMBIE" "parent (t' z) = Some p" for z p
    using tab_invD(1) [OF inv that(1)] that(2,3) w new(2) [of z] new(3) same(1) by (cases "z = k") auto
  show "1 \<le> pid (t' i) \<and> pid (t' i) < n + 1" if "i < NPROC" "pstate (t' i) \<noteq> UNUSED" for i
    using tab_invD(2) [OF inv that(1)] that(2) tab_invD(6) [OF inv] new(1,2) by (cases "i = k") auto
  show "i = j" if "i < NPROC" "j < NPROC" "pstate (t' i) \<noteq> UNUSED" "pstate (t' j) \<noteq> UNUSED" "pid (t' i) = pid (t' j)" for i j
    using tab_invD(3) [OF inv that(1,2)] tab_invD(2) [OF inv that(1)] tab_invD(2) [OF inv that(2)] that(3-5) new(1,2)
    by (cases "i = k"; cases "j = k") simp_all
  show "p < NPROC \<and> p \<noteq> i" if "i < NPROC" "parent (t' i) = Some p" for i p
    using tab_invD(4) [OF inv that(1)] that(2) same(1) by simp
  show "p < NPROC \<and> settled (pstate (t' p)) \<and> parent (t' p) = None" if "ini = Some p" for p
    using tab_invD(5) [OF inv that] u new(2) [of p] same(1) by (cases "p = k") (auto simp: settled_def)
qed (use tab_invD(6) [OF inv] in simp)

lemma tab_child:
  assumes inv: "tab_inv t n ini" and k: "pstate (t k) = EMBRYO" "cur < NPROC" "cur \<noteq> k"
    and same: "\<And>j. pid (t' j) = pid (t j)" "\<And>j. pstate (t' j) = pstate (t j)" "\<And>j. chan (t' j) = chan (t j)"
    and par: "\<And>j. parent (t' j) = (if j = k then Some cur else parent (t j))"
  shows "tab_inv t' n ini"
proof (rule tab_invI)
  show "\<not> in_wait t' p" if "z < NPROC" "pstate (t' z) = ZOMBIE" "parent (t' z) = Some p" for z p
    using tab_invD(1) [OF inv that(1), of p] that(2,3) k(1) by (cases "z = k") (simp_all add: in_wait_def same par)
  show "i = j" if "i < NPROC" "j < NPROC" "pstate (t' i) \<noteq> UNUSED" "pstate (t' j) \<noteq> UNUSED" "pid (t' i) = pid (t' j)" for i j
    using tab_invD(3) [OF inv that(1,2)] that(3-5) unfolding same by blast
  show "p < NPROC \<and> p \<noteq> i" if "i < NPROC" "parent (t' i) = Some p" for i p
    using tab_invD(4) [OF inv that(1)] that(2) k by (auto simp: par split: if_splits)
  show "p < NPROC \<and> settled (pstate (t' p)) \<and> parent (t' p) = None" if "ini = Some p" for p
    using tab_invD(5) [OF inv that] k(1) by (auto simp: same par settled_def)
qed (use tab_invD(2,6) [OF inv] in \<open>simp_all only: same\<close>)

lemma tab_exit:
  assumes inv: "tab_inv t n ini" and cur: "cur < NPROC" "pstate (t cur) \<noteq> UNUSED" "ini \<noteq> Some cur"
  shows "tab_inv (exit_ptable cur ini t) n ini"
proof (rule tab_invI)
  let ?t = "exit_ptable cur ini t"
  note f = exit_ptable_fields [of cur ini t]
  have u: "pstate (?t i) = UNUSED \<longleftrightarrow> pstate (t i) = UNUSED" for i
    using cur(2) by (simp add: f)
  show "p < NPROC \<and> p \<noteq> i" if "i < NPROC" "parent (?t i) = Some p" for i p
    using tab_invD(4) [OF inv that(1)] tab_invD(5) [OF inv, of p] that(2) by (auto simp: f split: if_splits)
  then have p: "p < NPROC" if "z < NPROC" "parent (?t z) = Some p" for z p
    using that by blast
  show "\<not> in_wait ?t p" if z: "z < NPROC" "pstate (?t z) = ZOMBIE" "parent (?t z) = Some p" for z p
  proof
    assume w: "in_wait ?t p"
    then have wt: "in_wait t p" and par: "parent (t cur) \<noteq> Some p" "\<not> (zombie_child cur t NPROC \<and> ini = Some p)"
      using p [OF z(1,3)] by (auto simp: in_wait_def f split: if_splits)
    have s: "z = cur \<or> pstate (t z) = ZOMBIE" using z(2) by (auto simp: f split: if_splits)
    show False
    proof (cases "parent (t z) = Some cur")
      case True
      with z have ini: "ini = Some p" by (simp add: f)
      have "z \<noteq> cur" using tab_invD(4) [OF inv z(1) True] by simp
      with s True z(1) have "zombie_child cur t NPROC" by (auto simp: zombie_child_def)
      with ini par(2) show False by simp
    next
      case False
      with z have pz: "parent (t z) = Some p" by (simp add: f)
      then show False using s par(1) tab_invD(1) [OF inv z(1) _ pz] wt by auto
    qed
  qed
  show "p < NPROC \<and> settled (pstate (?t p)) \<and> parent (?t p) = None" if "ini = Some p" for p
    using tab_invD(5) [OF inv that] cur(3) that by (auto simp: exit_ptable_fields settled_def)
  show "1 \<le> pid (?t i) \<and> pid (?t i) < n" if "i < NPROC" "pstate (?t i) \<noteq> UNUSED" for i
    using tab_invD(2) [OF inv that(1)] that(2) unfolding u f(1) by blast
  show "i = j" if "i < NPROC" "j < NPROC" "pstate (?t i) \<noteq> UNUSED" "pstate (?t j) \<noteq> UNUSED" "pid (?t i) = pid (?t j)" for i j
    using tab_invD(3) [OF inv that(1,2)] that(3-5) unfolding u f(1) by blast
qed (rule tab_invD(6) [OF inv])

section \<open>What the operations change\<close>

text \<open>
  The outcome of an operation as far as the invariant is concerned: the table, the next id,
  whether the lock is held, and the same processors running the same processes.
\<close>

definition eff :: "proc_sys \<Rightarrow> ptab \<Rightarrow> int \<Rightarrow> bool \<Rightarrow> proc_sys \<Rightarrow> bool" where
  "eff s t n L k \<longleftrightarrow> ptable k = t \<and> nextpid k = n \<and> (locked (ptlock k) \<noteq> 0) = L \<and> cpu_same (hw s) (hw k)
     \<and> initproc k = initproc s"

abbreviation unlocked :: "proc_sys \<Rightarrow> bool" where "unlocked s \<equiv> locked (ptlock s) = 0"

lemma eff_acquire:
  assumes "acquire_ptable K s = Inr k"
  shows "unlocked s" and "eff s (ptable s) (nextpid s) True k"
  by (rule acquire_ptable_effect [OF assms]; simp add: eff_def)+

lemma eff_release:
  assumes "release_ptable K s = Inr k"
  shows "eff s (ptable s) (nextpid s) False k"
  by (rule release_ptable_effect [OF assms]) (simp add: eff_def)

lemma eff_trans: "eff s t n L k \<Longrightarrow> eff k t' n' L' k' \<Longrightarrow> eff s t' n' L' k'"
  by (auto simp: eff_def intro: cpu_same_trans)

lemma eff_sels: "eff s t n L k \<Longrightarrow> ptable k = t" "eff s t n L k \<Longrightarrow> nextpid k = n" "eff s t n L k \<Longrightarrow> initproc k = initproc s"
  "eff s t n L k \<Longrightarrow> cpu_same (hw s) (hw k)"
  by (simp_all add: eff_def)

lemma eff_table: "eff s t n L k \<Longrightarrow> eff s (f t) n L (on_ptable f k)"
  by (simp add: eff_def on_ptable_def)

lemma eff_upd: "eff s t n L k \<Longrightarrow> eff s (t(i := f (t i))) n L (upd_proc i f k)"
  by (simp add: eff_def upd_proc_def)

lemma eff_sched_enter:
  assumes "sched_enter K s = Inr (e, k)" and "runs_on K c (hw s)"
  shows "eff s (ptable s) (nextpid s) (\<not> unlocked s) k"
  by (rule sched_enter_effect [OF assms]) (simp add: eff_def)

lemma eff_curproc:
  assumes "curproc K s = Inr (p, k)" and "runs_on K c (hw s)"
  shows "eff s (ptable s) (nextpid s) (\<not> unlocked s) k" and "cproc (cpus (hw s) ! c) = Some p"
  by (rule curproc_effect [OF assms]; simp add: eff_def)+

lemma eff_runs: "eff s t n L k \<Longrightarrow> runs_on K c (hw s) \<Longrightarrow> runs_on K c (hw k)"
  by (auto simp: eff_def dest: runs_on_same)

lemma eff_cproc: "eff s t n L k \<Longrightarrow> runs_on K c (hw s) \<Longrightarrow> cproc (cpus (hw k) ! c) = cproc (cpus (hw s) ! c)"
  by (auto simp: eff_def runs_on_def dest: cproc_same)

lemma eff_top:
  assumes "scheduler_top K s = Inr k"
  shows "unlocked s" and "eff s (ptable s) (nextpid s) True k"
  using eff_acquire [OF assms [unfolded scheduler_top_def]] by (auto simp: eff_def cpu_same_def)

lemma eff_yield_enter:
  assumes "yield_enter K s = Inr (e, k)" and r: "runs_on K c (hw s)" and p: "cproc (cpus (hw s) ! c) = Some p"
  shows "unlocked s" and "eff s ((ptable s)(p := (ptable s p)\<lparr>pstate := RUNNABLE\<rparr>)) (nextpid s) True k"
proof -
  obtain s1 q s2 where s: "acquire_ptable K s = Inr s1" "curproc K s1 = Inr (q, s2)"
      "sched_enter K (upd_proc q (\<lambda>q. q\<lparr>pstate := RUNNABLE\<rparr>) s2) = Inr (e, k)"
    using assms(1) by (auto simp: yield_enter_def)
  note a = eff_acquire [OF s(1)]
  show "unlocked s" by (rule a(1))
  note c = eff_curproc [OF s(2) eff_runs [OF a(2) r]]
  have q: "q = p" using c(2) eff_cproc [OF a(2) r] p by simp
  have 2: "eff s (ptable s) (nextpid s) True s2"
    using c(1) a(2) by (auto simp: eff_def intro: cpu_same_trans)
  note u = eff_upd [OF 2, of q "\<lambda>q. q\<lparr>pstate := RUNNABLE\<rparr>"]
  from eff_sched_enter [OF s(3) eff_runs [OF u r]] u
  show "eff s ((ptable s)(p := (ptable s p)\<lparr>pstate := RUNNABLE\<rparr>)) (nextpid s) True k"
    by (auto simp: eff_def q intro: cpu_same_trans)
qed

lemma eff_yield_leave:
  assumes "yield_leave K e s = Inr k"
  shows "eff s (ptable s) (nextpid s) False k"
proof -
  obtain s1 where s: "sched_leave K e s = Inr s1" "release_ptable K s1 = Inr k"
    using assms by (auto simp: yield_leave_def)
  show ?thesis
    by (rule sched_leave_effect [OF s(1)]) (use eff_release [OF s(2)] in \<open>auto simp: eff_def intro: cpu_same_trans\<close>)
qed

lemma eff_sleep_wake:
  assumes "sleep_wake K e i s = Inr k"
  shows "eff s ((ptable s)(i := (ptable s i)\<lparr>chan := None\<rparr>)) (nextpid s) (\<not> unlocked s) k"
proof -
  obtain s1 where s: "sched_leave K e s = Inr s1" "k = upd_proc i (\<lambda>q. q\<lparr>chan := None\<rparr>) s1"
    using assms by (auto simp: sleep_wake_def)
  show ?thesis
    by (rule sched_leave_effect [OF s(1)]) (simp add: s(2) eff_def upd_proc_def)
qed

lemma eff_sleep_mark:
  assumes "sched_enter K (upd_proc p (\<lambda>q. q\<lparr>chan := Some ch, pstate := SLEEPING\<rparr>) s1) = Inr (e, k)"
    and "runs_on K c (hw s)" and "eff s (ptable s) (nextpid s) L s1"
  shows "eff s ((ptable s)(p := (ptable s p)\<lparr>chan := Some ch, pstate := SLEEPING\<rparr>)) (nextpid s) L k"
proof -
  note u = eff_upd [OF assms(3), of p "\<lambda>q. q\<lparr>chan := Some ch, pstate := SLEEPING\<rparr>"]
  from eff_sched_enter [OF assms(1) eff_runs [OF u assms(2)]] u show ?thesis
    by (auto simp: eff_def intro: cpu_same_trans)
qed

lemma eff_sleep_enter:
  assumes "sleep_enter K ch (Lock l) s = Inr (e, l', k)" and r: "runs_on K c (hw s)" and p: "cproc (cpus (hw s) ! c) = Some p"
  shows "unlocked s" and "eff s ((ptable s)(p := (ptable s p)\<lparr>chan := Some ch, pstate := SLEEPING\<rparr>)) (nextpid s) True k"
proof -
  obtain q s1 s2 sl m where s: "myproc K s = Inr (Some q, s1)" "acquire_ptable K s1 = Inr s2"
      "release (lapicid K) l (hw s2) = Inr (sl, m)"
      "sched_enter K (upd_proc q (\<lambda>q. q\<lparr>chan := Some ch, pstate := SLEEPING\<rparr>) (s2\<lparr>hw := m\<rparr>)) = Inr (e, k)"
    using assms(1) by (auto simp: sleep_enter_def split: option.splits)
  obtain m1 where m1: "s1 = s\<lparr>hw := m1\<rparr>" "cpu_same (hw s) m1" "Some q = cproc (cpus (hw s) ! c)"
    by (rule myproc_effect [OF s(1) r])
  note a = eff_acquire [OF s(2)]
  show "unlocked s" using a(1) m1(1) by simp
  have 2: "eff s (ptable s) (nextpid s) True (s2\<lparr>hw := m\<rparr>)"
    using a(2) m1 release_effect [OF s(3)] by (auto simp: eff_def intro: cpu_same_trans)
  show "eff s ((ptable s)(p := (ptable s p)\<lparr>chan := Some ch, pstate := SLEEPING\<rparr>)) (nextpid s) True k"
    using eff_sleep_mark [OF s(4) r 2] m1(3) p by simp
qed

lemma eff_exit_switch:
  assumes "exit_switch K p s = Inr k" and r: "runs_on K c (hw s)"
  shows "unlocked s" and "eff s (exit_ptable p (initproc s) (ptable s)) (nextpid s) True k"
proof -
  obtain s1 e where s: "acquire_ptable K s = Inr s1" "sched_enter K (on_ptable (exit_ptable p (initproc s1)) s1) = Inr (e, k)"
    using assms(1) by (auto simp: exit_switch_def)
  note a = eff_acquire [OF s(1)]
  show "unlocked s" by (rule a(1))
  note u = eff_table [OF a(2), of "exit_ptable p (initproc s1)"]
  from eff_sched_enter [OF s(2) eff_runs [OF u r]] u
  show "eff s (exit_ptable p (initproc s) (ptable s)) (nextpid s) True k"
    by (auto simp: eff_def eff_sels(3) [OF a(2)] intro: cpu_same_trans)
qed

text \<open>Operations that take the lock, change the table and release it.\<close>

lemma eff_locked_update:
  assumes "acquire_ptable K s = Inr s1" and "release_ptable K (on_ptable f s1) = Inr k"
  shows "unlocked s" and "eff s (f (ptable s)) (nextpid s) False k"
proof -
  note a = eff_acquire [OF assms(1)]
  show "unlocked s" by (rule a(1))
  from eff_release [OF assms(2)] eff_table [OF a(2), of f]
  show "eff s (f (ptable s)) (nextpid s) False k"
    by (auto simp: eff_def intro: cpu_same_trans)
qed

lemma on_ptable_id: "on_ptable id s = s"
  by (simp add: on_ptable_def)

lemma upd_on_ptable: "upd_proc i f = on_ptable (\<lambda>t. t(i := f (t i)))"
  by (rule ext) (simp add: upd_proc_def on_ptable_def)

lemma eff_wakeup:
  assumes "wakeup K ch s = Inr k"
  shows "unlocked s" and "eff s (wakeup1 ch (ptable s)) (nextpid s) False k"
  using assms eff_locked_update [of K s _ "wakeup1 ch" k] by (auto simp: wakeup_def)

lemma eff_set_runnable:
  assumes "set_runnable K i s = Inr k"
  shows "unlocked s" and "eff s ((ptable s)(i := (ptable s i)\<lparr>pstate := RUNNABLE\<rparr>)) (nextpid s) False k"
  using assms eff_locked_update [of K s _ "\<lambda>t. t(i := (t i)\<lparr>pstate := RUNNABLE\<rparr>)" k]
  by (auto simp: set_runnable_def upd_on_ptable)

lemma eff_kill:
  assumes "kill K n s = Inr (r, k)"
  obtains "unlocked s" and "eff s (ptable s) (nextpid s) False k"
  | j where "unlocked s" and "j < NPROC" and "pid (ptable s j) = n" and "eff s (kill_slot j (ptable s)) (nextpid s) False k"
proof -
  obtain s1 where s1: "acquire_ptable K s = Inr s1" using assms by (auto simp: kill_def)
  note t = eff_sels(1) [OF eff_acquire(2) [OF s1]]
  show thesis
  proof (cases "find (\<lambda>i. pid (ptable s1 i) = n) [0..<NPROC]")
    case None
    with assms s1 have "release_ptable K (on_ptable id s1) = Inr k" by (auto simp: kill_def on_ptable_id)
    from eff_locked_update [OF s1 this] that(1) show thesis by simp
  next
    case (Some j)
    with assms s1 have "release_ptable K (on_ptable (kill_slot j) s1) = Inr k" by (auto simp: kill_def)
    moreover have "j < NPROC" "pid (ptable s j) = n" using Some by (auto simp: find_Some_iff t)
    ultimately show thesis using eff_locked_update [OF s1] that(2) by blast
  qed
qed

lemma eff_wait_pass:
  assumes "wait_pass K p s = Inr (w, k)" and r: "runs_on K c (hw s)" and p: "cproc (cpus (hw s) ! c) = Some p"
    and L: "\<not> unlocked s"
  obtains z where "z < NPROC" and "parent (ptable s z) = Some p" and "pstate (ptable s z) = ZOMBIE"
      and "w = Reaped (pid (ptable s z))" and "eff s (reap_slot z (ptable s)) (nextpid s) False k"
  | "w = No_child" and "eff s (ptable s) (nextpid s) False k"
  | e where "w = Blocked e" and "\<And>i. i < NPROC \<Longrightarrow> parent (ptable s i) = Some p \<Longrightarrow> pstate (ptable s i) \<noteq> ZOMBIE"
      and "eff s ((ptable s)(p := (ptable s p)\<lparr>chan := Some (On_proc p), pstate := SLEEPING\<rparr>)) (nextpid s) True k"
proof (cases "find (\<lambda>i. parent (ptable s i) = Some p \<and> pstate (ptable s i) = ZOMBIE) [0..<NPROC]")
  case (Some z)
  then have z: "z < NPROC" "parent (ptable s z) = Some p" "pstate (ptable s z) = ZOMBIE"
    by (auto simp: find_Some_iff)
  obtain k2 where k: "release_ptable K (on_ptable (reap_slot z) (s\<lparr>km := k2\<rparr>)) = Inr k" "w = Reaped (pid (ptable s z))"
    using assms(1) Some by (auto simp: wait_pass_def Let_def)
  have "eff s (reap_slot z (ptable s)) (nextpid s) False k"
    using eff_release [OF k(1)] by (simp add: eff_def on_ptable_def)
  with z k(2) that(1) show thesis by blast
next
  case None
  then have nz: "\<And>i. i < NPROC \<Longrightarrow> parent (ptable s i) = Some p \<Longrightarrow> pstate (ptable s i) \<noteq> ZOMBIE"
    by (auto simp: find_None_iff)
  show thesis
  proof (cases "find (\<lambda>i. parent (ptable s i) = Some p) [0..<NPROC] = None \<or> killed (ptable s p)")
    case True
    then have "release_ptable K s = Inr k" "w = No_child"
      using assms(1) None by (auto simp: wait_pass_def split: if_splits)
    with eff_release [of K s k] that(2) show thesis by blast
  next
    case False
    then obtain e l where s: "sleep_enter K (On_proc p) Table_lock s = Inr (e, l, k)" "w = Blocked e"
      using assms(1) None by (auto simp: wait_pass_def split: if_splits)
    then obtain q s1 where q: "myproc K s = Inr (Some q, s1)"
        "sched_enter K (upd_proc q (\<lambda>x. x\<lparr>chan := Some (On_proc p), pstate := SLEEPING\<rparr>) s1) = Inr (e, k)"
      by (auto simp: sleep_enter_def split: option.splits)
    obtain m1 where m1: "s1 = s\<lparr>hw := m1\<rparr>" "cpu_same (hw s) m1" "Some q = cproc (cpus (hw s) ! c)"
      by (rule myproc_effect [OF q(1) r])
    have "eff s (ptable s) (nextpid s) True s1" using m1 L by (simp add: eff_def)
    from eff_sleep_mark [OF q(2) r this] m1(3) p
    have "eff s ((ptable s)(p := (ptable s p)\<lparr>chan := Some (On_proc p), pstate := SLEEPING\<rparr>)) (nextpid s) True k" by simp
    with s(2) nz that(3) show thesis by blast
  qed
qed

text \<open>A fresh slot, with or without a kernel stack.\<close>

definition fresh_slot :: "nat \<Rightarrow> int \<Rightarrow> procstate \<Rightarrow> ptab \<Rightarrow> ptab \<Rightarrow> bool" where
  "fresh_slot j n v t t' \<longleftrightarrow> (\<forall>i. parent (t' i) = parent (t i) \<and> chan (t' i) = chan (t i)
     \<and> pid (t' i) = (if i = j then n else pid (t i)) \<and> pstate (t' i) = (if i = j then v else pstate (t i)))"

lemma eff_alloc_stack:
  assumes "alloc_stack K j s = (r, k)" and "pstate (ptable s j) = EMBRYO" and "pid (ptable s j) = n"
    and "\<And>i. i \<noteq> j \<Longrightarrow> t i = ptable s i" and "parent (ptable s j) = parent (t j)" "chan (ptable s j) = chan (t j)"
  obtains "r = None" and "fresh_slot j n UNUSED t (ptable k)" and "eff s (ptable k) (nextpid s) (\<not> unlocked s) k"
  | "r = Some j" and "fresh_slot j n EMBRYO t (ptable k)" and "eff s (ptable k) (nextpid s) (\<not> unlocked s) k"
proof -
  obtain a m where a: "kalloc (km s) = (a, m)" by fastforce
  show thesis
    by (cases "a = 0")
      (use assms that in \<open>auto simp: alloc_stack_def a Let_def eff_def upd_proc_def set_ram_def fresh_slot_def\<close>)
qed

lemma eff_allocproc:
  assumes "allocproc K s = Inr (r, k)"
  obtains "unlocked s" and "r = None" and "eff s (ptable s) (nextpid s) False k"
  | j where "unlocked s" and "r = None" and "j < NPROC" and "pstate (ptable s j) = UNUSED"
      and "fresh_slot j (nextpid s) UNUSED (ptable s) (ptable k)" and "eff s (ptable k) (nextpid s + 1) False k"
  | j where "unlocked s" and "r = Some j" and "j < NPROC" and "pstate (ptable s j) = UNUSED"
      and "fresh_slot j (nextpid s) EMBRYO (ptable s) (ptable k)" and "eff s (ptable k) (nextpid s + 1) False k"
proof -
  obtain s1 where s1: "acquire_ptable K s = Inr s1" using assms by (auto simp: allocproc_def)
  note a = eff_acquire [OF s1]
  have t: "ptable s1 = ptable s" "nextpid s1 = nextpid s" using a(2) by (simp_all add: eff_def)
  show thesis
  proof (cases "find (\<lambda>i. pstate (ptable s i) = UNUSED) [0..<NPROC]")
    case None
    with assms s1 t have k: "release_ptable K (on_ptable id s1) = Inr k" "r = None"
      by (auto simp: allocproc_def alloc_slot_def on_ptable_id)
    from eff_locked_update [OF s1 k(1)] k(2) that(1) show thesis by simp
  next
    case (Some j)
    then have j: "j < NPROC" "pstate (ptable s j) = UNUSED" by (auto simp: find_Some_iff)
    obtain s3 where s3: "release_ptable K ((upd_proc j (\<lambda>p. p\<lparr>pstate := EMBRYO, pid := nextpid s1\<rparr>) s1)
        \<lparr>nextpid := nextpid s1 + 1\<rparr>) = Inr s3" "alloc_stack K j s3 = (r, k)"
      using assms s1 t Some by (auto simp: allocproc_def alloc_slot_def)
    have e: "eff s ((ptable s)(j := (ptable s j)\<lparr>pstate := EMBRYO, pid := nextpid s\<rparr>)) (nextpid s + 1) False s3"
      using eff_release [OF s3(1)] a(2) by (auto simp: eff_def upd_proc_def intro: cpu_same_trans)
    then have p3: "pstate (ptable s3 j) = EMBRYO" "pid (ptable s3 j) = nextpid s" "i \<noteq> j \<Longrightarrow> ptable s i = ptable s3 i"
      "parent (ptable s3 j) = parent (ptable s j)" "chan (ptable s3 j) = chan (ptable s j)" "unlocked s3"
      "nextpid s3 = nextpid s + 1" for i
      by (simp_all add: eff_def)
    show thesis
      by (rule eff_alloc_stack [OF s3(2) p3(1-5)])
        (use e p3 eff_trans [OF e] j a(1) that(2,3) in auto)
  qed
qed

lemma eff_fork_copy:
  assumes "fork_copy K i j s = Inr (ok, k)"
  shows "eff s (ptable k) (nextpid s) (\<not> unlocked s) k"
    and "pid (ptable k l) = pid (ptable s l) \<and> parent (ptable k l) = parent (ptable s l) \<and> chan (ptable k l) = chan (ptable s l)"
    and "pstate (ptable k l) = (if l = j \<and> \<not> ok then UNUSED else pstate (ptable s l))"
  using assms by (auto simp: fork_copy_def Let_def eff_def upd_proc_def split: if_splits)

lemma dup_fd_effect:
  assumes "dup_fd i j n s = Inr k"
  shows "eff s (ptable k) (nextpid s) (\<not> unlocked s) k"
    and "pid (ptable k l) = pid (ptable s l) \<and> parent (ptable k l) = parent (ptable s l) \<and> chan (ptable k l) = chan (ptable s l)
      \<and> pstate (ptable k l) = pstate (ptable s l)"
  using assms by (auto simp: dup_fd_def filedup_def set_file_def eff_def upd_proc_def split: option.splits if_splits)

lemma dup_fds_effect:
  assumes "for_each (dup_fd i j) ns s = Inr k"
  shows "eff s (ptable k) (nextpid s) (\<not> unlocked s) k \<and>
    (\<forall>l. pid (ptable k l) = pid (ptable s l) \<and> parent (ptable k l) = parent (ptable s l) \<and> chan (ptable k l) = chan (ptable s l)
      \<and> pstate (ptable k l) = pstate (ptable s l))"
  using assms
proof (induction ns arbitrary: s)
  case Nil
  then show ?case by (simp add: eff_def)
next
  case (Cons n ns)
  then obtain s1 where s1: "dup_fd i j n s = Inr s1" "for_each (dup_fd i j) ns s1 = Inr k" by auto
  note d = dup_fd_effect [OF s1(1)]
  from Cons.IH [OF s1(2)] d show ?case by (auto simp: eff_def intro: cpu_same_trans)
qed

lemma eff_fork_child:
  assumes "fork_child i j s = Inr k"
  shows "eff s (ptable k) (nextpid s) (\<not> unlocked s) k"
    and "pid (ptable k l) = pid (ptable s l)" and "chan (ptable k l) = chan (ptable s l)"
    and "pstate (ptable k l) = pstate (ptable s l)" and "parent (ptable k l) = (if l = j then Some i else parent (ptable s l))"
proof -
  define s0 where "s0 = upd_proc j (\<lambda>p. p\<lparr>psz := psz (ptable s i), parent := Some i\<rparr>) s"
  define sA where "sA = set_ram (\<lambda>m. poke (tf (ptable s0 j)) (peek m (tf (ptable s0 i)) (unat TF_SIZE)) m) s0"
  define s1 where "s1 = set_ram (store32 (tf (ptable sA j) + TF_eax) 0) sA"
  have fc: "fork_child i j s = rbind (for_each (dup_fd i j) [0..<NOFILE] s1) (\<lambda>s.
         case cwd (ptable s i) of None \<Rightarrow> Inl Fault
         | Some ip \<Rightarrow>
             let (ip, s) = idup ip s;
                 s = upd_proc j (\<lambda>p. p\<lparr>cwd := Some ip\<rparr>) s
             in Inr (upd_proc j (\<lambda>p. p\<lparr>pname := set_name (pname (ptable s i)) (pname p)\<rparr>) s))"
    unfolding fork_child_def Let_def s1_def sA_def s0_def by (rule refl)
  obtain s2 ip where s2: "for_each (dup_fd i j) [0..<NOFILE] s1 = Inr s2" "cwd (ptable s2 i) = Some ip"
    using assms unfolding fc by (auto split: option.splits)
  define s3 where "s3 = upd_proc j (\<lambda>p. p\<lparr>cwd := Some ip\<rparr>) (set_inode ip ((inodes s2 ip)\<lparr>iref := iref (inodes s2 ip) + 1\<rparr>) s2)"
  have k: "k = upd_proc j (\<lambda>p. p\<lparr>pname := set_name (pname (ptable s3 i)) (pname p)\<rparr>) s3"
    using assms s2 unfolding fc by (simp add: Let_def s3_def idup_def)
  note d = dup_fds_effect [OF s2(1)]
  have 1: "ptable s1 l = (if l = j then (ptable s j)\<lparr>psz := psz (ptable s i), parent := Some i\<rparr> else ptable s l)" for l
    by (simp add: s1_def sA_def s0_def set_ram_def upd_proc_def)
  have h: "hw s1 = hw s" "nextpid s1 = nextpid s" "ptlock s1 = ptlock s" "initproc s1 = initproc s"
    by (simp_all add: s1_def sA_def s0_def set_ram_def upd_proc_def)
  show "eff s (ptable k) (nextpid s) (\<not> unlocked s) k" "pid (ptable k l) = pid (ptable s l)"
    "chan (ptable k l) = chan (ptable s l)" "pstate (ptable k l) = pstate (ptable s l)"
    "parent (ptable k l) = (if l = j then Some i else parent (ptable s l))"
    using d h by (simp_all add: k s3_def 1 eff_def upd_proc_def set_inode_def)
qed

section \<open>Every step keeps the invariant\<close>

lemma hw_inv_go:
  assumes "hw_inv E C m" and "cpu_same m m'" and "c < length (cpus m)" and "on_cpu x = on_cpu (C c)"
  shows "hw_inv E (C(c := x)) m'"
proof -
  have len: "length (cpus m') = length (cpus m)" using assms(2) unfolding cpu_same_def by (metis length_map)
  have a: "apicid (cpus m' ! d) = apicid (cpus m ! d)" if "d < length (cpus m)" for d
    using assms(2) len that unfolding cpu_same_def by (metis nth_map)
  show ?thesis
    using assms len a cproc_same [OF assms(2)] unfolding hw_inv_def wf_cpus_def cpu_same_def by simp
qed

lemma hw_inv_set:
  assumes "hw_inv E C m" and "c < length (cpus m)" and "cpu_same (cpu_upd c (\<lambda>u. u\<lparr>cproc := on_cpu x\<rparr>) m) m'"
  shows "hw_inv E (C(c := x)) m'"
proof -
  let ?m = "cpu_upd c (\<lambda>u. u\<lparr>cproc := on_cpu x\<rparr>) m"
  have "wf_cpus ?m" using assms(1) by (subst wf_cpu_upd) (simp_all add: hw_inv_def)
  moreover have "lapicid (E d) = apicid (cpus ?m ! d)" "cproc (cpus ?m ! d) = on_cpu ((C(c := x)) d)"
    if "d < length (cpus m)" for d
    using assms(1,2) that by (cases "d = c"; simp add: hw_inv_def)+
  moreover have "(C(c := x)) d = Top" if "length (cpus m) \<le> d" for d
    using assms(1,2) that by (simp add: hw_inv_def)
  ultimately have h: "hw_inv E (C(c := x)) ?m" by (simp add: hw_inv_def del: fun_upd_apply)
  have "hw_inv E ((C(c := x))(c := x)) m'"
    by (rule hw_inv_go [OF h assms(3)]) (use assms(2) in simp_all)
  then show ?thesis by simp
qed

lemma sched_inv_runs:
  assumes "sched_inv E S" and "c < ncpu S"
  shows "runs_on (E c) c (hw (ks S))" and "cproc (cpus (hw (ks S)) ! c) = on_cpu (ctls S c)"
  using assms by (auto simp: sched_inv_def hw_inv_def runs_on_def)

lemma sched_inv_parts:
  assumes "sched_inv E S"
  shows "ctl_inv (ctls S) (\<not> unlocked (ks S)) (\<lambda>i. state_of S i)"
    and "tab_inv (tab S) (nextpid (ks S)) (initproc (ks S))"
  using assms by (simp_all add: sched_inv_def)

lemma inv_go:
  assumes "sched_inv E S" and "c < ncpu S" and "eff (ks S) t n L k" and "on_cpu x = on_cpu (ctls S c)"
    and "ctl_inv ((ctls S)(c := x)) L (\<lambda>i. pstate (t i))" and "tab_inv t n (initproc (ks S))"
  shows "sched_inv E (go c x k S)"
  using assms hw_inv_go [of E "ctls S" "hw (ks S)" "hw k" c x]
  by (auto simp: sched_inv_def go_def eff_def)

lemma sched_inv_save [simp]: "sched_inv E (save i r S) = sched_inv E S"
  by (simp add: sched_inv_def save_def)

lemma inv_idle:
  assumes "sched_inv E S" and "c < ncpu S" and "eff (ks S) (tab S) (nextpid (ks S)) L k"
    and "on_cpu (ctls S c) = None" and "on_cpu x = None"
    and "in_sched x \<Longrightarrow> L \<and> (in_sched (ctls S c) \<or> unlocked (ks S))" and "L \<or> in_sched (ctls S c) \<or> unlocked (ks S)"
  shows "sched_inv E (go c x k S)"
  using assms by (intro inv_go [OF assms(1-3)] ctl_idle [OF sched_inv_parts(1) [OF assms(1)]] sched_inv_parts(2)) auto

lemma inv_stay:
  assumes inv: "sched_inv E S" and c: "c < ncpu S" and e: "eff (ks S) t n L k"
    and x: "on_cpu (ctls S c) = Some i" "on_cpu x = Some i" "\<not> switching (ctls S c)" "\<not> switching x"
    "embryo x = embryo (ctls S c) \<or> embryo x = None" "\<not> in_sched x"
    "if in_sched (ctls S c) then \<not> L else L = (\<not> unlocked (ks S))"
    and q: "quiet (\<lambda>i. state_of S i) (\<lambda>i. pstate (t i))" and t: "tab_inv t n (initproc (ks S))"
  shows "sched_inv E (go c x k S)"
  using x by (intro inv_go [OF inv c e _ _ t] ctl_stay [OF sched_inv_parts(1) [OF inv] _ _ _ _ _ _ _ q]) auto

lemma inv_switch:
  assumes inv: "sched_inv E S" and c: "c < ncpu S" and e: "eff (ks S) t n True k"
    and x: "on_cpu (ctls S c) = Some i" "\<not> switching (ctls S c)" "in_sched (ctls S c) \<or> unlocked (ks S)"
    and t: "pstate (t i) \<noteq> RUNNING"
      "\<And>j. j \<noteq> i \<Longrightarrow> pstate (t j) = state_of S j \<or> (state_of S j = SLEEPING \<and> pstate (t j) = RUNNABLE)"
      "tab_inv t n (initproc (ks S))"
  shows "sched_inv E (go c (Switching i) k S)"
  by (rule inv_go [OF inv c e _ _ t(3)])
    (use x t(1,2) in \<open>auto intro: ctl_switch [OF sched_inv_parts(1) [OF inv]]\<close>)

lemma running:
  assumes "sched_inv E S" and "on_cpu (ctls S c) = Some i" and "\<not> switching (ctls S c)"
  shows "state_of S i = RUNNING" and "i < NPROC"
  using ctl_invD(3) [OF sched_inv_parts(1) [OF assms(1)] assms(2)] assms(3) by auto

lemma calm_run: "pstate (t i) = RUNNING \<Longrightarrow> v = RUNNABLE \<or> v = SLEEPING \<Longrightarrow> ch \<noteq> Some (On_proc i) \<or> v \<noteq> SLEEPING \<Longrightarrow>
    calm t (t(i := (t i)\<lparr>chan := ch, pstate := v\<rparr>))"
  by (auto simp: calm_def in_wait_def settled_def)

lemma calm_wakeup1: "calm t (wakeup1 ch t)"
  by (auto simp: calm_def in_wait_def settled_def wakeup1_fields)

lemma quiet_wakeup1: "quiet (\<lambda>i. pstate (t i)) (\<lambda>i. pstate (wakeup1 ch t i))"
  by (auto simp: quiet_def wakeup1_fields)

lemma calm_kill: "calm t (kill_slot i t)"
  by (auto simp: calm_def in_wait_def settled_def kill_slot_def)

lemma quiet_kill: "quiet (\<lambda>i. pstate (t i)) (\<lambda>j. pstate (kill_slot i t j))"
  by (auto simp: quiet_def kill_slot_def)

lemma inv_waited:
  assumes inv: "sched_inv E S" and c: "c < ncpu S" and x: "on_cpu (ctls S c) = Some i" "\<not> switching (ctls S c)" "embryo (ctls S c) = None"
    and w: "wait_pass (E c) i s1 = Inr (w, k)" and s1: "eff (ks S) t (nextpid (ks S)) True s1"
    and t: "\<And>j. pstate (t j) = state_of S j" "tab_inv t (nextpid (ks S)) (initproc (ks S))"
    and l: "in_sched (ctls S c) \<or> unlocked (ks S)"
  shows "sched_inv E (waited c i w k S)"
proof -
  note rn = sched_inv_runs [OF inv c]
  have r: "runs_on (E c) c (hw s1)" "cproc (cpus (hw s1) ! c) = Some i" "\<not> unlocked s1"
    using eff_runs [OF s1 rn(1)] eff_cproc [OF s1 rn(1)] rn(2) x(1) s1 by (auto simp: eff_def)
  have run: "pstate (t i) = RUNNING" using running(1) [OF inv x(1,2)] t(1) by simp
  have s: "ptable s1 = t" "nextpid s1 = nextpid (ks S)" using s1 by (simp_all add: eff_def)
  show ?thesis
  proof (rule eff_wait_pass [OF w r])
    fix z assume z: "pstate (ptable s1 z) = ZOMBIE" "w = Reaped (pid (ptable s1 z))"
      "eff s1 (reap_slot z (ptable s1)) (nextpid s1) False k"
    have e: "eff (ks S) (reap_slot z t) (nextpid (ks S)) False k" using eff_trans [OF s1 z(3)] s by simp
    have "quiet (\<lambda>j. state_of S j) (\<lambda>j. pstate (reap_slot z t j))"
      using z(1) s t(1) by (auto simp: quiet_def reap_slot_def)
    moreover have "tab_inv (reap_slot z t) (nextpid (ks S)) (initproc (ks S))"
      using tab_reap [OF t(2)] z(1) s by simp
    ultimately have "sched_inv E (go c (Free i) k S)"
      using x l by (intro inv_stay [OF inv c e]) auto
    with z(2) show ?thesis by (simp add: waited_def)
  next
    assume n: "w = No_child" "eff s1 (ptable s1) (nextpid s1) False k"
    have e: "eff (ks S) t (nextpid (ks S)) False k" using eff_trans [OF s1 n(2)] s by simp
    have "quiet (\<lambda>j. state_of S j) (\<lambda>j. pstate (t j))" using t(1) by simp
    then have "sched_inv E (go c (Free i) k S)"
      using x l t(2) by (intro inv_stay [OF inv c e]) auto
    with n(1) show ?thesis by (simp add: waited_def)
  next
    fix e' assume b: "w = Blocked e'"
      "\<And>j. j < NPROC \<Longrightarrow> parent (ptable s1 j) = Some i \<Longrightarrow> pstate (ptable s1 j) \<noteq> ZOMBIE"
      "eff s1 ((ptable s1)(i := (ptable s1 i)\<lparr>chan := Some (On_proc i), pstate := SLEEPING\<rparr>)) (nextpid s1) True k"
    have e: "eff (ks S) (t(i := (t i)\<lparr>chan := Some (On_proc i), pstate := SLEEPING\<rparr>)) (nextpid (ks S)) True k"
      using eff_trans [OF s1 b(3)] s by simp
    have "sched_inv E (go c (Switching i) k S)"
      by (rule inv_switch [OF inv c e x(1,2) l]) (use tab_wait [OF t(2) _ run] b(2) s t(1) in auto)
    with b(1) show ?thesis by (simp add: waited_def)
  qed
qed

lemma inv_dispatch:
  assumes inv: "sched_inv E S" and c: "c < ncpu S" "ctls S c = Loop i" "i < NPROC"
    and s: "scheduler_slot (E c) c i (ks S) = Inr (True, k)"
  shows "sched_inv E (go c (Locked i) k S)"
proof -
  let ?s = "(ks S)\<lparr>hw := cpu_upd c (\<lambda>u. u\<lparr>cproc := Some i\<rparr>) (hw (ks S))\<rparr>"
  have ru: "state_of S i = RUNNABLE" using s by (auto simp: scheduler_slot_def split: if_splits)
  with s obtain k1 where k1: "switchuvm (E c) (Some i) ?s = Inr k1"
      and k: "k = (upd_proc i (\<lambda>p. p\<lparr>pstate := RUNNING\<rparr>) k1)\<lparr>curpid := pid (ptable k1 i)\<rparr>"
    by (auto simp: scheduler_slot_def)
  obtain m where m: "k1 = ?s\<lparr>hw := m\<rparr>" "cpu_same (hw ?s) m" by (rule switchuvm_effect [OF k1])
  have h: "hw_inv E ((ctls S)(c := Locked i)) m"
    by (rule hw_inv_set) (use inv c m(2) in \<open>simp_all add: sched_inv_def\<close>)
  have t: "ptable k = (tab S)(i := (tab S i)\<lparr>pstate := RUNNING\<rparr>)" "hw k = m" "nextpid k = nextpid (ks S)"
      "ptlock k = ptlock (ks S)" "initproc k = initproc (ks S)"
    by (simp_all add: k m(1) upd_proc_def)
  have st: "(\<lambda>j. pstate (ptable k j)) = (\<lambda>j. state_of S j)(i := RUNNING)" by (auto simp: t(1))
  have "ctl_inv ((ctls S)(c := Locked i)) (\<not> unlocked (ks S)) ((\<lambda>j. state_of S j)(i := RUNNING))"
    by (rule ctl_dispatch [OF sched_inv_parts(1) [OF inv] c(2,3) ru])
  moreover have "tab_inv (ptable k) (nextpid k) (initproc k)"
    unfolding t(1,3,5) by (rule tab_calm [OF sched_inv_parts(2) [OF inv]]) (use ru in \<open>auto simp: calm_def in_wait_def settled_def\<close>)
  ultimately show ?thesis
    unfolding sched_inv_def go_def by (simp add: h st t(2,4))
qed

lemma inv_switched:
  assumes inv: "sched_inv E S" and c: "c < ncpu S" "ctls S c = Switching i"
  shows "sched_inv E (go c (Loop (Suc i)) (scheduler_back (E c) c (ks S)) S)"
proof -
  let ?k = "scheduler_back (E c) c (ks S)"
  have f: "ptable ?k = tab S" "nextpid ?k = nextpid (ks S)" "ptlock ?k = ptlock (ks S)" "initproc ?k = initproc (ks S)"
    "cpu_same (cpu_upd c (\<lambda>u. u\<lparr>cproc := on_cpu (Loop (Suc i))\<rparr>) (hw (ks S))) (hw ?k)"
    by (simp_all add: scheduler_back_def switchkvm_def cpu_same_def)
  have "hw_inv E ((ctls S)(c := Loop (Suc i))) (hw ?k)"
    by (rule hw_inv_set [OF _ c(1) f(5)]) (use inv in \<open>simp add: sched_inv_def\<close>)
  then show ?thesis
    using ctl_back [OF sched_inv_parts(1) [OF inv] c(2)] sched_inv_parts(2) [OF inv]
    unfolding sched_inv_def go_def by (simp add: f)
qed

lemma inv_scheduler:
  assumes inv: "sched_inv E S" and c: "c < ncpu S"
  shows "ctls S c = Top \<Longrightarrow> scheduler_top (E c) (ks S) = Inr k \<Longrightarrow> sched_inv E (go c (Loop 0) k S)"
    and "ctls S c = Loop i \<Longrightarrow> scheduler_slot (E c) c i (ks S) = Inr (False, k) \<Longrightarrow> sched_inv E (go c (Loop (Suc i)) k S)"
    and "ctls S c = Loop i \<Longrightarrow> scheduler_bottom (E c) (ks S) = Inr k \<Longrightarrow> sched_inv E (go c Top k S)"
proof -
  show "sched_inv E (go c (Loop 0) k S)" if "ctls S c = Top" "scheduler_top (E c) (ks S) = Inr k"
    using eff_top [OF that(2)] that(1) by (intro inv_idle [OF inv c]) auto
  show "sched_inv E (go c (Loop (Suc i)) k S)" if "ctls S c = Loop i" "scheduler_slot (E c) c i (ks S) = Inr (False, k)"
  proof -
    have "k = ks S" using that(2) by (auto simp: scheduler_slot_def split: if_splits)
    then show ?thesis
      using that(1) ctl_invD(2) [OF sched_inv_parts(1) [OF inv], of c]
      by (intro inv_idle [OF inv c, of True]) (auto simp: eff_def)
  qed
  show "sched_inv E (go c Top k S)" if "ctls S c = Loop i" "scheduler_bottom (E c) (ks S) = Inr k"
    using eff_release [OF that(2) [unfolded scheduler_bottom_def]] that(1) by (intro inv_idle [OF inv c]) auto
qed

lemma inv_resume:
  assumes inv: "sched_inv E S" and c: "c < ncpu S" "ctls S c = Locked i"
    and e: "eff (ks S) t (nextpid (ks S)) False k" and t: "t = tab S \<or> t = (tab S)(i := (tab S i)\<lparr>chan := None\<rparr>)"
  shows "sched_inv E (go c (Free i) k S)"
proof -
  have "calm (tab S) t" using t by (auto simp: calm_def in_wait_def split: if_splits)
  moreover have "(\<lambda>j. pstate (t j)) = (\<lambda>j. state_of S j)" using t by auto
  ultimately show ?thesis
    using c(2) tab_calm [OF sched_inv_parts(2) [OF inv]] by (intro inv_stay [OF inv c(1) e]) auto
qed

lemma inv_fork:
  assumes inv: "sched_inv E S" and c: "c < ncpu S"
  shows "ctls S c = Free i \<Longrightarrow> allocproc (E c) (ks S) = Inr (None, k) \<Longrightarrow> sched_inv E (go c (Free i) k S)"
    and "ctls S c = Free i \<Longrightarrow> allocproc (E c) (ks S) = Inr (Some j, k) \<Longrightarrow> sched_inv E (go c (Forking i j) k S)"
proof -
  note tb = sched_inv_parts(2) [OF inv]
  show "sched_inv E (go c (Free i) k S)" if x: "ctls S c = Free i" and a: "allocproc (E c) (ks S) = Inr (None, k)"
  proof (rule eff_allocproc [OF a])
    assume "unlocked (ks S)" "eff (ks S) (tab S) (nextpid (ks S)) False k"
    then show ?thesis using x tb by (intro inv_stay [OF inv c]) auto
  next
    fix j assume j: "unlocked (ks S)" "state_of S j = UNUSED" "fresh_slot j (nextpid (ks S)) UNUSED (tab S) (ptable k)"
      "eff (ks S) (ptable k) (nextpid (ks S) + 1) False k"
    have "quiet (\<lambda>i. state_of S i) (\<lambda>i. pstate (ptable k i))" using j(2,3) by (auto simp: quiet_def fresh_slot_def)
    moreover have "tab_inv (ptable k) (nextpid (ks S) + 1) (initproc (ks S))"
      by (rule tab_new [OF tb j(2)]) (use j(3) in \<open>auto simp: fresh_slot_def\<close>)
    ultimately show ?thesis using x j(1) by (intro inv_stay [OF inv c j(4)]) auto
  qed simp_all
  show "sched_inv E (go c (Forking i j) k S)" if x: "ctls S c = Free i" and a: "allocproc (E c) (ks S) = Inr (Some j, k)"
  proof (rule eff_allocproc [OF a])
    fix l assume j: "unlocked (ks S)" "Some j = Some l" "l < NPROC" "state_of S l = UNUSED"
      "fresh_slot l (nextpid (ks S)) EMBRYO (tab S) (ptable k)" "eff (ks S) (ptable k) (nextpid (ks S) + 1) False k"
    have st: "(\<lambda>i. pstate (ptable k i)) = (\<lambda>i. state_of S i)(l := EMBRYO)" using j(5) by (auto simp: fresh_slot_def)
    have "tab_inv (ptable k) (nextpid (ks S) + 1) (initproc (ks S))"
      by (rule tab_new [OF tb j(4)]) (use j(5) in \<open>auto simp: fresh_slot_def\<close>)
    moreover have "ctl_inv ((ctls S)(c := Forking i l)) (\<not> unlocked (ks S)) (\<lambda>i. pstate (ptable k i))"
      unfolding st by (rule ctl_new [OF sched_inv_parts(1) [OF inv] x j(3,4)])
    ultimately show ?thesis using x j(1,2) by (intro inv_go [OF inv c j(6)]) auto
  qed simp_all
qed

lemma inv_fork_fill:
  assumes inv: "sched_inv E S" and c: "c < ncpu S" and x: "ctls S c = Forking i j"
  shows "fork_copy (E c) i j (ks S) = Inr (False, k) \<Longrightarrow> sched_inv E (go c (Free i) k S)"
    and "fork_copy (E c) i j (ks S) = Inr (True, k') \<Longrightarrow> fork_child i j k' = Inr k \<Longrightarrow> sched_inv E (go c (Ready i j) k S)"
proof -
  note ct = sched_inv_parts(1) [OF inv] and tb = sched_inv_parts(2) [OF inv]
  have em: "state_of S j = EMBRYO" using ctl_invD(6) [OF ct, of c j] x by simp
  have run: "state_of S i = RUNNING" "i < NPROC" using running [OF inv, of c i] x by simp_all
  show "sched_inv E (go c (Free i) k S)" if f: "fork_copy (E c) i j (ks S) = Inr (False, k)"
  proof -
    note e = eff_fork_copy [OF f]
    have st: "(\<lambda>l. pstate (ptable k l)) = (\<lambda>l. state_of S l)(j := UNUSED)" using e(3) by auto
    have "ctl_inv ((ctls S)(c := Free i)) (\<not> unlocked (ks S)) (\<lambda>l. pstate (ptable k l))"
      unfolding st by (rule ctl_end [OF ct]) (use x in auto)
    moreover have "calm (tab S) (ptable k)"
      using em e(2,3) by (auto simp: calm_def in_wait_def settled_def)
    ultimately show ?thesis using x tab_calm [OF tb] by (intro inv_go [OF inv c e(1)]) auto
  qed
  show "sched_inv E (go c (Ready i j) k S)"
    if f: "fork_copy (E c) i j (ks S) = Inr (True, k')" and g: "fork_child i j k' = Inr k"
  proof -
    note e = eff_fork_copy [OF f] and h = eff_fork_child [OF g]
    have ee: "eff (ks S) (ptable k) (nextpid (ks S)) (\<not> unlocked (ks S)) k"
      using h(1) e(1) by (auto simp: eff_def intro: cpu_same_trans)
    have "tab_inv (ptable k) (nextpid (ks S)) (initproc (ks S))"
      by (rule tab_child [OF tb em run(2)]) (use em run(1) e(2,3) h(2-5) in auto)
    moreover have "quiet (\<lambda>l. state_of S l) (\<lambda>l. pstate (ptable k l))" using h(4) e(3) by simp
    ultimately show ?thesis using x by (intro inv_stay [OF inv c ee]) auto
  qed
qed

lemma inv_publish:
  assumes inv: "sched_inv E S" and c: "c < ncpu S" and x: "ctls S c = Ready i j"
    and r: "set_runnable (E c) j (ks S) = Inr k"
  shows "sched_inv E (go c (Free i) k S)"
proof -
  note ct = sched_inv_parts(1) [OF inv] and e = eff_set_runnable [OF r]
  let ?t = "(tab S)(j := (tab S j)\<lparr>pstate := RUNNABLE\<rparr>)"
  have em: "state_of S j = EMBRYO" using ctl_invD(6) [OF ct, of c j] x by simp
  have st: "(\<lambda>l. pstate (?t l)) = (\<lambda>l. state_of S l)(j := RUNNABLE)" by auto
  have "ctl_inv ((ctls S)(c := Free i)) (\<not> unlocked (ks S)) (\<lambda>l. pstate (?t l))"
    unfolding st by (rule ctl_end [OF ct]) (use x in auto)
  moreover have "calm (tab S) ?t" using em by (auto simp: calm_def in_wait_def settled_def)
  ultimately show ?thesis
    using x e(1) tab_calm [OF sched_inv_parts(2) [OF inv]] by (intro inv_go [OF inv c e(2)]) auto
qed

lemma inv_give_up:
  assumes inv: "sched_inv E S" and c: "c < ncpu S" "ctls S c = Free i"
    and e: "eff (ks S) ((tab S)(i := (tab S i)\<lparr>chan := ch, pstate := v\<rparr>)) (nextpid (ks S)) True k" and u: "unlocked (ks S)"
    and v: "v = RUNNABLE \<or> v = SLEEPING \<and> (\<exists>a. ch = Some (On_addr a))"
  shows "sched_inv E (go c (Switching i) k S)"
proof (rule inv_switch [OF inv c(1) e])
  have "state_of S i = RUNNING" using running [OF inv, of c i] c(2) by simp
  then show "tab_inv ((tab S)(i := (tab S i)\<lparr>chan := ch, pstate := v\<rparr>)) (nextpid (ks S)) (initproc (ks S))"
    using v by (intro tab_calm [OF sched_inv_parts(2) [OF inv]] calm_run) auto
qed (use c u v in auto)

lemma inv_exit:
  assumes inv: "sched_inv E S" and c: "c < ncpu S" "ctls S c = Free i" and i: "initproc (ks S) \<noteq> Some i"
    and s: "exit_switch (E c) i (ks S) = Inr k"
  shows "sched_inv E (go c (Switching i) k S)"
proof -
  note e = eff_exit_switch [OF s sched_inv_runs(1) [OF inv c(1)]]
  have r: "state_of S i = RUNNING" "i < NPROC" using running [OF inv, of c i] c(2) by simp_all
  show ?thesis
    by (rule inv_switch [OF inv c(1) e(2)])
      (use c(2) e(1) r i tab_exit [OF sched_inv_parts(2) [OF inv]] in \<open>auto simp: exit_ptable_fields\<close>)
qed

lemma inv_update:
  assumes inv: "sched_inv E S" and c: "c < ncpu S" and u: "unlocked (ks S)" and e: "eff (ks S) t (nextpid (ks S)) False k"
    and t: "calm (tab S) t" "quiet (\<lambda>i. state_of S i) (\<lambda>i. pstate (t i))" and x: "ctls S c = Free i \<or> ctls S c = Top"
  shows "sched_inv E (go c (ctls S c) k S)"
proof -
  have "ctl_inv ((ctls S)(c := ctls S c)) False (\<lambda>i. pstate (t i))"
  proof (cases "ctls S c = Top")
    case True
    then show ?thesis using u t(2) by (intro ctl_idle [OF sched_inv_parts(1) [OF inv]]) auto
  next
    case False
    then show ?thesis using u t(2) x by (intro ctl_stay [OF sched_inv_parts(1) [OF inv]]) auto
  qed
  then show ?thesis
    by (intro inv_go [OF inv c e]) (auto intro: tab_calm [OF sched_inv_parts(2) [OF inv] t(1)])
qed

lemma inv_other:
  assumes inv: "sched_inv E S" and c: "c < ncpu S" and o: "other_code (ks S) k"
  shows "sched_inv E (go c (ctls S c) k S)"
proof -
  have e: "eff (ks S) (ptable k) (nextpid (ks S)) (\<not> unlocked (ks S)) k"
    using o by (simp add: eff_def other_code_def)
  have st: "(\<lambda>i. pstate (ptable k i)) = (\<lambda>i. state_of S i)" and "calm (tab S) (ptable k)"
    using o by (auto simp: other_code_def calm_def in_wait_def)
  with sched_inv_parts(1) [OF inv] show ?thesis
    by (intro inv_go [OF inv c e]) (auto intro: tab_calm [OF sched_inv_parts(2) [OF inv]])
qed

lemma inv_end_sleep:
  assumes inv: "sched_inv E S" and c: "c < ncpu S" "ctls S c = Locked i"
    and s: "rbind (sleep_wake (E c) e i (ks S)) (release_ptable (E c)) = Inr k"
  shows "sched_inv E (go c (Free i) k S)"
proof -
  obtain s1 where s1: "sleep_wake (E c) e i (ks S) = Inr s1" "release_ptable (E c) s1 = Inr k" using s by auto
  have ef: "eff (ks S) ((tab S)(i := (tab S i)\<lparr>chan := None\<rparr>)) (nextpid (ks S)) False k"
    using eff_trans [OF eff_sleep_wake [OF s1(1)] eff_release [OF s1(2)]] eff_sleep_wake [OF s1(1)] by (simp add: eff_def)
  show ?thesis by (rule inv_resume [OF inv c ef]) simp
qed

lemma inv_end_wait:
  assumes inv: "sched_inv E S" and c: "c < ncpu S" "ctls S c = Locked i" and s: "wait_again (E c) e i (ks S) = Inr (w, k)"
  shows "sched_inv E (waited c i w k S)"
proof -
  obtain s1 where s1: "sleep_wake (E c) e i (ks S) = Inr s1" "wait_pass (E c) i s1 = Inr (w, k)"
    using s by (auto simp: wait_again_def sleep_leave_def)
  let ?t = "(tab S)(i := (tab S i)\<lparr>chan := None\<rparr>)"
  have L: "\<not> unlocked (ks S)" using ctl_invD(2) [OF sched_inv_parts(1) [OF inv], of c] c(2) by simp
  have ef: "eff (ks S) ?t (nextpid (ks S)) True s1" using eff_sleep_wake [OF s1(1)] L by simp
  have "calm (tab S) ?t" by (auto simp: calm_def in_wait_def split: if_splits)
  then have t: "tab_inv ?t (nextpid (ks S)) (initproc (ks S))" by (rule tab_calm [OF sched_inv_parts(2) [OF inv]])
  show ?thesis
    by (rule inv_waited [OF inv c(1) _ _ _ s1(2) ef _ t]) (use c(2) in simp_all)
qed

lemma inv_wait:
  assumes inv: "sched_inv E S" and c: "c < ncpu S" "ctls S c = Free i" and w: "wait_enter (E c) (ks S) = Inr (w, k)"
  shows "sched_inv E (waited c i w k S)"
proof -
  obtain q s1 s2 where s: "curproc (E c) (ks S) = Inr (q, s1)" "acquire_ptable (E c) s1 = Inr s2" "wait_pass (E c) q s2 = Inr (w, k)"
    using w by (auto simp: wait_enter_def)
  note cp = eff_curproc [OF s(1) sched_inv_runs(1) [OF inv c(1)]]
  have q: "q = i" using cp(2) sched_inv_runs(2) [OF inv c(1)] c(2) by simp
  have u: "unlocked (ks S)" using eff_acquire(1) [OF s(2)] cp(1) by (simp add: eff_def)
  have ef: "eff (ks S) (tab S) (nextpid (ks S)) True s2"
    using eff_acquire(2) [OF s(2)] cp(1) by (auto simp: eff_def intro: cpu_same_trans)
  show ?thesis
    by (rule inv_waited [OF inv c(1) _ _ _ s(3) [unfolded q] ef _ sched_inv_parts(2) [OF inv]]) (use c(2) u in simp_all)
qed

lemma inv_yield:
  assumes inv: "sched_inv E S" and c: "c < ncpu S" "ctls S c = Free i" and s: "yield_enter (E c) (ks S) = Inr (e, k)"
  shows "sched_inv E (go c (Switching i) k S)"
proof -
  have p: "cproc (cpus (hw (ks S)) ! c) = Some i" using sched_inv_runs(2) [OF inv c(1)] c(2) by simp
  note y = eff_yield_enter [OF s sched_inv_runs(1) [OF inv c(1)] p]
  have "(tab S i)\<lparr>pstate := RUNNABLE\<rparr> = (tab S i)\<lparr>chan := chan (tab S i), pstate := RUNNABLE\<rparr>" by simp
  note e = y(2) [unfolded this]
  show ?thesis by (rule inv_give_up [OF inv c e y(1)]) simp
qed

lemma inv_sleep:
  assumes inv: "sched_inv E S" and c: "c < ncpu S" "ctls S c = Free i"
    and s: "sleep_enter (E c) (On_addr a) (Lock l) (ks S) = Inr (e, l', k)"
  shows "sched_inv E (go c (Switching i) k S)"
proof -
  have p: "cproc (cpus (hw (ks S)) ! c) = Some i" using sched_inv_runs(2) [OF inv c(1)] c(2) by simp
  note y = eff_sleep_enter [OF s sched_inv_runs(1) [OF inv c(1)] p]
  show ?thesis by (rule inv_give_up [OF inv c y(2,1)]) simp
qed

lemma inv_kill:
  assumes inv: "sched_inv E S" and c: "c < ncpu S" "ctls S c = Free i" and s: "kill (E c) n (ks S) = Inr (r, k)"
  shows "sched_inv E (go c (ctls S c) k S)"
proof (rule eff_kill [OF s])
  have "calm (tab S) (tab S)" by (simp add: calm_def)
  then show "sched_inv E (go c (ctls S c) k S)" if "unlocked (ks S)" "eff (ks S) (tab S) (nextpid (ks S)) False k"
    by (rule inv_update [OF inv c(1) that]) (use c(2) in simp_all)
  show "sched_inv E (go c (ctls S c) k S)" if "unlocked (ks S)" "eff (ks S) (kill_slot j (tab S)) (nextpid (ks S)) False k" for j
    by (rule inv_update [OF inv c(1) that calm_kill quiet_kill]) (use c(2) in simp)
qed

lemma sched_step_inv:
  assumes "sched_step E c S S'" and inv: "sched_inv E S"
  shows "sched_inv E S'"
  using assms(1)
proof cases
  case (top k) show ?thesis unfolding top(1) by (rule inv_scheduler(1) [OF inv top(2-4)])
next
  case (skip i k) show ?thesis unfolding skip(1) by (rule inv_scheduler(2) [OF inv skip(2,3,5)])
next
  case (dispatch i k) show ?thesis unfolding dispatch(1) by (rule inv_dispatch [OF inv dispatch(2-5)])
next
  case (bottom i k) show ?thesis unfolding bottom(1) by (rule inv_scheduler(3) [OF inv bottom(2,3,5)])
next
  case (begin_run i k)
  show ?thesis unfolding begin_run(1) by (rule inv_resume [OF inv begin_run(2,3) eff_release [OF begin_run(5)]]) simp
next
  case (end_yield i e k)
  show ?thesis unfolding end_yield(1) by (rule inv_resume [OF inv end_yield(2,3) eff_yield_leave [OF end_yield(5)]]) simp
next
  case (end_sleep i e k) show ?thesis unfolding end_sleep(1) by (rule inv_end_sleep [OF inv end_sleep(2,3,5)])
next
  case (end_wait i e w k) show ?thesis unfolding end_wait(1) by (rule inv_end_wait [OF inv end_wait(2,3,5)])
next
  case (yielding i e k) show ?thesis unfolding yielding(1) sched_inv_save by (rule inv_yield [OF inv yielding(2-4)])
next
  case (sleeping i a l e l' k) show ?thesis unfolding sleeping(1) sched_inv_save by (rule inv_sleep [OF inv sleeping(2-4)])
next
  case (waiting i w k) show ?thesis unfolding waiting(1) by (rule inv_wait [OF inv waiting(2-4)])
next
  case (exiting i k) show ?thesis unfolding exiting(1) by (rule inv_exit [OF inv exiting(2-5)])
next
  case (switched i) show ?thesis unfolding switched(1) by (rule inv_switched [OF inv switched(2,3)])
next
  case (waking i ch k)
  show ?thesis unfolding waking(1)
    by (rule inv_update [OF inv waking(2) eff_wakeup [OF waking(4)] calm_wakeup1 quiet_wakeup1 waking(3)])
next
  case (killing i n r k) show ?thesis unfolding killing(1) by (rule inv_kill [OF inv killing(2-4)])
next
  case (no_slot i k) show ?thesis unfolding no_slot(1) by (rule inv_fork(1) [OF inv no_slot(2-4)])
next
  case (new_slot i j k) show ?thesis unfolding new_slot(1) sched_inv_save by (rule inv_fork(2) [OF inv new_slot(2-4)])
next
  case (no_copy i j k) show ?thesis unfolding no_copy(1) by (rule inv_fork_fill(1) [OF inv no_copy(2-4)])
next
  case (copied i j k' k) show ?thesis unfolding copied(1) by (rule inv_fork_fill(2) [OF inv copied(2-5)])
next
  case (publish i j k) show ?thesis unfolding publish(1) by (rule inv_publish [OF inv publish(2-4)])
next
  case (other k) show ?thesis unfolding other(1) by (rule inv_other [OF inv other(2,4)])
qed

lemma sched_reach_inv: "sched_reach E S \<Longrightarrow> sched_inv E S"
proof (induction rule: sched_reach.induct)
  case (start S)
  then have st: "state_of S i = (if i = 0 then RUNNABLE else UNUSED)" and par: "parent (tab S i) = None" for i
    by (auto simp: sched_init_def)
  have "hw_inv E (ctls S) (hw (ks S))" using start by (auto simp: sched_init_def hw_inv_def)
  moreover have "ctl_inv (ctls S) (\<not> unlocked (ks S)) (\<lambda>i. state_of S i)"
    using start by (auto simp: sched_init_def ctl_inv_def st split: if_splits)
  moreover have "tab_inv (tab S) (nextpid (ks S)) (initproc (ks S))"
    by (rule tab_invI) (use start in \<open>auto simp: sched_init_def st par settled_def split: if_splits\<close>)
  ultimately show ?case by (simp add: sched_inv_def)
next
  case (step S c S')
  then show ?case by (blast intro: sched_step_inv)
qed

end
