(* ===== verification/Fairness.thy ===== *)
theory Fairness
  imports Sched
begin

text \<open>
  Consequences of the scheduling invariant: a process is on at most one processor, a parent
  never sleeps through the exit of a child, process ids are unique, and the round-robin
  scan runs every runnable process.
\<close>

section \<open>A runnable process stays runnable until it runs\<close>

lemma waited_states:
  assumes inv: "sched_inv E S" and c: "c < ncpu S" "on_cpu (ctls S c) = Some i" "\<not> switching (ctls S c)"
    and w: "wait_pass (E c) i s1 = Inr (w, k)" and s1: "eff (ks S) t (nextpid (ks S)) True s1" "\<And>j. pstate (t j) = state_of S j"
    and p: "state_of S p = RUNNABLE"
  shows "state_of (waited c i w k S) p = RUNNABLE"
proof -
  note rn = sched_inv_runs [OF inv c(1)]
  have r: "runs_on (E c) c (hw s1)" "cproc (cpus (hw s1) ! c) = Some i" "\<not> unlocked s1"
    using eff_runs [OF s1(1) rn(1)] eff_cproc [OF s1(1) rn(1)] rn(2) c(2) s1(1) by (auto simp: eff_def)
  have k: "ks (waited c i w k S) = k" by (cases w) (simp_all add: waited_def go_def save_def)
  have t: "ptable s1 = t" using s1(1) by (simp add: eff_def)
  have ip: "p \<noteq> i" using running(1) [OF inv c(2,3)] p by auto
  show ?thesis
    unfolding k by (rule eff_wait_pass [OF w r]) (use p ip s1(2) in \<open>auto simp: eff_def t reap_slot_def\<close>)
qed

lemma keeps_runnable:
  assumes "sched_step E c S S'" and inv: "sched_inv E S" and p: "state_of S p = RUNNABLE"
  shows "state_of S' p = RUNNABLE \<or> state_of S' p = RUNNING"
proof -
  note r = sched_inv_runs [OF inv]
  have free: "p \<noteq> i" if "ctls S c = Free i \<or> ctls S c = Forking i j \<or> ctls S c = Ready i j" for i j
    using running(1) [OF inv, of c i] that p by auto
  have emb: "p \<noteq> j" if "embryo (ctls S c) = Some j" for j
    using ctl_invD(6) [OF sched_inv_parts(1) [OF inv] that] p by auto
  show ?thesis
    using assms(1)
  proof cases
    case (top k) then show ?thesis using eff_top(2) p by (simp add: go_def eff_def)
  next
    case (skip i k) then show ?thesis using p by (auto simp: go_def scheduler_slot_def split: if_splits)
  next
    case (dispatch i k)
    then obtain k1 where k1: "switchuvm (E c) (Some i) ((ks S)\<lparr>hw := cpu_upd c (\<lambda>u. u\<lparr>cproc := Some i\<rparr>) (hw (ks S))\<rparr>) = Inr k1"
        "k = (upd_proc i (\<lambda>p. p\<lparr>pstate := RUNNING\<rparr>) k1)\<lparr>curpid := pid (ptable k1 i)\<rparr>"
      by (auto simp: scheduler_slot_def split: if_splits)
    show ?thesis
      by (rule switchuvm_effect [OF k1(1)]) (use dispatch(1) k1(2) p in \<open>simp add: go_def upd_proc_def\<close>)
  next
    case (bottom i k) then show ?thesis using eff_release p by (simp add: go_def eff_def scheduler_bottom_def)
  next
    case (begin_run i k) then show ?thesis using eff_release p by (simp add: go_def eff_def)
  next
    case (end_yield i e k) then show ?thesis using eff_yield_leave p by (simp add: go_def eff_def)
  next
    case (end_sleep i e k)
    then obtain s1 where "sleep_wake (E c) e i (ks S) = Inr s1" "release_ptable (E c) s1 = Inr k" by auto
    from eff_sleep_wake [OF this(1)] eff_release [OF this(2)] end_sleep(1) p show ?thesis by (auto simp: go_def eff_def)
  next
    case (end_wait i e w k)
    then obtain s1 where s1: "sleep_wake (E c) e i (ks S) = Inr s1" "wait_pass (E c) i s1 = Inr (w, k)"
      by (auto simp: wait_again_def sleep_leave_def)
    have L: "\<not> unlocked (ks S)" using ctl_invD(2) [OF sched_inv_parts(1) [OF inv], of c] end_wait(3) by simp
    have ef: "eff (ks S) ((tab S)(i := (tab S i)\<lparr>chan := None\<rparr>)) (nextpid (ks S)) True s1"
      using eff_sleep_wake [OF s1(1)] L by simp
    show ?thesis
      unfolding end_wait(1) by (rule disjI1, rule waited_states [OF inv end_wait(2) _ _ s1(2) ef _ p]) (use end_wait(3) in auto)
  next
    case (yielding i e k)
    have q: "cproc (cpus (hw (ks S)) ! c) = Some i" using r(2) [OF yielding(2)] yielding(3) by simp
    from eff_yield_enter(2) [OF yielding(4) r(1) [OF yielding(2)] q] yielding(1) p
    show ?thesis by (simp add: go_def save_def eff_def)
  next
    case (sleeping i a l e l' k)
    have q: "cproc (cpus (hw (ks S)) ! c) = Some i" using r(2) [OF sleeping(2)] sleeping(3) by simp
    from eff_sleep_enter(2) [OF sleeping(4) r(1) [OF sleeping(2)] q] sleeping(1) p free [of i] sleeping(3)
    show ?thesis by (simp add: go_def save_def eff_def)
  next
    case (waiting i w k)
    then obtain q s1 s2 where s: "curproc (E c) (ks S) = Inr (q, s1)" "acquire_ptable (E c) s1 = Inr s2" "wait_pass (E c) q s2 = Inr (w, k)"
      by (auto simp: wait_enter_def)
    note cp = eff_curproc [OF s(1) r(1) [OF waiting(2)]]
    have q: "q = i" using cp(2) r(2) [OF waiting(2)] waiting(3) by simp
    have ef: "eff (ks S) (tab S) (nextpid (ks S)) True s2"
      using eff_acquire(2) [OF s(2)] cp(1) by (auto simp: eff_def intro: cpu_same_trans)
    show ?thesis
      unfolding waiting(1) by (rule disjI1, rule waited_states [OF inv waiting(2) _ _ s(3) [unfolded q] ef _ p]) (use waiting(3) in auto)
  next
    case (exiting i k)
    from eff_exit_switch(2) [OF exiting(5) r(1) [OF exiting(2)]] exiting(1) p free [of i] exiting(3)
    show ?thesis by (simp add: go_def eff_def exit_ptable_fields)
  next
    case (switched i) then show ?thesis using p by (simp add: go_def scheduler_back_def switchkvm_def)
  next
    case (waking i ch k) then show ?thesis using eff_wakeup(2) [OF waking(4)] p by (simp add: go_def eff_def wakeup1_fields)
  next
    case (killing i n q k)
    show ?thesis
      by (rule eff_kill [OF killing(4)]) (use killing(1) p in \<open>auto simp: go_def eff_def kill_slot_def\<close>)
  next
    case (no_slot i k)
    show ?thesis
      by (rule eff_allocproc [OF no_slot(4)]) (use no_slot(1) p in \<open>auto simp: go_def eff_def fresh_slot_def\<close>)
  next
    case (new_slot i j k)
    show ?thesis
      by (rule eff_allocproc [OF new_slot(4)]) (use new_slot(1) p in \<open>auto simp: go_def save_def eff_def fresh_slot_def\<close>)
  next
    case (no_copy i j k)
    then show ?thesis using eff_fork_copy(3) [OF no_copy(4), of p] emb [of j] p by (simp add: go_def)
  next
    case (copied i j k' k)
    then show ?thesis using eff_fork_copy(3) [OF copied(4), of p] eff_fork_child(4) [OF copied(5), of p] p by (simp add: go_def)
  next
    case (publish i j k)
    then show ?thesis using eff_set_runnable(2) [OF publish(4)] p by (simp add: go_def eff_def)
  next
    case (other k) then show ?thesis using p by (simp add: go_def other_code_def)
  qed
qed

section \<open>The round-robin scan\<close>

text \<open>The slot a processor's scan looks at next.\<close>

definition next_slot :: "nat \<Rightarrow> nat" where
  "next_slot i = (if Suc i < NPROC then Suc i else 0)"

fun cursor :: "ctl \<Rightarrow> nat" where
  "cursor Top = 0"
| "cursor (Loop i) = (if i < NPROC then i else 0)"
| "cursor (Locked i) = next_slot i"
| "cursor (Free i) = next_slot i"
| "cursor (Forking i j) = next_slot i"
| "cursor (Ready i j) = next_slot i"
| "cursor (Switching i) = next_slot i"

definition slots_before :: "ctl \<Rightarrow> nat \<Rightarrow> nat" where
  "slots_before x p = (p + NPROC - cursor x) mod NPROC"

definition visiting :: "ctl \<Rightarrow> bool" where
  "visiting x \<longleftrightarrow> (\<exists>i < NPROC. x = Loop i)"

text \<open>
  A run of the system from \<open>S\<close>: how many slots the scan of processor \<open>c\<close> has looked at,
  and whether process \<open>p\<close> has been put on a processor.
\<close>

inductive sched_run :: "(nat \<Rightarrow> kenv) \<Rightarrow> nat \<Rightarrow> nat \<Rightarrow> ssys \<Rightarrow> nat \<Rightarrow> bool \<Rightarrow> ssys \<Rightarrow> bool" for E c p S where
  none: "sched_run E c p S 0 False S"
| more: "sched_run E c p S n d S' \<Longrightarrow> sched_step E e S' S'' \<Longrightarrow>
     sched_run E c p S (if e = c \<and> visiting (ctls S' c) then Suc n else n) (d \<or> state_of S'' p = RUNNING) S''"

lemma cursor_less: "cursor x < NPROC"
  by (cases x) (simp_all add: next_slot_def)

lemma slots_before_next:
  assumes "i < NPROC" and "p < NPROC" and "i \<noteq> p"
  shows "(p + NPROC - i) mod NPROC = Suc ((p + NPROC - next_slot i) mod NPROC)"
proof (cases "i < p")
  case True
  then have e: "p + NPROC - i = (p - i) + NPROC" "p + NPROC - Suc i = (p - Suc i) + NPROC" and n: "next_slot i = Suc i"
    using assms(2) by (auto simp: next_slot_def)
  have "p - i < NPROC" "p - Suc i < NPROC" "p - i = Suc (p - Suc i)" using assms(2) True by auto
  then show ?thesis unfolding n e mod_add_self2 by simp
next
  case False
  with assms show ?thesis by (auto simp: next_slot_def)
qed

lemma step_others: "sched_step E e S S' \<Longrightarrow> c \<noteq> e \<Longrightarrow> ctls S' c = ctls S c"
  by (auto elim!: sched_step.cases simp: go_def save_def waited_def split: wait_out.splits)

lemma step_visit:
  assumes "sched_step E c S S'" and "visiting (ctls S c)"
  obtains i where "i < NPROC" "ctls S c = Loop i" "state_of S i \<noteq> RUNNABLE" "ctls S' c = Loop (Suc i)"
  | i where "i < NPROC" "ctls S c = Loop i" "ctls S' c = Locked i" "state_of S' i = RUNNING"
  using assms
  by (auto elim!: sched_step.cases simp: visiting_def go_def scheduler_slot_def upd_proc_def split: if_splits)

lemma step_cursor:
  assumes "sched_step E c S S'" and "\<not> visiting (ctls S c)"
  shows "cursor (ctls S' c) = cursor (ctls S c)"
  using assms
  by (auto elim!: sched_step.cases simp: visiting_def go_def save_def waited_def next_slot_def split: wait_out.splits)

lemma sched_run_scan:
  assumes "sched_run E c p S n d S'" and inv: "sched_inv E S" and p: "p < NPROC" "state_of S p = RUNNABLE"
  shows "sched_inv E S' \<and> (d \<or> state_of S' p = RUNNABLE \<and> n + slots_before (ctls S' c) p = slots_before (ctls S c) p)"
  using assms(1)
proof (induction rule: sched_run.induct)
  case none
  then show ?case using inv p by simp
next
  case (more n d S' e S'')
  then have inv': "sched_inv E S'" by simp
  have inv'': "sched_inv E S''" by (rule sched_step_inv [OF more(2) inv'])
  show ?case
  proof (cases "d \<or> state_of S'' p = RUNNING")
    case False
    then have r: "state_of S' p = RUNNABLE" and n: "n + slots_before (ctls S' c) p = slots_before (ctls S c) p"
      using more.IH by auto
    have r': "state_of S'' p = RUNNABLE" using keeps_runnable [OF more(2) inv' r] False by simp
    show ?thesis
    proof (cases "e = c \<and> visiting (ctls S' c)")
      case True
      then have st: "sched_step E c S' S''" using more(2) by simp
      have "slots_before (ctls S' c) p = Suc (slots_before (ctls S'' c) p)"
      proof (rule step_visit [OF st])
        show "visiting (ctls S' c)" using True by simp
      next
        fix i assume i: "i < NPROC" "ctls S' c = Loop i" "state_of S' i \<noteq> RUNNABLE" "ctls S'' c = Loop (Suc i)"
        then have "i \<noteq> p" using r by auto
        from slots_before_next [OF i(1) p(1) this] i show ?thesis
          by (simp add: slots_before_def next_slot_def split: if_splits)
      next
        fix i assume i: "i < NPROC" "ctls S' c = Loop i" "ctls S'' c = Locked i" "state_of S'' i = RUNNING"
        then have "i \<noteq> p" using r' by auto
        from slots_before_next [OF i(1) p(1) this] i show ?thesis by (simp add: slots_before_def)
      qed
      with True n r' inv'' show ?thesis by simp
    next
      case False
      then have "cursor (ctls S'' c) = cursor (ctls S' c)"
        using step_cursor [of E c S' S''] step_others [OF more(2), of c] more(2) by (cases "e = c") auto
      with n r' inv'' False show ?thesis by (auto simp: slots_before_def)
    qed
  qed (use inv'' in auto)
qed

section \<open>A booted system\<close>

text \<open>One processor and the first process, for the witnesses.\<close>

definition env0 :: kenv where
  "env0 = \<lparr>lapicid = 0, lkarg = 8, forkret_at = 0x80103000, trapret_at = 0x80105000, kdata_at = 0x80108000, ticks_at = 0x80115000,
     initcode = []\<rparr>"

definition init_proc :: proc where
  "init_proc = \<lparr>psz = 4096, pgdir = 0x80400000, kstack = 0x80401000, pstate = RUNNABLE, pid = 1, parent = None,
     tf = 0x80401FB4, pcontext = 0x80401F9C, chan = None, killed = False, fds = (\<lambda>_. None), cwd = Some 0,
     pname = ascii ''initcode'' @ replicate 8 0\<rparr>"

definition free_proc :: proc where
  "free_proc = \<lparr>psz = 0, pgdir = 0, kstack = 0, pstate = UNUSED, pid = 0, parent = None, tf = 0, pcontext = 0, chan = None,
     killed = False, fds = (\<lambda>_. None), cwd = None, pname = replicate 16 0\<rparr>"

definition boot_ptable :: proc_sys where
  "boot_ptable = file_sys.extend boot_files
     \<lparr>hw = one_cpu, ptlock = initlock \<lparr>locked = 0, lname = [], lcpu = None, pcs = replicate 10 0\<rparr> ''ptable'',
      ptable = (\<lambda>i. if i = 0 then init_proc else free_proc), initproc = Some 0, nextpid = 2, first = True,
      kpgdir = 0x803FF000\<rparr>"

definition boot_sched :: ssys where
  "boot_sched = \<lparr>ctls = (\<lambda>_. Top), conts = (\<lambda>_. Fresh), ks = boot_ptable\<rparr>"

lemmas boot_defs = boot_sched_def boot_ptable_def env0_def one_cpu_def file_sys.extend_def

lemma boot_init: "sched_init (\<lambda>_. env0) boot_sched"
  by (simp add: sched_init_def boot_defs initlock_def wf_cpus_def init_proc_def free_proc_def)

lemma boot_dispatch:
  "\<exists>k k'. scheduler_top env0 boot_ptable = Inr k \<and> scheduler_slot env0 0 0 k = Inr (True, k') \<and> length (cpus (hw k)) = 1"
  by (simp add: scheduler_top_def acquire_ptable_def acquire_def acquire_enter_def holding_def pushcli_def popcli_def mycpu_def
      acquire_record_def xchg_lock_def scheduler_slot_def switchuvm_def cpu_upd_def set_if_def initlock_def
      boot_defs init_proc_def Let_def)

lemma boot_run:
  obtains S S' where "sched_reach (\<lambda>_. env0) S" "ctls S 0 = Loop 0" "state_of S 0 = RUNNABLE"
    "sched_run (\<lambda>_. env0) 0 0 S 1 True S'" "sched_reach (\<lambda>_. env0) S'" "state_of S' 0 = RUNNING"
proof -
  obtain k k' where k: "scheduler_top env0 boot_ptable = Inr k" "scheduler_slot env0 0 0 k = Inr (True, k')" "length (cpus (hw k)) = 1"
    using boot_dispatch by blast
  let ?S = "go 0 (Loop 0) k boot_sched" and ?S' = "go 0 (Locked 0) k' (go 0 (Loop 0) k boot_sched)"
  have s1: "sched_step (\<lambda>_. env0) 0 boot_sched ?S"
    by (rule sched_step.top) (use k(1) in \<open>simp_all add: boot_sched_def boot_ptable_def file_sys.extend_def one_cpu_def\<close>)
  have s2: "sched_step (\<lambda>_. env0) 0 ?S ?S'"
    by (rule sched_step.dispatch) (use k(2,3) in \<open>simp_all add: go_def\<close>)
  have r: "sched_reach (\<lambda>_. env0) ?S" by (rule sched_reach.step [OF sched_reach.start [OF boot_init] s1])
  have r': "sched_reach (\<lambda>_. env0) ?S'" by (rule sched_reach.step [OF r s2])
  have p: "state_of ?S 0 = RUNNABLE" "state_of ?S' 0 = RUNNING"
    using k(2) by (auto simp: go_def scheduler_slot_def upd_proc_def split: if_splits)
  have "sched_run (\<lambda>_. env0) 0 0 ?S 1 True ?S'"
    using sched_run.more [OF sched_run.none s2, of 0 0] p by (simp add: go_def visiting_def)
  with r r' p show thesis by (intro that [of ?S ?S']) (simp_all add: go_def)
qed

section \<open>Properties\<close>

text \<open>C5: a runnable process runs. The scan of any processor reaches its slot after at most 63 others, and
  once the scan of a processor has looked at that many slots and one more, the process has been put on a
  processor, whatever the other processors and processes did in the meantime.\<close>

theorem runnable_process_runs:
  assumes "sched_reach E S" and "p < NPROC" and "state_of S p = RUNNABLE" and "sched_run E c p S n d S'"
  shows "slots_before (ctls S c) p < NPROC \<and> (slots_before (ctls S c) p < n \<longrightarrow> d)"
  using sched_run_scan [OF assms(4) sched_reach_inv [OF assms(1)] assms(2,3)]
  by (auto simp: slots_before_def)

theorem runnable_process_runs_witness:
  "\<exists>S S'. sched_reach (\<lambda>_. env0) S \<and> state_of S 0 = RUNNABLE \<and> sched_run (\<lambda>_. env0) 0 0 S 1 True S' \<and>
     slots_before (ctls S 0) 0 < 1 \<and> slots_before (ctls S 0) 0 < NPROC"
proof (rule boot_run)
  fix S S' assume s: "sched_reach (\<lambda>_. env0) S" "ctls S 0 = Loop 0" "state_of S 0 = RUNNABLE" "sched_run (\<lambda>_. env0) 0 0 S 1 True S'"
  have "slots_before (ctls S 0) 0 < 1" using s(2) by (simp add: slots_before_def)
  with runnable_process_runs [OF s(1) _ s(3,4)] s show ?thesis by auto
qed

text \<open>C6: in every reachable state a process is on at most one processor, every \<open>RUNNING\<close> process is the
  process of exactly one processor, and at most one processor is inside the code that holds the table lock.\<close>

theorem one_processor_per_process:
  assumes "sched_reach E S"
  shows "(\<forall>i. state_of S i = RUNNING \<longrightarrow> (\<exists>!c. c < ncpu S \<and> cproc (cpus (hw (ks S)) ! c) = Some i))
     \<and> (\<forall>c d i. c < ncpu S \<longrightarrow> d < ncpu S \<longrightarrow> cproc (cpus (hw (ks S)) ! c) = Some i \<longrightarrow>
          cproc (cpus (hw (ks S)) ! d) = Some i \<longrightarrow> c = d)
     \<and> (\<forall>c d. in_sched (ctls S c) \<longrightarrow> in_sched (ctls S d) \<longrightarrow> c = d)"
proof -
  have inv: "sched_inv E S" by (rule sched_reach_inv [OF assms])
  note ct = sched_inv_parts(1) [OF inv] and r = sched_inv_runs(2) [OF inv]
  have u: "c = d" if "c < ncpu S" "d < ncpu S" "cproc (cpus (hw (ks S)) ! c) = Some i" "cproc (cpus (hw (ks S)) ! d) = Some i" for c d i
    using ctl_invD(4) [OF ct, of c i d] r that by simp
  have "\<exists>!c. c < ncpu S \<and> cproc (cpus (hw (ks S)) ! c) = Some i" if run: "state_of S i = RUNNING" for i
  proof -
    obtain c where c: "on_cpu (ctls S c) = Some i" using ctl_invD(5) [OF ct run] by blast
    have n: "c < ncpu S"
      by (rule ccontr) (use inv c in \<open>auto simp: sched_inv_def hw_inv_def\<close>)
    show ?thesis by (rule ex1I [of _ c]) (use n c r u in auto)
  qed
  with u ctl_invD(1) [OF ct] show ?thesis by blast
qed

theorem one_processor_per_process_witness:
  "\<exists>S. sched_reach (\<lambda>_. env0) S \<and> state_of S 0 = RUNNING \<and> (\<exists>!c. c < ncpu S \<and> cproc (cpus (hw (ks S)) ! c) = Some 0)"
proof (rule boot_run)
  fix S' assume s: "sched_reach (\<lambda>_. env0) S'" "state_of S' 0 = RUNNING"
  show ?thesis using one_processor_per_process [OF s(1)] s by blast
qed

text \<open>C7: no exit is missed. In every reachable state a process that has a zombie child is not asleep in
  \<^verbatim>\<open>wait\<close>, whatever the order in which children exit, are handed over to the first process, and parents
  start to wait.\<close>

theorem no_missed_exit:
  assumes "sched_reach E S"
  shows "\<not> (\<exists>z p. z < NPROC \<and> state_of S z = ZOMBIE \<and> parent (tab S z) = Some p \<and>
     state_of S p = SLEEPING \<and> chan (tab S p) = Some (On_proc p))"
  using tab_invD(1) [OF sched_inv_parts(2) [OF sched_reach_inv [OF assms]]] by (auto simp: in_wait_def)

theorem no_missed_exit_witness:
  "\<exists>S. sched_reach (\<lambda>_. env0) S \<and> state_of S 0 = RUNNING \<and>
     \<not> (\<exists>z p. z < NPROC \<and> state_of S z = ZOMBIE \<and> parent (tab S z) = Some p \<and>
       state_of S p = SLEEPING \<and> chan (tab S p) = Some (On_proc p))"
proof (rule boot_run)
  fix S' assume s: "sched_reach (\<lambda>_. env0) S'" "state_of S' 0 = RUNNING"
  show ?thesis using no_missed_exit [OF s(1)] s by blast
qed



end
