(* ===== verification/Syscall.thy ===== *)
theory Syscall
  imports Fairness
begin

text \<open>
  The argument side of \<^verbatim>\<open>syscall.c\<close> and the system calls of \<^verbatim>\<open>sysproc.c\<close>. The kernel reads and
  writes user memory through the page table of the current process, so every access is
  translated; an access to a page that is not present is a fault in the kernel.
\<close>

section \<open>User memory\<close>

definition user_addr :: "'a kmem_scheme \<Rightarrow> uint \<Rightarrow> uint \<Rightarrow> uint res" where
  "user_addr k d va =
     (case fst (walkpgdir d va False k) of
        None \<Rightarrow> Inl Fault
      | Some pte \<Rightarrow>
          let v = load32 (ram k) pte in
          if v AND PTE_P = 0 then Inl Fault else Inr (P2V (PTE_ADDR v) + (va AND 0xFFF)))"

fun user_peek :: "'a kmem_scheme \<Rightarrow> uint \<Rightarrow> uint \<Rightarrow> nat \<Rightarrow> bytes res" where
  "user_peek k d va 0 = Inr []"
| "user_peek k d va (Suc n) =
     rbind (user_addr k d va) (\<lambda>a. rbind (user_peek k d (va + 1) n) (\<lambda>bs. Inr (ram k a # bs)))"

fun user_poke :: "uint \<Rightarrow> uint \<Rightarrow> bytes \<Rightarrow> 'a kmem_scheme \<Rightarrow> 'a kmem_scheme res" where
  "user_poke d va [] k = Inr k"
| "user_poke d va (b # bs) k =
     rbind (user_addr k d va) (\<lambda>a. user_poke d (va + 1) bs (k\<lparr>ram := (ram k)(a := b)\<rparr>))"

section \<open>Arguments\<close>

text \<open>
  The fetching functions return \<open>None\<close> where the code returns -1, and otherwise the value they
  store through their pointer argument.
\<close>

definition fetchint :: "kenv \<Rightarrow> uint \<Rightarrow> 'a proc_sys_scheme \<Rightarrow> (uint option \<times> 'a proc_sys_scheme) res" where
  "fetchint K addr s =
     rbind (curproc K s) (\<lambda>(cur, s).
     let p = ptable s cur in
     if psz p \<le> addr \<or> psz p < addr + 4 then Inr (None, s)
     else rbind (user_peek (km s) (pgdir p) addr 4) (\<lambda>bs. Inr (Some (mk32 (bs ! 0) (bs ! 1) (bs ! 2) (bs ! 3)), s)))"

text \<open>The string starting at \<open>a\<close>, if it ends before \<open>ep\<close>.\<close>

function fetchstr_from :: "'a kmem_scheme \<Rightarrow> uint \<Rightarrow> nat \<Rightarrow> nat \<Rightarrow> bytes option res" where
  "fetchstr_from k d ep a =
     (if a < ep
      then rbind (user_addr k d (of_nat a)) (\<lambda>pa.
           if ram k pa = 0 then Inr (Some [])
           else rbind (fetchstr_from k d ep (Suc a)) (\<lambda>r. Inr (map_option ((#) (ram k pa)) r)))
      else Inr None)"
  by pat_completeness auto

termination
  by (relation "measure (\<lambda>(k, d, ep, a). ep - a)") auto

declare fetchstr_from.simps [simp del]

definition fetchstr :: "kenv \<Rightarrow> uint \<Rightarrow> 'a proc_sys_scheme \<Rightarrow> ((uint \<times> bytes) option \<times> 'a proc_sys_scheme) res" where
  "fetchstr K addr s =
     rbind (curproc K s) (\<lambda>(cur, s).
     let p = ptable s cur in
     if psz p \<le> addr then Inr (None, s)
     else rbind (fetchstr_from (km s) (pgdir p) (unat (psz p)) (unat addr)) (\<lambda>r.
          Inr (map_option (Pair addr) r, s)))"

definition argint :: "kenv \<Rightarrow> nat \<Rightarrow> 'a proc_sys_scheme \<Rightarrow> (uint option \<times> 'a proc_sys_scheme) res" where
  "argint K n s =
     rbind (curproc K s) (\<lambda>(cur, s).
     fetchint K (load32 (ram (km s)) (tf (ptable s cur) + TF_esp) + 4 + 4 * of_nat n) s)"

definition argptr :: "kenv \<Rightarrow> nat \<Rightarrow> int \<Rightarrow> 'a proc_sys_scheme \<Rightarrow> (uint option \<times> 'a proc_sys_scheme) res" where
  "argptr K n sz s =
     rbind (curproc K s) (\<lambda>(cur, s).
     rbind (argint K n s) (\<lambda>(r, s).
     case r of
       None \<Rightarrow> Inr (None, s)
     | Some i \<Rightarrow>
         if sz < 0 \<or> psz (ptable s cur) \<le> i \<or> psz (ptable s cur) < i + of_int sz then Inr (None, s)
         else Inr (Some i, s)))"

definition argstr :: "kenv \<Rightarrow> nat \<Rightarrow> 'a proc_sys_scheme \<Rightarrow> ((uint \<times> bytes) option \<times> 'a proc_sys_scheme) res" where
  "argstr K n s =
     rbind (argint K n s) (\<lambda>(r, s).
     case r of None \<Rightarrow> Inr (None, s) | Some addr \<Rightarrow> fetchstr K addr s)"

section \<open>Process system calls\<close>

text \<open>
  A system call returns a value for \<^verbatim>\<open>%eax\<close>, or does not return, or has given up the processor
  in \<^verbatim>\<open>wait\<close> or \<^verbatim>\<open>sleep\<close>, with what is needed to go on: the saved interrupt flag and, for
  \<^verbatim>\<open>sleep\<close>, its argument and starting time.
\<close>

datatype sysret = Ret_val uint | Gone | In_wait bool | In_sleep bool uint uint

record kern_sys = proc_sys +
  cons :: console
  ticks :: uint
  tickslock :: spinlock
  kbd_shift :: uint

definition ret :: "int \<Rightarrow> sysret" where
  "ret n = Ret_val (of_int n)"

definition sys_fork :: "kenv \<Rightarrow> 'a proc_sys_scheme \<Rightarrow> (sysret \<times> 'a proc_sys_scheme) res" where
  "sys_fork K s = rbind (fork K s) (\<lambda>(n, s). Inr (ret n, s))"

definition sys_exit :: "kenv \<Rightarrow> 'a proc_sys_scheme \<Rightarrow> (sysret \<times> 'a proc_sys_scheme) res" where
  "sys_exit K s = rbind (exit K s) (\<lambda>s. Inr (Gone, s))"

definition wait_ret :: "wait_out \<Rightarrow> sysret" where
  "wait_ret w = (case w of Reaped n \<Rightarrow> ret n | No_child \<Rightarrow> ret (- 1) | Blocked e \<Rightarrow> In_wait e)"

definition sys_wait :: "kenv \<Rightarrow> 'a proc_sys_scheme \<Rightarrow> (sysret \<times> 'a proc_sys_scheme) res" where
  "sys_wait K s = rbind (wait_enter K s) (\<lambda>(w, s). Inr (wait_ret w, s))"

definition sys_kill :: "kenv \<Rightarrow> 'a proc_sys_scheme \<Rightarrow> (sysret \<times> 'a proc_sys_scheme) res" where
  "sys_kill K s =
     rbind (argint K 0 s) (\<lambda>(r, s).
     case r of None \<Rightarrow> Inr (ret (- 1), s)
     | Some n \<Rightarrow> rbind (kill K (sint n) s) (\<lambda>(r, s). Inr (ret r, s)))"

definition sys_getpid :: "kenv \<Rightarrow> 'a proc_sys_scheme \<Rightarrow> (sysret \<times> 'a proc_sys_scheme) res" where
  "sys_getpid K s = rbind (curproc K s) (\<lambda>(cur, s). Inr (ret (pid (ptable s cur)), s))"

definition sys_sbrk :: "kenv \<Rightarrow> 'a proc_sys_scheme \<Rightarrow> (sysret \<times> 'a proc_sys_scheme) res" where
  "sys_sbrk K s =
     rbind (argint K 0 s) (\<lambda>(r, s).
     case r of None \<Rightarrow> Inr (ret (- 1), s)
     | Some n \<Rightarrow>
         rbind (curproc K s) (\<lambda>(cur, s).
         let addr = psz (ptable s cur) in
         rbind (growproc K (sint n) s) (\<lambda>(r, s).
         if r < 0 then Inr (ret (- 1), s) else Inr (Ret_val addr, s))))"

definition acquire_ticks :: "kenv \<Rightarrow> 'a kern_sys_scheme \<Rightarrow> 'a kern_sys_scheme res" where
  "acquire_ticks K s =
     rbind (acquire (load32 (ram (km s))) (lkarg K) (lapicid K) (tickslock s) (hw s)) (\<lambda>(l, m).
     Inr (s\<lparr>tickslock := l, hw := m\<rparr>))"

definition release_ticks :: "kenv \<Rightarrow> 'a kern_sys_scheme \<Rightarrow> 'a kern_sys_scheme res" where
  "release_ticks K s =
     rbind (release (lapicid K) (tickslock s) (hw s)) (\<lambda>(l, m). Inr (s\<lparr>tickslock := l, hw := m\<rparr>))"

text \<open>
  One test of the loop of \<^verbatim>\<open>sys_sleep\<close>, with \<^verbatim>\<open>tickslock\<close> held. The comparison is unsigned, so a
  negative argument is a very long sleep.
\<close>

definition sleep_pass :: "kenv \<Rightarrow> uint \<Rightarrow> uint \<Rightarrow> 'a kern_sys_scheme \<Rightarrow> (sysret \<times> 'a kern_sys_scheme) res" where
  "sleep_pass K n ticks0 s =
     (if ticks s - ticks0 < n
      then rbind (curproc K s) (\<lambda>(cur, s).
           if killed (ptable s cur) then rbind (release_ticks K s) (\<lambda>s. Inr (ret (- 1), s))
           else rbind (sleep_enter K (On_addr (ticks_at K)) (Lock (tickslock s)) s) (\<lambda>(ena, l, s).
                Inr (In_sleep ena n ticks0, case l of Lock l \<Rightarrow> s\<lparr>tickslock := l\<rparr> | _ \<Rightarrow> s)))
      else rbind (release_ticks K s) (\<lambda>s. Inr (ret 0, s)))"

definition sys_sleep :: "kenv \<Rightarrow> 'a kern_sys_scheme \<Rightarrow> (sysret \<times> 'a kern_sys_scheme) res" where
  "sys_sleep K s =
     rbind (argint K 0 s) (\<lambda>(r, s).
     case r of None \<Rightarrow> Inr (ret (- 1), s)
     | Some n \<Rightarrow> rbind (acquire_ticks K s) (\<lambda>s. sleep_pass K n (ticks s) s))"

definition sys_sleep_again :: "kenv \<Rightarrow> bool \<Rightarrow> uint \<Rightarrow> uint \<Rightarrow> nat \<Rightarrow> 'a kern_sys_scheme \<Rightarrow> (sysret \<times> 'a kern_sys_scheme) res" where
  "sys_sleep_again K ena n ticks0 p s =
     rbind (sleep_leave K ena p (Lock (tickslock s)) s) (\<lambda>(l, s).
     sleep_pass K n ticks0 (case l of Lock l \<Rightarrow> s\<lparr>tickslock := l\<rparr> | _ \<Rightarrow> s))"

definition sys_uptime :: "kenv \<Rightarrow> 'a kern_sys_scheme \<Rightarrow> (sysret \<times> 'a kern_sys_scheme) res" where
  "sys_uptime K s =
     rbind (acquire_ticks K s) (\<lambda>s.
     let xticks = ticks s in rbind (release_ticks K s) (\<lambda>s. Inr (Ret_val xticks, s)))"

section \<open>Checked arguments\<close>

lemma myproc_same:
  assumes "myproc K s = Inr (p, s')"
  obtains m where "s' = s\<lparr>hw := m\<rparr>" "cpu_same (hw s) m"
proof -
  obtain m1 i m2 where m: "pushcli (lapicid K) (hw s) = Inr m1" "popcli (lapicid K) m1 = Inr m2" "s' = s\<lparr>hw := m2\<rparr>"
    using assms by (auto simp: myproc_def Let_def)
  show thesis
    by (rule that [OF m(3) cpu_same_trans [OF pushcli_same [OF m(1)] popcli_same [OF m(2)]]])
qed

lemma cpu_same_sym: "cpu_same m m' \<Longrightarrow> cpu_same m' m"
  by (auto simp: cpu_same_def)

lemma curproc_same:
  assumes "curproc K s = Inr (p, s')" and "runs_on K c (hw s)" and "cproc (cpus (hw s) ! c) = Some cur"
  shows "p = cur" and "ptable s' = ptable s" and "km s' = km s" and "runs_on K c (hw s')" and "cproc (cpus (hw s') ! c) = Some cur"
  by (rule curproc_effect [OF assms(1,2)];
      use assms(2,3) in \<open>auto dest: runs_on_same cproc_same simp: runs_on_def\<close>)+

lemma fetchint_bounds:
  assumes "fetchint K a s = Inr (Some v, s')" and "runs_on K c (hw s)" and "cproc (cpus (hw s) ! c) = Some cur"
  shows "a < psz (ptable s cur)" and "a + 4 \<le> psz (ptable s cur)"
    and "ptable s' = ptable s" and "km s' = km s" and "runs_on K c (hw s')" and "cproc (cpus (hw s') ! c) = Some cur"
proof -
  obtain p s1 where s1: "curproc K s = Inr (p, s1)" using assms(1) by (auto simp: fetchint_def)
  note c = curproc_same [OF s1 assms(2,3)]
  have "\<not> (psz (ptable s cur) \<le> a \<or> psz (ptable s cur) < a + 4)" "s' = s1"
    using assms(1) s1 c by (auto simp: fetchint_def Let_def split: if_splits)
  then show "a < psz (ptable s cur)" "a + 4 \<le> psz (ptable s cur)" "ptable s' = ptable s" "km s' = km s" "runs_on K c (hw s')"
      "cproc (cpus (hw s') ! c) = Some cur"
    using c by (auto simp: not_less not_le)
qed

lemma argint_keeps:
  assumes "argint K n s = Inr (Some v, s')" and "runs_on K c (hw s)" and "cproc (cpus (hw s) ! c) = Some cur"
  shows "ptable s' = ptable s" and "km s' = km s"
proof -
  obtain p s1 where s1: "curproc K s = Inr (p, s1)"
      "fetchint K (load32 (ram (km s1)) (tf (ptable s1 p) + TF_esp) + 4 + 4 * of_nat n) s1 = Inr (Some v, s')"
    using assms(1) by (auto simp: argint_def)
  note c = curproc_same [OF s1(1) assms(2,3)]
  from fetchint_bounds [OF s1(2) c(4,5)] c show "ptable s' = ptable s" "km s' = km s" by auto
qed

lemma argptr_bounds:
  assumes "argptr K n sz s = Inr (Some a, s')" and "runs_on K c (hw s)" and "cproc (cpus (hw s) ! c) = Some cur"
    and "psz (ptable s cur) \<le> KERNBASE" and "sz < 2 ^ 31"
  shows "0 \<le> sz" and "unat a + nat sz \<le> unat (psz (ptable s cur))" and "unat a < unat (psz (ptable s cur))"
proof -
  obtain p s1 s2 where s: "curproc K s = Inr (p, s1)" "argint K n s1 = Inr (Some a, s2)"
      "\<not> (sz < 0 \<or> psz (ptable s2 p) \<le> a \<or> psz (ptable s2 p) < a + of_int sz)"
    using assms(1) by (auto simp: argptr_def split: option.splits if_splits)
  note c = curproc_same [OF s(1) assms(2,3)]
  have t: "psz (ptable s2 p) = psz (ptable s cur)" using argint_keeps [OF s(2) c(4,5)] c by simp
  have z: "0 \<le> sz" and le: "a < psz (ptable s cur)" "a + of_int sz \<le> psz (ptable s cur)"
    using s(3) unfolding t by (simp_all only: de_Morgan_disj not_less not_le)
  then show "0 \<le> sz" "unat a < unat (psz (ptable s cur))" by (simp_all add: word_less_nat_alt)
  obtain m where m: "sz = int m" using z nonneg_int_cases by blast
  have k: "unat (psz (ptable s cur)) \<le> 2147483648" using assms(4) by (simp add: word_le_nat_alt KERNBASE_def)
  have "m < 2147483648" using assms(5) m by simp
  then have "unat (a + of_nat m) = unat a + m"
    using le(1) k by (subst unat_plus_small) (simp_all add: word_less_nat_alt)
  then show "unat a + nat sz \<le> unat (psz (ptable s cur))"
    using le(2) by (simp add: m word_le_nat_alt)
qed

lemma fetchstr_from_string:
  "fetchstr_from k d ep a = Inr (Some str) \<Longrightarrow> a + length str < ep \<and> 0 \<notin> set str \<and>
     (\<forall>i < length str. \<exists>pa. user_addr k d (of_nat (a + i)) = Inr pa \<and> ram k pa = str ! i) \<and>
     (\<exists>pa. user_addr k d (of_nat (a + length str)) = Inr pa \<and> ram k pa = 0)"
proof (induction k d ep a arbitrary: str rule: fetchstr_from.induct)
  case (1 k d ep a)
  have a: "a < ep" using "1.prems" by (subst (asm) fetchstr_from.simps) (auto split: if_splits)
  then obtain pa where pa: "user_addr k d (of_nat a) = Inr pa"
    using "1.prems" by (subst (asm) fetchstr_from.simps) auto
  show ?case
  proof (cases "ram k pa = 0")
    case True
    then have "str = []" using "1.prems" a pa by (subst (asm) fetchstr_from.simps) simp
    with a pa True show ?thesis by simp
  next
    case False
    then obtain rest where r: "fetchstr_from k d ep (Suc a) = Inr (Some rest)" "str = ram k pa # rest"
      using "1.prems" a pa by (subst (asm) fetchstr_from.simps) auto
    note ih = "1.IH" [OF a pa False r(1)]
    show ?thesis
      using ih pa False r(2) by (auto simp: less_Suc_eq_0_disj ac_simps)
  qed
qed

text \<open>C23: a pointer argument is checked against the size of the process. When \<^verbatim>\<open>argptr\<close> accepts a pointer to
  \<open>sz\<close> bytes, all of them lie below the end of the process's memory, without wrap-around, as long as the
  process ends below the kernel; when \<^verbatim>\<open>fetchstr\<close> accepts a string, the string and its terminating zero do,
  it holds no zero, and its bytes are those the page table gives.\<close>

theorem syscall_arguments_checked:
  assumes "runs_on K c (hw s)" and "cproc (cpus (hw s) ! c) = Some cur" and "psz (ptable s cur) \<le> KERNBASE"
    and "sz < 2 ^ 31" and "argptr K n sz s = Inr (Some a, s1)" and "fetchstr K b s = Inr (Some (b', str), s2)"
  shows "0 \<le> sz \<and> unat a + nat sz \<le> unat (psz (ptable s cur)) \<and>
     b' = b \<and> unat b + length str < unat (psz (ptable s cur)) \<and> 0 \<notin> set str \<and>
     (\<exists>pa. user_addr (km s) (pgdir (ptable s cur)) (b + of_nat (length str)) = Inr pa \<and> ram (km s) pa = 0)"
proof -
  obtain p s3 where s3: "curproc K s = Inr (p, s3)" "b' = b"
      "fetchstr_from (km s3) (pgdir (ptable s3 p)) (unat (psz (ptable s3 p))) (unat b) = Inr (Some str)"
    using assms(6) by (auto simp: fetchstr_def Let_def split: if_splits)
  note c = curproc_same [OF s3(1) assms(1,2)]
  from fetchstr_from_string [OF s3(3)] c argptr_bounds [OF assms(5,1-4)] s3(2) show ?thesis by simp
qed

text \<open>A process whose memory holds sevens and one zero, for the witness.\<close>

definition sevens :: proc_sys where
  "sevens = boot_ptable\<lparr>hw := cpu_upd 0 (\<lambda>u. u\<lparr>cproc := Some 0, intena := True\<rparr>) one_cpu,
     km := empty_kmem\<lparr>ram := (\<lambda>_. 7)(0x87070710 := 0)\<rparr>, ptable := (\<lambda>_. init_proc\<lparr>psz := 0x08000000\<rparr>)\<rparr>"

lemma sevens_sels: "hw sevens = cpu_upd 0 (\<lambda>u. u\<lparr>cproc := Some 0, intena := True\<rparr>) one_cpu"
  "ptable sevens = (\<lambda>_. init_proc\<lparr>psz := 0x08000000\<rparr>)" "km sevens = empty_kmem\<lparr>ram := (\<lambda>_. 7)(0x87070710 := 0)\<rparr>"
  by (simp_all add: sevens_def)

lemma sevens_cur: "curproc env0 sevens = Inr (0, sevens)"
  by (simp add: curproc_def myproc_def pushcli_def popcli_def mycpu_def cpu_upd_def set_if_def sevens_sels env0_def one_cpu_def Let_def
      fun_upd_idem)

lemma sevens_addr:
  "user_addr (km sevens) 0x80400000 0x0707070b = Inr 0x8707070b" "user_addr (km sevens) 0x80400000 0x0707070c = Inr 0x8707070c"
  "user_addr (km sevens) 0x80400000 0x0707070d = Inr 0x8707070d" "user_addr (km sevens) 0x80400000 0x0707070e = Inr 0x8707070e"
  "user_addr (km sevens) 0x80400000 0x0707070f = Inr 0x8707070f" "user_addr (km sevens) 0x80400000 0x07070710 = Inr 0x87070710"
  by (simp_all add: user_addr_def walkpgdir_def Let_def sevens_sels load32_def mk32_def entry_def PDX_def PTX_def PTE_ADDR_def
      P2V_def KERNBASE_def)

lemma sevens_esp: "load32 (ram (km sevens)) (tf (ptable sevens 0) + TF_esp) = 0x07070707"
  by (simp add: sevens_sels init_proc_def load32_def mk32_def)

lemma sevens_peek: "user_peek (km sevens) 0x80400000 0x0707070b 4 = Inr [7, 7, 7, 7]"
proof -
  have "(4 :: nat) = Suc (Suc (Suc (Suc 0)))" by simp
  then show ?thesis by (simp only: user_peek.simps, simp add: sevens_addr) (simp add: sevens_sels)
qed

lemma sevens_pgdir: "pgdir (ptable sevens 0) = 0x80400000" "psz (ptable sevens 0) = 0x08000000"
  by (simp_all add: sevens_sels init_proc_def)

lemma sevens_argptr: "argptr env0 0 16 sevens = Inr (Some 0x07070707, sevens)"
proof -
  have "fetchint env0 0x0707070b sevens = Inr (Some 0x07070707, sevens)"
    by (simp add: fetchint_def sevens_cur Let_def sevens_pgdir sevens_peek mk32_def)
  then have "argint env0 0 sevens = Inr (Some 0x07070707, sevens)"
    by (simp add: argint_def sevens_cur sevens_esp)
  then show ?thesis by (simp add: argptr_def sevens_cur sevens_pgdir)
qed

lemma sevens_fetchstr: "fetchstr env0 0x0707070c sevens = Inr (Some (0x0707070c, [7, 7, 7, 7]), sevens)"
proof -
  note f = fetchstr_from.simps
  have "fetchstr_from (km sevens) 0x80400000 134217728 117901068 = Inr (Some [7, 7, 7, 7])"
    by (subst f, simp add: sevens_addr, subst f, simp add: sevens_addr, subst f, simp add: sevens_addr, subst f, simp add: sevens_addr,
        subst f, simp add: sevens_addr) (simp add: sevens_sels)
  then show ?thesis by (simp add: fetchstr_def sevens_cur Let_def sevens_pgdir)
qed

theorem syscall_arguments_checked_witness:
  "argptr env0 0 16 sevens = Inr (Some 0x07070707, sevens) \<and>
   fetchstr env0 0x0707070c sevens = Inr (Some (0x0707070c, [7, 7, 7, 7]), sevens) \<and>
   unat (0x07070707 :: uint) + 16 \<le> unat (psz (ptable sevens 0)) \<and> unat (0x0707070c :: uint) + 4 < unat (psz (ptable sevens 0))"
proof -
  have r: "runs_on env0 0 (hw sevens)" "cproc (cpus (hw sevens) ! 0) = Some 0" "psz (ptable sevens 0) \<le> KERNBASE"
    by (simp_all add: runs_on_def wf_cpus_def sevens_sels one_cpu_def env0_def cpu_upd_def init_proc_def KERNBASE_def)
  from syscall_arguments_checked [OF r _ sevens_argptr sevens_fetchstr] sevens_argptr sevens_fetchstr show ?thesis by simp
qed

end
