(* ===== verification/Sysfile.thy ===== *)
theory Sysfile
  imports Syscall
begin

text \<open>
  The file system calls of \<^verbatim>\<open>sysfile.c\<close>, apart from \<^verbatim>\<open>sys_exec\<close>. The device switch is an argument.
  A buffer a call passes to the kernel is read from user memory before the call and a buffer it fills is
  written after it: the pages below the size of a process are present, and nothing else
  uses them while the call runs.
\<close>

section \<open>File descriptors\<close>

definition argfd :: "kenv \<Rightarrow> nat \<Rightarrow> 'a proc_sys_scheme \<Rightarrow> ((nat \<times> nat) option \<times> 'a proc_sys_scheme) res" where
  "argfd K n s =
     rbind (argint K n s) (\<lambda>(r, s).
     case r of None \<Rightarrow> Inr (None, s)
     | Some fd \<Rightarrow>
         if sint fd < 0 \<or> int NOFILE \<le> sint fd then Inr (None, s)
         else rbind (curproc K s) (\<lambda>(cur, s).
              Inr (map_option (Pair (unat fd)) (fds (ptable s cur) (unat fd)), s)))"

definition fdalloc :: "kenv \<Rightarrow> nat \<Rightarrow> 'a proc_sys_scheme \<Rightarrow> (nat option \<times> 'a proc_sys_scheme) res" where
  "fdalloc K f s =
     rbind (curproc K s) (\<lambda>(cur, s).
     case find (\<lambda>fd. fds (ptable s cur) fd = None) [0..<NOFILE] of
       None \<Rightarrow> Inr (None, s)
     | Some fd \<Rightarrow> Inr (Some fd, upd_proc cur (\<lambda>p. p\<lparr>fds := (fds p)(fd := Some f)\<rparr>) s))"

definition clear_fd :: "kenv \<Rightarrow> nat \<Rightarrow> 'a proc_sys_scheme \<Rightarrow> 'a proc_sys_scheme res" where
  "clear_fd K fd s =
     rbind (curproc K s) (\<lambda>(cur, s). Inr (upd_proc cur (\<lambda>p. p\<lparr>fds := (fds p)(fd := None)\<rparr>) s))"

definition sys_dup :: "kenv \<Rightarrow> 'a proc_sys_scheme \<Rightarrow> (sysret \<times> 'a proc_sys_scheme) res" where
  "sys_dup K s =
     rbind (argfd K 0 s) (\<lambda>(r, s).
     case r of None \<Rightarrow> Inr (ret (- 1), s)
     | Some (_, f) \<Rightarrow>
         rbind (fdalloc K f s) (\<lambda>(r, s).
         case r of None \<Rightarrow> Inr (ret (- 1), s)
         | Some fd \<Rightarrow> rbind (filedup f s) (\<lambda>(_, s). Inr (ret (int fd), s))))"

definition sys_close :: "kenv \<Rightarrow> 'a proc_sys_scheme \<Rightarrow> (sysret \<times> 'a proc_sys_scheme) res" where
  "sys_close K s =
     rbind (argfd K 0 s) (\<lambda>(r, s).
     case r of None \<Rightarrow> Inr (ret (- 1), s)
     | Some (fd, f) \<Rightarrow>
         rbind (clear_fd K fd s) (\<lambda>s.
         rbind (fileclose f s) (\<lambda>s. Inr (ret 0, s))))"

section \<open>Reading and writing\<close>

text \<open>The arguments of \<^verbatim>\<open>sys_read\<close> and \<^verbatim>\<open>sys_write\<close>: the file, the length and the buffer.\<close>

definition arg_buffer :: "kenv \<Rightarrow> 'a proc_sys_scheme \<Rightarrow> ((nat \<times> int \<times> uint) option \<times> 'a proc_sys_scheme) res" where
  "arg_buffer K s =
     rbind (argfd K 0 s) (\<lambda>(r, s).
     case r of None \<Rightarrow> Inr (None, s)
     | Some (_, f) \<Rightarrow>
         rbind (argint K 2 s) (\<lambda>(r, s).
         case r of None \<Rightarrow> Inr (None, s)
         | Some n \<Rightarrow>
             rbind (argptr K 1 (sint n) s) (\<lambda>(r, s).
             Inr (map_option (\<lambda>p. (f, sint n, p)) r, s))))"

definition copy_to_user :: "kenv \<Rightarrow> uint \<Rightarrow> bytes \<Rightarrow> 'a proc_sys_scheme \<Rightarrow> 'a proc_sys_scheme res" where
  "copy_to_user K va bs s =
     rbind (curproc K s) (\<lambda>(cur, s).
     rbind (user_poke (pgdir (ptable s cur)) va bs (km s)) (\<lambda>k. Inr (s\<lparr>km := k\<rparr>)))"

definition sys_read ::
  "'a proc_sys_ext file_sys_ext dev_read \<Rightarrow> kenv \<Rightarrow> 'a proc_sys_scheme \<Rightarrow> (sysret \<times> 'a proc_sys_scheme) res" where
  "sys_read devsw K s =
     rbind (arg_buffer K s) (\<lambda>(r, s).
     case r of None \<Rightarrow> Inr (ret (- 1), s)
     | Some (f, n, p) \<Rightarrow>
         rbind (curproc K s) (\<lambda>(cur, s).
         rbind (fileread devsw (killed (ptable s cur)) f n s) (\<lambda>(r, bs, s).
         rbind (copy_to_user K p bs s) (\<lambda>s. Inr (ret r, s)))))"

definition sys_write ::
  "'a proc_sys_ext file_sys_ext dev_write \<Rightarrow> kenv \<Rightarrow> 'a proc_sys_scheme \<Rightarrow> (sysret \<times> 'a proc_sys_scheme) res" where
  "sys_write devsw K s =
     rbind (arg_buffer K s) (\<lambda>(r, s).
     case r of None \<Rightarrow> Inr (ret (- 1), s)
     | Some (f, n, p) \<Rightarrow>
         rbind (curproc K s) (\<lambda>(cur, s).
         rbind (user_peek (km s) (pgdir (ptable s cur)) p (nat n)) (\<lambda>bs.
         rbind (filewrite devsw (killed (ptable s cur)) f bs s) (\<lambda>(r, s). Inr (ret r, s)))))"

definition word_bytes :: "uint \<Rightarrow> bytes" where
  "word_bytes w = [byte_of 0 w, byte_of 1 w, byte_of 2 w, byte_of 3 w]"

text \<open>The fields of \<^verbatim>\<open>struct stat\<close>, with the offsets the compiler gives them; the padding keeps its value.\<close>

definition stat_fields :: "stat \<Rightarrow> (uint \<times> bytes) list" where
  "stat_fields st =
     [(4, word_bytes (st_dev st)), (8, word_bytes (st_ino st)), (0, [byte_of 0 (st_type st), byte_of 1 (st_type st)]),
      (12, [byte_of 0 (st_nlink st), byte_of 1 (st_nlink st)]), (16, word_bytes (st_size st))]"

definition sys_fstat :: "kenv \<Rightarrow> 'a proc_sys_scheme \<Rightarrow> (sysret \<times> 'a proc_sys_scheme) res" where
  "sys_fstat K s =
     rbind (argfd K 0 s) (\<lambda>(r, s).
     case r of None \<Rightarrow> Inr (ret (- 1), s)
     | Some (_, f) \<Rightarrow>
         rbind (argptr K 1 20 s) (\<lambda>(r, s).
         case r of None \<Rightarrow> Inr (ret (- 1), s)
         | Some p \<Rightarrow>
             rbind (filestat f s) (\<lambda>(st, s).
             case st of None \<Rightarrow> Inr (ret (- 1), s)
             | Some st \<Rightarrow>
                 rbind (for_each (\<lambda>(off, bs). copy_to_user K (p + off) bs) (stat_fields st) s) (\<lambda>s.
                 Inr (ret 0, s)))))"

section \<open>Links\<close>

text \<open>A path is looked up from the working directory unless it starts with a slash.\<close>

definition at_cwd :: "kenv \<Rightarrow> bytes \<Rightarrow> (nat \<Rightarrow> 'a proc_sys_scheme \<Rightarrow> 'b res) \<Rightarrow> 'a proc_sys_scheme \<Rightarrow> 'b res" where
  "at_cwd K path look s =
     (if path \<noteq> [] \<and> hd path = 47 then look 0 s
      else rbind (curproc K s) (\<lambda>(cur, s). case cwd (ptable s cur) of None \<Rightarrow> Inl Fault | Some d \<Rightarrow> look d s))"

definition upd_inode :: "nat \<Rightarrow> (inode \<Rightarrow> inode) \<Rightarrow> 'a fs_sys_scheme \<Rightarrow> 'a fs_sys_scheme" where
  "upd_inode ip f s = set_inode ip (f (inodes s ip)) s"

definition fail_op :: "'a proc_sys_scheme \<Rightarrow> (sysret \<times> 'a proc_sys_scheme) res" where
  "fail_op s = rbind (end_op s) (\<lambda>s. Inr (ret (- 1), s))"

definition drop_op :: "nat \<Rightarrow> 'a proc_sys_scheme \<Rightarrow> (sysret \<times> 'a proc_sys_scheme) res" where
  "drop_op ip s = rbind (iunlockput ip s) fail_op"

text \<open>The label \<^verbatim>\<open>bad\<close> of \<^verbatim>\<open>sys_link\<close>.\<close>

definition link_bad :: "nat \<Rightarrow> 'a proc_sys_scheme \<Rightarrow> (sysret \<times> 'a proc_sys_scheme) res" where
  "link_bad ip s =
     rbind (ilock ip s) (\<lambda>s.
     rbind (iupdate ip (upd_inode ip (\<lambda>i. i\<lparr>inlink := inlink i - 1\<rparr>) s)) (drop_op ip))"

text \<open>The new entry, once the link count is raised.\<close>

definition link_entry :: "kenv \<Rightarrow> bytes \<Rightarrow> nat \<Rightarrow> 'a proc_sys_scheme \<Rightarrow> (sysret \<times> 'a proc_sys_scheme) res" where
  "link_entry K new ip s =
     rbind (at_cwd K new (\<lambda>d. nameiparent d new) s) (\<lambda>(dp, name, s).
     case dp of None \<Rightarrow> link_bad ip s
     | Some dp \<Rightarrow>
         rbind (ilock dp s) (\<lambda>s.
         rbind (if idev (inodes s dp) \<noteq> idev (inodes s ip) then Inr (- 1, s)
                else dirlink dp name (inum (inodes s ip)) s) (\<lambda>(r, s).
         if r < 0 then rbind (iunlockput dp s) (link_bad ip)
         else rbind (iunlockput dp s) (\<lambda>s.
              rbind (iput ip s) (\<lambda>s.
              rbind (end_op s) (\<lambda>s. Inr (ret 0, s)))))))"

definition sys_link :: "kenv \<Rightarrow> 'a proc_sys_scheme \<Rightarrow> (sysret \<times> 'a proc_sys_scheme) res" where
  "sys_link K s =
     rbind (argstr K 0 s) (\<lambda>(r, s).
     case r of None \<Rightarrow> Inr (ret (- 1), s)
     | Some (_, old) \<Rightarrow>
         rbind (argstr K 1 s) (\<lambda>(r, s).
         case r of None \<Rightarrow> Inr (ret (- 1), s)
         | Some (_, new) \<Rightarrow>
             rbind (begin_op s) (\<lambda>s.
             rbind (at_cwd K old (\<lambda>d. namei d old) s) (\<lambda>(ip, s).
             case ip of None \<Rightarrow> fail_op s
             | Some ip \<Rightarrow>
                 rbind (ilock ip s) (\<lambda>s.
                 if itype (inodes s ip) = T_DIR then drop_op ip s
                 else rbind (iupdate ip (upd_inode ip (\<lambda>i. i\<lparr>inlink := inlink i + 1\<rparr>) s)) (\<lambda>s.
                      rbind (iunlock ip s) (link_entry K new ip)))))))"

text \<open>\<open>sz\<close> is \<^verbatim>\<open>dp->size\<close>, which the loop does not change.\<close>

function isdirempty_from :: "nat \<Rightarrow> nat \<Rightarrow> nat \<Rightarrow> 'a fs_sys_scheme \<Rightarrow> (bool \<times> 'a fs_sys_scheme) res" where
  "isdirempty_from sz dp off s =
     (if off < sz
      then rbind (readi (\<lambda>_. None) dp (of_nat off) (of_nat DIRENT) s) (\<lambda>(r, de, s).
           if r \<noteq> int DIRENT then Inl (Panic ''isdirempty: readi'')
           else if de_inum de \<noteq> 0 then Inr (False, s)
           else isdirempty_from sz dp (off + DIRENT) s)
      else Inr (True, s))"
  by pat_completeness auto
termination
  by (relation "measure (\<lambda>(sz, dp, off, s). sz - off)") auto

declare isdirempty_from.simps [simp del]

definition isdirempty :: "nat \<Rightarrow> 'a fs_sys_scheme \<Rightarrow> (bool \<times> 'a fs_sys_scheme) res" where
  "isdirempty dp s = isdirempty_from (unat (isize (inodes s dp))) dp (2 * DIRENT) s"

text \<open>Removing the entry at \<open>off\<close> of \<open>dp\<close>, which names \<open>ip\<close>; both are locked.\<close>

definition unlink_entry :: "nat \<Rightarrow> nat \<Rightarrow> uint \<Rightarrow> 'a proc_sys_scheme \<Rightarrow> (sysret \<times> 'a proc_sys_scheme) res" where
  "unlink_entry dp ip off s =
     rbind (writei (\<lambda>_. None) dp (replicate DIRENT 0) off s) (\<lambda>(r, s).
     if r \<noteq> int DIRENT then Inl (Panic ''unlink: writei'')
     else rbind (if itype (inodes s ip) = T_DIR
                 then iupdate dp (upd_inode dp (\<lambda>i. i\<lparr>inlink := inlink i - 1\<rparr>) s) else Inr s) (\<lambda>s.
          rbind (iunlockput dp s) (\<lambda>s.
          rbind (iupdate ip (upd_inode ip (\<lambda>i. i\<lparr>inlink := inlink i - 1\<rparr>) s)) (\<lambda>s.
          rbind (iunlockput ip s) (\<lambda>s.
          rbind (end_op s) (\<lambda>s. Inr (ret 0, s)))))))"

definition sys_unlink :: "kenv \<Rightarrow> 'a proc_sys_scheme \<Rightarrow> (sysret \<times> 'a proc_sys_scheme) res" where
  "sys_unlink K s =
     rbind (argstr K 0 s) (\<lambda>(r, s).
     case r of None \<Rightarrow> Inr (ret (- 1), s)
     | Some (_, path) \<Rightarrow>
         rbind (begin_op s) (\<lambda>s.
         rbind (at_cwd K path (\<lambda>d. nameiparent d path) s) (\<lambda>(dp, name, s).
         case dp of None \<Rightarrow> fail_op s
         | Some dp \<Rightarrow>
             rbind (ilock dp s) (\<lambda>s.
             if namecmp name [46] = 0 \<or> namecmp name [46, 46] = 0 then drop_op dp s
             else rbind (dirlookup dp name s) (\<lambda>(r, s).
             case r of None \<Rightarrow> drop_op dp s
             | Some (ip, off) \<Rightarrow>
                 rbind (ilock ip s) (\<lambda>s.
                 if sint (inlink (inodes s ip)) < 1 then Inl (Panic ''unlink: nlink < 1'')
                 else rbind (if itype (inodes s ip) = T_DIR then isdirempty ip s else Inr (True, s)) (\<lambda>(e, s).
                 if \<not> e then rbind (iunlockput ip s) (drop_op dp)
                 else unlink_entry dp ip off s)))))))"

section \<open>Creating and opening\<close>

text \<open>The entries \<^verbatim>\<open>.\<close> and \<^verbatim>\<open>..\<close> of a new directory.\<close>

definition create_dots :: "nat \<Rightarrow> nat \<Rightarrow> 'a fs_sys_scheme \<Rightarrow> 'a fs_sys_scheme res" where
  "create_dots dp ip s =
     rbind (iupdate dp (upd_inode dp (\<lambda>i. i\<lparr>inlink := inlink i + 1\<rparr>) s)) (\<lambda>s.
     rbind (dirlink ip [46] (inum (inodes s ip)) s) (\<lambda>(r, s).
     if r < 0 then Inl (Panic ''create dots'')
     else rbind (dirlink ip [46, 46] (inum (inodes s dp)) s) (\<lambda>(r, s).
     if r < 0 then Inl (Panic ''create dots'') else Inr s)))"

text \<open>A new inode under \<open>name\<close> in the locked directory \<open>dp\<close>. \<^verbatim>\<open>ialloc\<close> does not return without one.\<close>

definition create_new :: "nat \<Rightarrow> bytes \<Rightarrow> ushort \<Rightarrow> ushort \<Rightarrow> ushort \<Rightarrow> 'a fs_sys_scheme \<Rightarrow> (nat \<times> 'a fs_sys_scheme) res" where
  "create_new dp name type major minor s =
     rbind (ialloc (idev (inodes s dp)) type s) (\<lambda>(ip, s).
     rbind (ilock ip s) (\<lambda>s.
     rbind (iupdate ip (upd_inode ip (\<lambda>i. i\<lparr>imajor := major, iminor := minor, inlink := 1\<rparr>) s)) (\<lambda>s.
     rbind (if type = T_DIR then create_dots dp ip s else Inr s) (\<lambda>s.
     rbind (dirlink dp name (inum (inodes s ip)) s) (\<lambda>(r, s).
     if r < 0 then Inl (Panic ''create: dirlink'')
     else rbind (iunlockput dp s) (\<lambda>s. Inr (ip, s)))))))"

definition create ::
  "kenv \<Rightarrow> bytes \<Rightarrow> ushort \<Rightarrow> ushort \<Rightarrow> ushort \<Rightarrow> 'a proc_sys_scheme \<Rightarrow> (nat option \<times> 'a proc_sys_scheme) res" where
  "create K path type major minor s =
     rbind (at_cwd K path (\<lambda>d. nameiparent d path) s) (\<lambda>(dp, name, s).
     case dp of None \<Rightarrow> Inr (None, s)
     | Some dp \<Rightarrow>
         rbind (ilock dp s) (\<lambda>s.
         rbind (dirlookup dp name s) (\<lambda>(r, s).
         case r of
           Some (ip, _) \<Rightarrow>
             rbind (iunlockput dp s) (\<lambda>s.
             rbind (ilock ip s) (\<lambda>s.
             if type = T_FILE \<and> itype (inodes s ip) = T_FILE then Inr (Some ip, s)
             else rbind (iunlockput ip s) (\<lambda>s. Inr (None, s))))
         | None \<Rightarrow> rbind (create_new dp name type major minor s) (\<lambda>(ip, s). Inr (Some ip, s)))))"

abbreviation O_RDONLY :: uint where "O_RDONLY \<equiv> 0"
abbreviation O_WRONLY :: uint where "O_WRONLY \<equiv> 1"
abbreviation O_RDWR :: uint where "O_RDWR \<equiv> 2"
abbreviation O_CREATE :: uint where "O_CREATE \<equiv> 0x200"

text \<open>The locked inode to open; without one the transaction is over.\<close>

definition open_inode :: "kenv \<Rightarrow> bytes \<Rightarrow> uint \<Rightarrow> 'a proc_sys_scheme \<Rightarrow> (nat option \<times> 'a proc_sys_scheme) res" where
  "open_inode K path omode s =
     (let fail = \<lambda>s. rbind (end_op s) (\<lambda>s. Inr (None, s)) in
      if omode AND O_CREATE \<noteq> 0
      then rbind (create K path T_FILE 0 0 s) (\<lambda>(ip, s). if ip = None then fail s else Inr (ip, s))
      else rbind (at_cwd K path (\<lambda>d. namei d path) s) (\<lambda>(ip, s).
           case ip of None \<Rightarrow> fail s
           | Some ip \<Rightarrow>
               rbind (ilock ip s) (\<lambda>s.
               if itype (inodes s ip) = T_DIR \<and> omode \<noteq> O_RDONLY then rbind (iunlockput ip s) fail
               else Inr (Some ip, s))))"

text \<open>The file and the descriptor for it; a file without a descriptor is closed again.\<close>

definition open_file :: "kenv \<Rightarrow> 'a proc_sys_scheme \<Rightarrow> ((nat \<times> nat) option \<times> 'a proc_sys_scheme) res" where
  "open_file K s =
     (case filealloc s of
        (None, s) \<Rightarrow> Inr (None, s)
      | (Some f, s) \<Rightarrow>
          rbind (fdalloc K f s) (\<lambda>(r, s).
          case r of None \<Rightarrow> rbind (fileclose f s) (\<lambda>s. Inr (None, s))
          | Some fd \<Rightarrow> Inr (Some (f, fd), s)))"

definition sys_open :: "kenv \<Rightarrow> 'a proc_sys_scheme \<Rightarrow> (sysret \<times> 'a proc_sys_scheme) res" where
  "sys_open K s =
     rbind (argstr K 0 s) (\<lambda>(r, s).
     case r of None \<Rightarrow> Inr (ret (- 1), s)
     | Some (_, path) \<Rightarrow>
         rbind (argint K 1 s) (\<lambda>(r, s).
         case r of None \<Rightarrow> Inr (ret (- 1), s)
         | Some omode \<Rightarrow>
             rbind (begin_op s) (\<lambda>s.
             rbind (open_inode K path omode s) (\<lambda>(ip, s).
             case ip of None \<Rightarrow> Inr (ret (- 1), s)
             | Some ip \<Rightarrow>
                 rbind (open_file K s) (\<lambda>(r, s).
                 case r of None \<Rightarrow> drop_op ip s
                 | Some (f, fd) \<Rightarrow>
                     rbind (iunlock ip s) (\<lambda>s.
                     rbind (end_op s) (\<lambda>s.
                     Inr (ret (int fd),
                       set_file f ((files s f)\<lparr>ftype := FD_INODE, fip := ip, foff := 0, freadable := (omode AND O_WRONLY = 0),
                         fwritable := (omode AND O_WRONLY \<noteq> 0 \<or> omode AND O_RDWR \<noteq> 0)\<rparr>) s))))))))"

text \<open>The common end of \<^verbatim>\<open>sys_mkdir\<close> and \<^verbatim>\<open>sys_mknod\<close>.\<close>

definition make_node :: "kenv \<Rightarrow> bytes \<Rightarrow> ushort \<Rightarrow> ushort \<Rightarrow> ushort \<Rightarrow> 'a proc_sys_scheme \<Rightarrow> (sysret \<times> 'a proc_sys_scheme) res" where
  "make_node K path type major minor s =
     rbind (create K path type major minor s) (\<lambda>(ip, s).
     case ip of None \<Rightarrow> fail_op s
     | Some ip \<Rightarrow> rbind (iunlockput ip s) (\<lambda>s. rbind (end_op s) (\<lambda>s. Inr (ret 0, s))))"

definition sys_mkdir :: "kenv \<Rightarrow> 'a proc_sys_scheme \<Rightarrow> (sysret \<times> 'a proc_sys_scheme) res" where
  "sys_mkdir K s =
     rbind (begin_op s) (\<lambda>s.
     rbind (argstr K 0 s) (\<lambda>(r, s).
     case r of None \<Rightarrow> fail_op s | Some (_, path) \<Rightarrow> make_node K path T_DIR 0 0 s))"

definition sys_mknod :: "kenv \<Rightarrow> 'a proc_sys_scheme \<Rightarrow> (sysret \<times> 'a proc_sys_scheme) res" where
  "sys_mknod K s =
     rbind (begin_op s) (\<lambda>s.
     rbind (argstr K 0 s) (\<lambda>(r, s).
     case r of None \<Rightarrow> fail_op s
     | Some (_, path) \<Rightarrow>
         rbind (argint K 1 s) (\<lambda>(r, s).
         case r of None \<Rightarrow> fail_op s
         | Some major \<Rightarrow>
             rbind (argint K 2 s) (\<lambda>(r, s).
             case r of None \<Rightarrow> fail_op s
             | Some minor \<Rightarrow> make_node K path T_DEV (ucast major) (ucast minor) s))))"

definition sys_chdir :: "kenv \<Rightarrow> 'a proc_sys_scheme \<Rightarrow> (sysret \<times> 'a proc_sys_scheme) res" where
  "sys_chdir K s =
     rbind (curproc K s) (\<lambda>(cur, s).
     rbind (begin_op s) (\<lambda>s.
     rbind (argstr K 0 s) (\<lambda>(r, s).
     case r of None \<Rightarrow> fail_op s
     | Some (_, path) \<Rightarrow>
         rbind (at_cwd K path (\<lambda>d. namei d path) s) (\<lambda>(ip, s).
         case ip of None \<Rightarrow> fail_op s
         | Some ip \<Rightarrow>
             rbind (ilock ip s) (\<lambda>s.
             if itype (inodes s ip) \<noteq> T_DIR then drop_op ip s
             else rbind (iunlock ip s) (\<lambda>s.
                  case cwd (ptable s cur) of None \<Rightarrow> Inl Fault
                  | Some d \<Rightarrow>
                      rbind (iput d s) (\<lambda>s.
                      rbind (end_op s) (\<lambda>s.
                      Inr (ret 0, upd_proc cur (\<lambda>p. p\<lparr>cwd := Some ip\<rparr>) s)))))))))"

text \<open>The two descriptors of a pipe; if there are not two, both files are closed again.\<close>

definition sys_pipe :: "kenv \<Rightarrow> 'a proc_sys_scheme \<Rightarrow> (sysret \<times> 'a proc_sys_scheme) res" where
  "sys_pipe K s =
     rbind (argptr K 0 8 s) (\<lambda>(r, s).
     case r of None \<Rightarrow> Inr (ret (- 1), s)
     | Some fd \<Rightarrow>
         rbind (pipealloc s) (\<lambda>(r, s).
         case r of None \<Rightarrow> Inr (ret (- 1), s)
         | Some (rf, wrf) \<Rightarrow>
             let undo = \<lambda>s. rbind (fileclose rf s) (\<lambda>s. rbind (fileclose wrf s) (\<lambda>s. Inr (ret (- 1), s))) in
             rbind (fdalloc K rf s) (\<lambda>(r, s).
             case r of None \<Rightarrow> undo s
             | Some fd0 \<Rightarrow>
                 rbind (fdalloc K wrf s) (\<lambda>(r, s).
                 case r of None \<Rightarrow> rbind (clear_fd K fd0 s) undo
                 | Some fd1 \<Rightarrow>
                     rbind (copy_to_user K fd (word_bytes (of_nat fd0)) s) (\<lambda>s.
                     rbind (copy_to_user K (fd + 4) (word_bytes (of_nat fd1)) s) (\<lambda>s.
                     Inr (ret 0, s)))))))"

end
