(* ===== verification/Exec.thy ===== *)
theory Exec
  imports Sysfile Kbd
begin

text \<open>
  \<^verbatim>\<open>exec.c\<close>, \<^verbatim>\<open>loaduvm\<close> of \<^verbatim>\<open>vm.c\<close> and the console as a device file. The ELF headers are read
  at the offsets of \<^verbatim>\<open>elf.h\<close>. The path and the arguments of \<^verbatim>\<open>exec\<close> lie in the memory of the old
  program, which stays as it is until the new image is complete, and are passed as their bytes.
\<close>

section \<open>The console as a device\<close>

definition kprint :: "bytes \<Rightarrow> 'a kern_sys_scheme \<Rightarrow> 'a kern_sys_scheme res" where
  "kprint cs s = rbind (putchars cs (cons s)) (\<lambda>c. Inr (s\<lparr>cons := c\<rparr>))"

abbreviation CONSOLE :: nat where "CONSOLE \<equiv> 1"

definition devsw_read :: "kenv \<Rightarrow> 'a kern_sys_ext proc_sys_ext file_sys_ext dev_read" where
  "devsw_read K major =
     (if major = CONSOLE
      then Some (\<lambda>ip n s.
        rbind (iunlock ip s) (\<lambda>s.
        rbind (curproc K s) (\<lambda>(cur, s).
        case consoleread (killed (ptable s cur)) (sint n) (cons s) of
          Returned r bs c \<Rightarrow> rbind (ilock ip (s\<lparr>cons := c\<rparr>)) (\<lambda>s. Inr (r, bs, s))
        | Sleeps _ _ _ \<Rightarrow> Inl Sleep)))
      else None)"

definition devsw_write :: "'a kern_sys_ext proc_sys_ext file_sys_ext dev_write" where
  "devsw_write major =
     (if major = CONSOLE
      then Some (\<lambda>ip bs s.
        rbind (iunlock ip s) (\<lambda>s.
        rbind (consolewrite bs (cons s)) (\<lambda>(r, c).
        rbind (ilock ip (s\<lparr>cons := c\<rparr>)) (\<lambda>s. Inr (r, s)))))
      else None)"

section \<open>Loading a segment\<close>

text \<open>
  \<open>i\<close> and \<open>sz\<close> are naturals: the loop ends at the first page the file does not fill, long before \<open>i\<close>
  reaches \<open>2 ^ 32\<close>, because a file has at most 140 blocks.
\<close>

function loaduvm_loop ::
  "'b file_sys_ext dev_read \<Rightarrow> uint \<Rightarrow> uint \<Rightarrow> nat \<Rightarrow> uint \<Rightarrow> nat \<Rightarrow> nat \<Rightarrow> 'b file_sys_scheme \<Rightarrow> (int \<times> 'b file_sys_scheme) res" where
  "loaduvm_loop devsw d addr ip offset sz i s =
     (if i < sz
      then case fst (walkpgdir d (addr + of_nat i) False (km s)) of
             None \<Rightarrow> Inl (Panic ''loaduvm: address should exist'')
           | Some pte \<Rightarrow>
               let pa = PTE_ADDR (load32 (ram (km s)) pte);
                   n = (if sz - i < 4096 then sz - i else 4096) in
               rbind (readi devsw ip (offset + of_nat i) (of_nat n) s) (\<lambda>(r, bs, s).
               let s = s\<lparr>km := (km s)\<lparr>ram := poke (P2V pa) bs (ram (km s))\<rparr>\<rparr> in
               if r \<noteq> int n then Inr (- 1, s) else loaduvm_loop devsw d addr ip offset sz (i + 4096) s)
      else Inr (0, s))"
  by pat_completeness auto
termination
  by (relation "measure (\<lambda>(devsw, d, addr, ip, offset, sz, i, s). sz - i)") auto

declare loaduvm_loop.simps [simp del]

definition loaduvm ::
  "'b file_sys_ext dev_read \<Rightarrow> uint \<Rightarrow> uint \<Rightarrow> nat \<Rightarrow> uint \<Rightarrow> uint \<Rightarrow> 'b file_sys_scheme \<Rightarrow> (int \<times> 'b file_sys_scheme) res" where
  "loaduvm devsw d addr ip offset sz s =
     (if unat addr mod 4096 \<noteq> 0 then Inl (Panic ''loaduvm: addr must be page aligned'')
      else loaduvm_loop devsw d addr ip offset (unat sz) 0 s)"

section \<open>Building an image\<close>

abbreviation ELF_MAGIC :: uint where "ELF_MAGIC \<equiv> 0x464C457F"
abbreviation ELF_PROG_LOAD :: uint where "ELF_PROG_LOAD \<equiv> 1"
abbreviation MAXARG :: nat where "MAXARG \<equiv> 32"

record proghdr =
  ph_type :: uint
  ph_off :: uint
  ph_vaddr :: uint
  ph_filesz :: uint
  ph_memsz :: uint

definition get_proghdr :: "bytes \<Rightarrow> proghdr" where
  "get_proghdr b = \<lparr>ph_type = get32 b 0, ph_off = get32 b 4, ph_vaddr = get32 b 8, ph_filesz = get32 b 16, ph_memsz = get32 b 20\<rparr>"

definition elf_magic :: "bytes \<Rightarrow> uint" where "elf_magic b = get32 b 0"
definition elf_entry :: "bytes \<Rightarrow> uint" where "elf_entry b = get32 b 24"
definition elf_phoff :: "bytes \<Rightarrow> uint" where "elf_phoff b = get32 b 28"
definition elf_phnum :: "bytes \<Rightarrow> ushort" where "elf_phnum b = get16 b 44"

text \<open>The size after loading the remaining \<open>k\<close> segments, or \<open>None\<close> for \<^verbatim>\<open>goto bad\<close>.\<close>

fun exec_segments ::
  "'b file_sys_ext dev_read \<Rightarrow> uint \<Rightarrow> nat \<Rightarrow> nat \<Rightarrow> uint \<Rightarrow> uint \<Rightarrow> 'b file_sys_scheme \<Rightarrow> (uint option \<times> 'b file_sys_scheme) res" where
  "exec_segments devsw d ip 0 off sz s = Inr (Some sz, s)"
| "exec_segments devsw d ip (Suc k) off sz s =
     rbind (readi devsw ip off 32 s) (\<lambda>(r, b, s).
     let ph = get_proghdr b in
     if r \<noteq> 32 then Inr (None, s)
     else if ph_type ph \<noteq> ELF_PROG_LOAD then exec_segments devsw d ip k (off + 32) sz s
     else if ph_memsz ph < ph_filesz ph then Inr (None, s)
     else if ph_vaddr ph + ph_memsz ph < ph_vaddr ph then Inr (None, s)
     else rbind (allocuvm d sz (ph_vaddr ph + ph_memsz ph) (km s)) (\<lambda>(sz, m).
          let s = s\<lparr>km := m\<rparr> in
          if sz = 0 then Inr (None, s)
          else if unat (ph_vaddr ph) mod 4096 \<noteq> 0 then Inr (None, s)
          else rbind (loaduvm devsw d (ph_vaddr ph) ip (ph_off ph) (ph_filesz ph) s) (\<lambda>(r, s).
               if r < 0 then Inr (None, s) else exec_segments devsw d ip k (off + 32) sz s)))"

text \<open>Pushing the argument strings: the stack pointer and the addresses of the strings.\<close>

fun exec_push :: "uint \<Rightarrow> bytes list \<Rightarrow> nat \<Rightarrow> uint \<Rightarrow> 'a kmem_scheme \<Rightarrow> ((uint \<times> uint list) option \<times> 'a kmem_scheme) res" where
  "exec_push d [] argc sp k = Inr (Some (sp, []), k)"
| "exec_push d (arg # argv) argc sp k =
     (if MAXARG \<le> argc then Inr (None, k)
      else let sp = (sp - of_nat (length arg + 1)) AND NOT 3 in
           rbind (copyout d sp (arg @ [0]) k) (\<lambda>(r, k).
           if r < 0 then Inr (None, k)
           else rbind (exec_push d argv (Suc argc) sp k) (\<lambda>(x, k).
                Inr (map_option (\<lambda>(sp', us). (sp', sp # us)) x, k))))"

definition exec_stack :: "uint \<Rightarrow> uint \<Rightarrow> bytes list \<Rightarrow> 'a kmem_scheme \<Rightarrow> ((uint \<times> uint) option \<times> 'a kmem_scheme) res" where
  "exec_stack d sz argv k =
     (let sz = PGROUNDUP sz; argc = of_nat (length argv) in
      rbind (allocuvm d sz (sz + 2 * PGSIZE) k) (\<lambda>(sz, k).
      if sz = 0 then Inr (None, k)
      else rbind (clearpteu d (sz - 2 * PGSIZE) k) (\<lambda>k.
           rbind (exec_push d argv 0 sz k) (\<lambda>(x, k).
           case x of None \<Rightarrow> Inr (None, k)
           | Some (sp, us) \<Rightarrow>
               let ustack = [0xFFFFFFFF, argc, sp - (argc + 1) * 4] @ us @ [0];
                   sp = sp - (3 + argc + 1) * 4 in
               rbind (copyout d sp (concat (map word_bytes ustack)) k) (\<lambda>(r, k).
               if r < 0 then Inr (None, k) else Inr (Some (sz, sp), k))))))"

text \<open>The label \<^verbatim>\<open>bad\<close>: \<open>d\<close> is null or the new page table, \<open>ip\<close> the inode that is still locked.\<close>

definition exec_bad :: "uint \<Rightarrow> nat option \<Rightarrow> 'a proc_sys_scheme \<Rightarrow> (int \<times> 'a proc_sys_scheme) res" where
  "exec_bad d ip s =
     rbind (if d \<noteq> 0 then rbind (freevm d (km s)) (\<lambda>k. Inr (s\<lparr>km := k\<rparr>)) else Inr s) (\<lambda>s.
     case ip of None \<Rightarrow> Inr (- 1, s)
     | Some ip \<Rightarrow> rbind (iunlockput ip s) (\<lambda>s. rbind (end_op s) (\<lambda>s. Inr (- 1, s))))"

definition last_element :: "bytes \<Rightarrow> bytes" where
  "last_element path = rev (takeWhile (\<lambda>c. c \<noteq> 47) (rev path))"

definition exec_commit ::
  "kenv \<Rightarrow> nat \<Rightarrow> uint \<Rightarrow> uint \<Rightarrow> uint \<Rightarrow> uint \<Rightarrow> bytes \<Rightarrow> 'a proc_sys_scheme \<Rightarrow> (int \<times> 'a proc_sys_scheme) res" where
  "exec_commit K cur d sz sp eip path s =
     (let old = pgdir (ptable s cur);
          s = upd_proc cur (\<lambda>p. p\<lparr>pname := set_name (last_element path @ [0]) (pname p), pgdir := d, psz := sz\<rparr>) s;
          s = set_ram (store32 (tf (ptable s cur) + TF_eip) eip) s;
          s = set_ram (store32 (tf (ptable s cur) + TF_esp) sp) s
      in rbind (switchuvm K (Some cur) s) (\<lambda>s.
         rbind (freevm old (km s)) (\<lambda>k. Inr (0, s\<lparr>km := k\<rparr>))))"

text \<open>The part of \<^verbatim>\<open>exec\<close> with the locked inode \<open>ip\<close> of the program.\<close>

definition exec_inode ::
  "'a proc_sys_ext file_sys_ext dev_read \<Rightarrow> kenv \<Rightarrow> nat \<Rightarrow> bytes \<Rightarrow> bytes list \<Rightarrow> nat \<Rightarrow> 'a proc_sys_scheme \<Rightarrow> (int \<times> 'a proc_sys_scheme) res" where
  "exec_inode devsw K cur path argv ip s =
     rbind (readi devsw ip 0 52 s) (\<lambda>(r, elf, s).
     if r \<noteq> 52 \<or> elf_magic elf \<noteq> ELF_MAGIC then exec_bad 0 (Some ip) s
     else rbind (setupkvm (kdata_at K) (km s)) (\<lambda>(d, k).
          let s = s\<lparr>km := k\<rparr> in
          if d = 0 then exec_bad 0 (Some ip) s
          else rbind (exec_segments devsw d ip (unat (elf_phnum elf)) (elf_phoff elf) 0 s) (\<lambda>(sz, s).
               case sz of None \<Rightarrow> exec_bad d (Some ip) s
               | Some sz \<Rightarrow>
                   rbind (iunlockput ip s) (\<lambda>s.
                   rbind (end_op s) (\<lambda>s.
                   rbind (exec_stack d sz argv (km s)) (\<lambda>(r, k).
                   let s = s\<lparr>km := k\<rparr> in
                   case r of None \<Rightarrow> exec_bad d None s
                   | Some (sz, sp) \<Rightarrow> exec_commit K cur d sz sp (elf_entry elf) path s))))))"

definition exec :: "kenv \<Rightarrow> bytes \<Rightarrow> bytes list \<Rightarrow> 'a kern_sys_scheme \<Rightarrow> (int \<times> 'a kern_sys_scheme) res" where
  "exec K path argv s =
     rbind (curproc K s) (\<lambda>(cur, s).
     rbind (begin_op s) (\<lambda>s.
     rbind (at_cwd K path (\<lambda>d. namei d path) s) (\<lambda>(ip, s).
     case ip of
       None \<Rightarrow> rbind (end_op s) (\<lambda>s. rbind (kprint (ascii ''exec: fail'' @ [10]) s) (\<lambda>s. Inr (- 1, s)))
     | Some ip \<Rightarrow> rbind (ilock ip s) (exec_inode (devsw_read K) K cur path argv ip))))"

section \<open>The system call\<close>

function exec_args :: "kenv \<Rightarrow> uint \<Rightarrow> nat \<Rightarrow> 'a proc_sys_scheme \<Rightarrow> (bytes list option \<times> 'a proc_sys_scheme) res" where
  "exec_args K uargv i s =
     (if MAXARG \<le> i then Inr (None, s)
      else rbind (fetchint K (uargv + 4 * of_nat i) s) (\<lambda>(r, s).
           case r of None \<Rightarrow> Inr (None, s)
           | Some uarg \<Rightarrow>
               if uarg = 0 then Inr (Some [], s)
               else rbind (fetchstr K uarg s) (\<lambda>(r, s).
                    case r of None \<Rightarrow> Inr (None, s)
                    | Some (_, str) \<Rightarrow>
                        rbind (exec_args K uargv (Suc i) s) (\<lambda>(r, s). Inr (map_option ((#) str) r, s)))))"
  by pat_completeness auto
termination
  by (relation "measure (\<lambda>(K, uargv, i, s). MAXARG - i)") auto

declare exec_args.simps [simp del]

definition sys_exec :: "kenv \<Rightarrow> 'a kern_sys_scheme \<Rightarrow> (sysret \<times> 'a kern_sys_scheme) res" where
  "sys_exec K s =
     rbind (argstr K 0 s) (\<lambda>(r, s).
     case r of None \<Rightarrow> Inr (ret (- 1), s)
     | Some (_, path) \<Rightarrow>
         rbind (argint K 1 s) (\<lambda>(r, s).
         case r of None \<Rightarrow> Inr (ret (- 1), s)
         | Some uargv \<Rightarrow>
             rbind (exec_args K uargv 0 s) (\<lambda>(r, s).
             case r of None \<Rightarrow> Inr (ret (- 1), s)
             | Some argv \<Rightarrow> rbind (exec K path argv s) (\<lambda>(r, s). Inr (ret r, s)))))"

end
