(* ===== verification/Descriptors.thy ===== *)
theory Descriptors
  imports Prelude
begin

text \<open>
  The descriptors of \<^verbatim>\<open>mmu.h\<close> that the processor reads, field by field with the widths of their bit
  fields: the segments \<^verbatim>\<open>seginit\<close> sets up and the gates of the interrupt table \<^verbatim>\<open>tvinit\<close> fills.
\<close>

section \<open>Segments\<close>

record segdesc =
  lim_15_0 :: "16 word"
  base_15_0 :: "16 word"
  base_23_16 :: "8 word"
  seg_type :: "4 word"
  seg_s :: "1 word"
  seg_dpl :: "2 word"
  seg_p :: "1 word"
  lim_19_16 :: "4 word"
  seg_avl :: "1 word"
  seg_rsv1 :: "1 word"
  seg_db :: "1 word"
  seg_g :: "1 word"
  base_31_24 :: "8 word"

definition SEG :: "4 word \<Rightarrow> uint \<Rightarrow> uint \<Rightarrow> 2 word \<Rightarrow> segdesc" where
  "SEG type base lim dpl =
     \<lparr>lim_15_0 = ucast (drop_bit 12 lim AND 0xFFFF), base_15_0 = ucast (base AND 0xFFFF),
      base_23_16 = ucast (drop_bit 16 base AND 0xFF), seg_type = type, seg_s = 1, seg_dpl = dpl, seg_p = 1,
      lim_19_16 = ucast (drop_bit 28 lim), seg_avl = 0, seg_rsv1 = 0, seg_db = 1, seg_g = 1,
      base_31_24 = ucast (drop_bit 24 base)\<rparr>"

definition SEG16 :: "4 word \<Rightarrow> uint \<Rightarrow> uint \<Rightarrow> 2 word \<Rightarrow> segdesc" where
  "SEG16 type base lim dpl =
     \<lparr>lim_15_0 = ucast (lim AND 0xFFFF), base_15_0 = ucast (base AND 0xFFFF),
      base_23_16 = ucast (drop_bit 16 base AND 0xFF), seg_type = type, seg_s = 1, seg_dpl = dpl, seg_p = 1,
      lim_19_16 = ucast (drop_bit 16 lim), seg_avl = 0, seg_rsv1 = 0, seg_db = 1, seg_g = 0,
      base_31_24 = ucast (drop_bit 24 base)\<rparr>"

abbreviation SEG_KCODE :: nat where "SEG_KCODE \<equiv> 1"
abbreviation SEG_KDATA :: nat where "SEG_KDATA \<equiv> 2"
abbreviation SEG_UCODE :: nat where "SEG_UCODE \<equiv> 3"
abbreviation SEG_UDATA :: nat where "SEG_UDATA \<equiv> 4"
abbreviation STA_X :: "4 word" where "STA_X \<equiv> 8"
abbreviation STA_W :: "4 word" where "STA_W \<equiv> 2"
abbreviation STA_R :: "4 word" where "STA_R \<equiv> 2"

text \<open>The segment table of the processor that runs \<^verbatim>\<open>seginit\<close>.\<close>

definition seginit :: "segdesc list \<Rightarrow> segdesc list" where
  "seginit gdt =
     gdt[SEG_KCODE := SEG (STA_X OR STA_R) 0 0xFFFFFFFF 0, SEG_KDATA := SEG STA_W 0 0xFFFFFFFF 0,
         SEG_UCODE := SEG (STA_X OR STA_R) 0 0xFFFFFFFF 3, SEG_UDATA := SEG STA_W 0 0xFFFFFFFF 3]"

section \<open>Gates\<close>

record gatedesc =
  off_15_0 :: "16 word"
  gate_cs :: "16 word"
  gate_args :: "5 word"
  gate_rsv1 :: "3 word"
  gate_type :: "4 word"
  gate_s :: "1 word"
  gate_dpl :: "2 word"
  gate_p :: "1 word"
  off_31_16 :: "16 word"

abbreviation STS_IG32 :: "4 word" where "STS_IG32 \<equiv> 0xE"
abbreviation STS_TG32 :: "4 word" where "STS_TG32 \<equiv> 0xF"

definition SETGATE :: "bool \<Rightarrow> 16 word \<Rightarrow> uint \<Rightarrow> 2 word \<Rightarrow> gatedesc" where
  "SETGATE istrap sel off d =
     \<lparr>off_15_0 = ucast (off AND 0xFFFF), gate_cs = sel, gate_args = 0, gate_rsv1 = 0,
      gate_type = (if istrap then STS_TG32 else STS_IG32), gate_s = 0, gate_dpl = d, gate_p = 1,
      off_31_16 = ucast (drop_bit 16 off)\<rparr>"

definition tvinit_idt :: "(nat \<Rightarrow> uint) \<Rightarrow> (nat \<Rightarrow> gatedesc) \<Rightarrow> nat \<Rightarrow> gatedesc" where
  "tvinit_idt vectors idt =
     (let idt = fold (\<lambda>i g. g(i := SETGATE False 8 (vectors i) 0)) [0..<256] idt
      in idt(64 := SETGATE True 8 (vectors 64) 3))"

section \<open>What the processor makes of them\<close>

definition seg_base :: "segdesc \<Rightarrow> uint" where
  "seg_base g = push_bit 24 (ucast (base_31_24 g)) OR push_bit 16 (ucast (base_23_16 g)) OR ucast (base_15_0 g)"

text \<open>The last offset inside the segment; with granularity 1 the limit counts pages.\<close>

definition seg_limit :: "segdesc \<Rightarrow> uint" where
  "seg_limit g =
     (let l = push_bit 16 (ucast (lim_19_16 g)) OR ucast (lim_15_0 g) in if seg_g g = 1 then push_bit 12 l OR 0xFFF else l)"

definition gate_off :: "gatedesc \<Rightarrow> uint" where
  "gate_off g = push_bit 16 (ucast (off_31_16 g)) OR ucast (off_15_0 g)"

lemma low_bits: "(0xFFFF :: uint) = mask 16" "(0xFF :: uint) = mask 8" "(0xFFF :: uint) = mask 12"
  by (simp_all add: mask_eq_exp_minus_1)

lemma below_gap: "\<not> bit w (k + (n - k)) \<Longrightarrow> bit w n \<Longrightarrow> n < k"
  by (cases "k \<le> n") auto

lemma gate_off_SETGATE [simp]: "gate_off (SETGATE t sel off d) = off"
  unfolding gate_off_def SETGATE_def low_bits
  by (rule bit_word_eqI) (auto simp: bit_simps)

lemma seg_base_SEG [simp]: "seg_base (SEG t base lim d) = base"
  unfolding seg_base_def SEG_def low_bits
  by (rule bit_word_eqI) (auto simp: bit_simps dest!: below_gap)

lemma seg_limit_SEG [simp]: "seg_limit (SEG t base lim d) = lim OR 0xFFF"
  unfolding seg_limit_def SEG_def low_bits Let_def
  by (simp, intro bit_word_eqI) (auto simp: bit_simps dest!: below_gap)

lemma tvinit_idt_gate:
  "tvinit_idt vectors idt i =
     (if i = 64 then SETGATE True 8 (vectors 64) 3 else if i < 256 then SETGATE False 8 (vectors i) 0 else idt i)"
proof -
  have "fold (\<lambda>i g. g(i := SETGATE False 8 (vectors i) 0)) [0..<n] idt =
     (\<lambda>i. if i < n then SETGATE False 8 (vectors i) 0 else idt i)" for n
    by (induction n) (auto simp: less_Suc_eq)
  then show ?thesis by (simp add: tvinit_idt_def)
qed

text \<open>C36: the descriptors protect the kernel. After \<^verbatim>\<open>tvinit\<close> every vector enters the kernel's code segment at its
  own entry point; user code can invoke only the system call gate, and every other gate disables interrupts. After
  \<^verbatim>\<open>seginit\<close> the four segments map the whole address space identically, and exactly the user segments are
  open to user mode.\<close>

theorem descriptors_protect:
  assumes "i < 256" and "length gdt = 6" and "j \<in> {1..4}"
  shows "gate_off (tvinit_idt vectors idt i) = vectors i \<and> gate_cs (tvinit_idt vectors idt i) = of_nat (8 * SEG_KCODE)
     \<and> gate_p (tvinit_idt vectors idt i) = 1
     \<and> (gate_dpl (tvinit_idt vectors idt i) = 3 \<longleftrightarrow> i = 64) \<and> (gate_dpl (tvinit_idt vectors idt i) = 0 \<longleftrightarrow> i \<noteq> 64)
     \<and> gate_type (tvinit_idt vectors idt i) = (if i = 64 then STS_TG32 else STS_IG32)
     \<and> seg_base (seginit gdt ! j) = 0 \<and> seg_limit (seginit gdt ! j) = - 1
     \<and> seg_dpl (seginit gdt ! j) = (if j = SEG_UCODE \<or> j = SEG_UDATA then 3 else 0)"
proof -
  have j: "j = 1 \<or> j = 2 \<or> j = 3 \<or> j = 4" using assms(3) by auto
  have "seg_base (seginit gdt ! j) = 0" "seg_limit (seginit gdt ! j) = - 1"
    "seg_dpl (seginit gdt ! j) = (if j = SEG_UCODE \<or> j = SEG_UDATA then 3 else 0)"
    using j assms(2) by (auto simp: seginit_def, auto simp: SEG_def)
  then show ?thesis
    using assms(1) by (simp add: tvinit_idt_gate, simp add: SETGATE_def)
qed

theorem descriptors_protect_witness:
  "gate_off (tvinit_idt (\<lambda>i. 0x80100000 + of_nat i) (\<lambda>_. SETGATE False 0 0 0) 14) = 0x8010000E
    \<and> gate_dpl (tvinit_idt (\<lambda>i. 0x80100000 + of_nat i) (\<lambda>_. SETGATE False 0 0 0) 14) = 0
    \<and> seg_dpl (seginit (replicate 6 (SEG 0 0 0 0)) ! 3) = 3"
  using descriptors_protect [of 14 "replicate 6 (SEG 0 0 0 0)" 3 "\<lambda>i. 0x80100000 + of_nat i" "\<lambda>_. SETGATE False 0 0 0"]
  by simp

end
