(* ===== verification/Trap.thy ===== *)
theory Trap
  imports Exec Descriptors
begin

text \<open>
  The system call table and dispatch of \<^verbatim>\<open>syscall.c\<close> and the trap handler \<^verbatim>\<open>trap.c\<close>. The state
  is the whole kernel; the devices supply what an interrupt delivers.
\<close>

section \<open>System call dispatch\<close>

definition syscalls :: "kenv \<Rightarrow> ('a kern_sys_scheme \<Rightarrow> (sysret \<times> 'a kern_sys_scheme) res) option list" where
  "syscalls K =
     [None, Some (sys_fork K), Some (sys_exit K), Some (sys_wait K), Some (sys_pipe K), Some (sys_read (devsw_read K) K),
      Some (sys_kill K), Some (sys_exec K), Some (sys_fstat K), Some (sys_chdir K), Some (sys_dup K), Some (sys_getpid K),
      Some (sys_sbrk K), Some (sys_sleep K), Some (sys_uptime K), Some (sys_open K), Some (sys_write devsw_write K),
      Some (sys_mknod K), Some (sys_unlink K), Some (sys_link K), Some (sys_mkdir K), Some (sys_close K)]"

definition dec :: "uint \<Rightarrow> bytes" where
  "dec w = printint digits_lower w 10 True"

definition hexa :: "uint \<Rightarrow> bytes" where
  "hexa w = printint digits_lower w 16 False"

definition proc_label :: "proc \<Rightarrow> bytes" where
  "proc_label p = dec (of_int (pid p)) @ [32] @ takeWhile (\<lambda>c. c \<noteq> 0) (pname p)"

text \<open>The value of a call that returned, stored into the frame; other calls have not returned yet.\<close>

definition set_result :: "kenv \<Rightarrow> sysret \<Rightarrow> 'a kern_sys_scheme \<Rightarrow> (sysret \<times> 'a kern_sys_scheme) res" where
  "set_result K r s =
     (case r of
        Ret_val v \<Rightarrow>
          rbind (curproc K s) (\<lambda>(cur, s). Inr (r, set_ram (store32 (tf (ptable s cur) + TF_eax) v) s))
      | _ \<Rightarrow> Inr (r, s))"

text \<open>The locks of the file system name their holder by its pid, \<^const>\<open>curpid\<close> of the state.\<close>

definition syscall :: "kenv \<Rightarrow> 'a kern_sys_scheme \<Rightarrow> (sysret \<times> 'a kern_sys_scheme) res" where
  "syscall K s =
     rbind (curproc K s) (\<lambda>(cur, s).
     let p = ptable s cur; s = s\<lparr>curpid := pid p\<rparr>; calls = syscalls K;
         num = load32 (ram (km s)) (tf p + TF_eax) in
     if 0 < sint num \<and> sint num < int (length calls) \<and> calls ! unat num \<noteq> None
     then rbind (the (calls ! unat num) s) (\<lambda>(r, s). set_result K r s)
     else rbind (kprint (proc_label p @ ascii '': unknown sys call '' @ dec num @ [10]) s) (set_result K (ret (- 1))))"

section \<open>Traps\<close>

text \<open>\<^verbatim>\<open>tvinit\<close> fills the interrupt table and names the lock of the clock.\<close>

definition tvinit :: "(nat \<Rightarrow> uint) \<Rightarrow> (nat \<Rightarrow> gatedesc) \<times> 'a kern_sys_scheme \<Rightarrow> (nat \<Rightarrow> gatedesc) \<times> 'a kern_sys_scheme" where
  "tvinit vectors = (\<lambda>(idt, s). (tvinit_idt vectors idt, s\<lparr>tickslock := initlock (tickslock s) ''time''\<rparr>))"

abbreviation T_SYSCALL :: uint where "T_SYSCALL \<equiv> 64"
abbreviation T_IRQ0 :: uint where "T_IRQ0 \<equiv> 32"
abbreviation IRQ_TIMER :: uint where "IRQ_TIMER \<equiv> 0"
abbreviation IRQ_KBD :: uint where "IRQ_KBD \<equiv> 1"
abbreviation IRQ_COM1 :: uint where "IRQ_COM1 \<equiv> 4"
abbreviation IRQ_IDE :: uint where "IRQ_IDE \<equiv> 14"
abbreviation IRQ_SPURIOUS :: uint where "IRQ_SPURIOUS \<equiv> 31"
abbreviation TF_trapno :: uint where "TF_trapno \<equiv> 48"
abbreviation TF_err :: uint where "TF_err \<equiv> 52"
abbreviation DPL_USER :: uint where "DPL_USER \<equiv> 3"

text \<open>What the hardware holds for the handler: the codes waiting in keyboard and serial port, and \<^verbatim>\<open>%cr2\<close>.\<close>

record devices =
  kbd_codes :: bytes
  uart_codes :: bytes
  cr2 :: uint

text \<open>
  How \<^verbatim>\<open>trap\<close> ends: it returns to the interrupted code, or the process exits, or it is inside
  a system call that sleeps, or it has given up the processor in \<^verbatim>\<open>yield\<close>.
\<close>

datatype trap_out = Back | Exited | Asleep sysret | Yielding bool

definition cpuid :: "kenv \<Rightarrow> 'a proc_sys_scheme \<Rightarrow> nat res" where
  "cpuid K s = mycpu (lapicid K) (hw s)"

definition frame_word :: "uint \<Rightarrow> uint \<Rightarrow> 'a proc_sys_scheme \<Rightarrow> uint" where
  "frame_word t off s = load32 (ram (km s)) (t + off)"

definition frame_cs :: "uint \<Rightarrow> 'a proc_sys_scheme \<Rightarrow> uint" where
  "frame_cs t s = ucast (mk16 (ram (km s) (t + TF_cs)) (ram (km s) (t + TF_cs + 1)))"

definition user_mode :: "uint \<Rightarrow> 'a proc_sys_scheme \<Rightarrow> bool" where
  "user_mode t s \<longleftrightarrow> frame_cs t s AND 3 = DPL_USER"

text \<open>\<^verbatim>\<open>if(myproc() && myproc()->killed && (tf->cs & 3) == DPL_USER) exit();\<close> before the rest of the handler.\<close>

definition exit_if_killed ::
  "kenv \<Rightarrow> uint \<Rightarrow> ('a kern_sys_scheme \<Rightarrow> (trap_out \<times> 'a kern_sys_scheme) res) \<Rightarrow> 'a kern_sys_scheme \<Rightarrow> (trap_out \<times> 'a kern_sys_scheme) res" where
  "exit_if_killed K t rest s =
     rbind (myproc K s) (\<lambda>(p, s).
     case p of
       Some cur \<Rightarrow> if killed (ptable s cur) \<and> user_mode t s then rbind (exit K s) (\<lambda>s. Inr (Exited, s)) else rest s
     | None \<Rightarrow> rest s)"

text \<open>The system call branch; \<open>after_call\<close> is its end, reached at once or when a sleeping call has returned.\<close>

definition after_call :: "kenv \<Rightarrow> 'a kern_sys_scheme \<Rightarrow> (trap_out \<times> 'a kern_sys_scheme) res" where
  "after_call K s =
     rbind (curproc K s) (\<lambda>(cur, s).
     if killed (ptable s cur) then rbind (exit K s) (\<lambda>s. Inr (Exited, s)) else Inr (Back, s))"

definition trap_syscall :: "kenv \<Rightarrow> uint \<Rightarrow> 'a kern_sys_scheme \<Rightarrow> (trap_out \<times> 'a kern_sys_scheme) res" where
  "trap_syscall K t s =
     rbind (curproc K s) (\<lambda>(cur, s).
     if killed (ptable s cur) then rbind (exit K s) (\<lambda>s. Inr (Exited, s))
     else rbind (curproc K s) (\<lambda>(cur, s).
          rbind (syscall K (upd_proc cur (\<lambda>p. p\<lparr>tf := t\<rparr>) s)) (\<lambda>(r, s).
          case r of
            Ret_val _ \<Rightarrow> after_call K s
          | Gone \<Rightarrow> Inr (Exited, s)
          | _ \<Rightarrow> Inr (Asleep r, s))))"

definition timer_tick :: "kenv \<Rightarrow> 'a kern_sys_scheme \<Rightarrow> 'a kern_sys_scheme res" where
  "timer_tick K s =
     rbind (cpuid K s) (\<lambda>c.
     if c = 0
     then rbind (acquire_ticks K s) (\<lambda>s.
          rbind (wakeup K (Some (On_addr (ticks_at K))) (s\<lparr>ticks := ticks s + 1\<rparr>)) (release_ticks K))
     else Inr s)"

text \<open>The interrupt handler of the in-memory disk, and those of keyboard and serial port with the process listing
  \<^verbatim>\<open>consoleintr\<close> asks for.\<close>

definition ideintr :: "'a kern_sys_scheme \<Rightarrow> 'a kern_sys_scheme" where
  "ideintr s = s"

definition list_if :: "bool \<Rightarrow> 'a kern_sys_scheme \<Rightarrow> 'a kern_sys_scheme res" where
  "list_if doprocdump s = (if doprocdump then rbind (procdump s (cons s)) (\<lambda>c. Inr (s\<lparr>cons := c\<rparr>)) else Inr s)"

definition keyboard :: "bytes \<Rightarrow> 'a kern_sys_scheme \<Rightarrow> 'a kern_sys_scheme res" where
  "keyboard codes s =
     rbind (kbdintr codes (kbd_shift s) (cons s)) (\<lambda>(d, sh, c). list_if d (s\<lparr>kbd_shift := sh, cons := c\<rparr>))"

definition serial_port :: "bytes \<Rightarrow> 'a kern_sys_scheme \<Rightarrow> 'a kern_sys_scheme res" where
  "serial_port received s = rbind (uartintr received (cons s)) (\<lambda>(d, c). list_if d (s\<lparr>cons := c\<rparr>))"

text \<open>The default branch: a trap the kernel does not expect kills the process, or the kernel.\<close>

definition trap_default :: "kenv \<Rightarrow> devices \<Rightarrow> uint \<Rightarrow> 'a kern_sys_scheme \<Rightarrow> 'a kern_sys_scheme res" where
  "trap_default K dev t s =
     rbind (myproc K s) (\<lambda>(p, s).
     let trapno = frame_word t TF_trapno s; eip = frame_word t TF_eip s in
     rbind (cpuid K s) (\<lambda>c.
     if p = None \<or> frame_cs t s AND 3 = 0
     then rbind (kprint (ascii ''unexpected trap '' @ dec trapno @ ascii '' from cpu '' @ dec (of_nat c) @ ascii '' eip '' @ hexa eip
            @ ascii '' (cr2=0x'' @ hexa (cr2 dev) @ ascii '')'' @ [10]) s) (\<lambda>_. Inl (Panic ''trap''))
     else rbind (kprint (ascii ''pid '' @ proc_label (ptable s (the p)) @ ascii '': trap '' @ dec trapno @ ascii '' err ''
            @ dec (frame_word t TF_err s) @ ascii '' on cpu '' @ dec (of_nat c) @ ascii '' eip 0x'' @ hexa eip
            @ ascii '' addr 0x'' @ hexa (cr2 dev) @ ascii ''--kill proc'' @ [10]) s) (\<lambda>s.
          Inr (upd_proc (the p) (\<lambda>q. q\<lparr>killed := True\<rparr>) s))))"

definition trap_switch :: "kenv \<Rightarrow> devices \<Rightarrow> uint \<Rightarrow> 'a kern_sys_scheme \<Rightarrow> 'a kern_sys_scheme res" where
  "trap_switch K dev t s =
     (let trapno = frame_word t TF_trapno s in
      if trapno = T_IRQ0 + IRQ_TIMER then timer_tick K s
      else if trapno = T_IRQ0 + IRQ_IDE then Inr (ideintr s)
      else if trapno = T_IRQ0 + IRQ_IDE + 1 then Inr s
      else if trapno = T_IRQ0 + IRQ_KBD then keyboard (kbd_codes dev) s
      else if trapno = T_IRQ0 + IRQ_COM1 then serial_port (uart_codes dev) s
      else if trapno = T_IRQ0 + 7 \<or> trapno = T_IRQ0 + IRQ_SPURIOUS
      then rbind (cpuid K s) (\<lambda>c.
           kprint (ascii ''cpu'' @ dec (of_nat c) @ ascii '': spurious interrupt at '' @ hexa (frame_cs t s) @ ascii '':''
             @ hexa (frame_word t TF_eip s) @ [10]) s)
      else trap_default K dev t s)"

text \<open>The end of the handler, at once or after \<^verbatim>\<open>yield\<close> has returned.\<close>

definition trap_end :: "kenv \<Rightarrow> uint \<Rightarrow> 'a kern_sys_scheme \<Rightarrow> (trap_out \<times> 'a kern_sys_scheme) res" where
  "trap_end K t = exit_if_killed K t (\<lambda>s. Inr (Back, s))"

definition trap_yielded :: "kenv \<Rightarrow> bool \<Rightarrow> uint \<Rightarrow> 'a kern_sys_scheme \<Rightarrow> (trap_out \<times> 'a kern_sys_scheme) res" where
  "trap_yielded K ena t s = rbind (yield_leave K ena s) (trap_end K t)"

definition yield_on_tick :: "kenv \<Rightarrow> uint \<Rightarrow> 'a kern_sys_scheme \<Rightarrow> (trap_out \<times> 'a kern_sys_scheme) res" where
  "yield_on_tick K t s =
     rbind (myproc K s) (\<lambda>(p, s).
     case p of
       Some cur \<Rightarrow>
         if pstate (ptable s cur) = RUNNING \<and> frame_word t TF_trapno s = T_IRQ0 + IRQ_TIMER
         then rbind (yield_enter K s) (\<lambda>(ena, s). Inr (Yielding ena, s))
         else trap_end K t s
     | None \<Rightarrow> trap_end K t s)"

definition trap :: "kenv \<Rightarrow> devices \<Rightarrow> uint \<Rightarrow> 'a kern_sys_scheme \<Rightarrow> (trap_out \<times> 'a kern_sys_scheme) res" where
  "trap K dev t s =
     (if frame_word t TF_trapno s = T_SYSCALL then trap_syscall K t s
      else rbind (trap_switch K dev t s) (exit_if_killed K t (yield_on_tick K t)))"

section \<open>Killed processes\<close>

text \<open>A process found by \<^const>\<open>myproc\<close> is the one the processor runs afterwards, with its slot unchanged.\<close>

lemma myproc_after:
  assumes "myproc K s = Inr (p, s')" and "runs_on K c (hw s')"
  shows "p = cproc (cpus (hw s') ! c)" and "ptable s' = ptable s" and "km s' = km s"
proof -
  obtain m where m: "s' = s\<lparr>hw := m\<rparr>" "cpu_same (hw s) m" by (rule myproc_same [OF assms(1)])
  have r: "runs_on K c (hw s)" using runs_on_same [OF cpu_same_sym [OF m(2)]] assms(2) m(1) by simp
  obtain m' where "p = cproc (cpus (hw s) ! c)" by (rule myproc_effect [OF assms(1) r])
  then show "p = cproc (cpus (hw s') ! c)" using cproc_same [OF m(2)] r m(1) by (simp add: runs_on_def)
  show "ptable s' = ptable s" "km s' = km s" by (simp_all add: m(1))
qed

lemma trap_end_Back:
  assumes "trap_end K t s = Inr (Back, s')" and "user_mode t s'" and "runs_on K c (hw s')" and "cproc (cpus (hw s') ! c) = Some cur"
  shows "\<not> killed (ptable s' cur)"
proof -
  obtain p s1 where p: "myproc K s = Inr (p, s1)"
    using assms(1) by (auto simp: trap_end_def exit_if_killed_def)
  have s1: "s' = s1" "\<forall>q. p = Some q \<longrightarrow> \<not> (killed (ptable s1 q) \<and> user_mode t s1)"
    using assms(1) p by (auto simp: trap_end_def exit_if_killed_def split: option.splits if_splits)
  with assms(2-4) myproc_after [OF p, of c] show ?thesis by auto
qed

lemma after_call_Back:
  assumes "after_call K s = Inr (Back, s')" and "runs_on K c (hw s')" and "cproc (cpus (hw s') ! c) = Some cur"
  shows "\<not> killed (ptable s' cur)"
proof -
  obtain p where p: "myproc K s = Inr (Some p, s')" "\<not> killed (ptable s' p)"
    using assms(1) by (auto simp: after_call_def curproc_def split: option.splits if_splits)
  with assms(2,3) myproc_after(1) [OF p(1), of c] show ?thesis by simp
qed

lemma trap_Back:
  assumes "trap K dev t s = Inr (Back, s')"
  obtains s1 where "trap_end K t s1 = Inr (Back, s')" | s1 where "after_call K s1 = Inr (Back, s')"
  using assms
  by (auto simp: trap_def trap_syscall_def exit_if_killed_def yield_on_tick_def
      split: if_splits option.splits sysret.splits) (metis sysret.exhaust)

text \<open>C21: a killed process does not go on in user mode. Whenever the trap handler returns to interrupted user code --
  directly, after it had given up the processor on a clock tick, or after a system call that slept -- the process the
  processor runs is not marked as killed.\<close>

theorem killed_process_stops:
  assumes "trap K dev t s = Inr (Back, s') \<or> trap_yielded K ena t s = Inr (Back, s') \<or> after_call K s = Inr (Back, s')"
    and "user_mode t s'" and "runs_on K c (hw s')" and "cproc (cpus (hw s') ! c) = Some cur"
  shows "\<not> killed (ptable s' cur)"
  using assms(1)
proof (elim disjE)
  assume "trap K dev t s = Inr (Back, s')"
  then show ?thesis by (rule trap_Back) (use trap_end_Back after_call_Back assms(2-4) in blast)+
next
  assume "trap_yielded K ena t s = Inr (Back, s')"
  then show ?thesis using trap_end_Back [OF _ assms(2-4)] by (auto simp: trap_yielded_def)
next
  assume "after_call K s = Inr (Back, s')"
  then show ?thesis by (rule after_call_Back [OF _ assms(3,4)])
qed

text \<open>A spurious disk interrupt in user mode, for the witness.\<close>

definition user_trap :: kern_sys where
  "user_trap = proc_sys.extend (sevens\<lparr>km := empty_kmem\<lparr>ram := (\<lambda>_. 0)(0x80300030 := 47, 0x8030003C := 0x1B)\<rparr>\<rparr>)
     (kern_sys.fields fresh_console 0 (initlock (ptlock sevens) ''time'') 0)"

lemma user_trap_myproc: "myproc env0 user_trap = Inr (Some 0, user_trap)"
  by (simp add: user_trap_def proc_sys.defs kern_sys.defs myproc_def pushcli_def popcli_def mycpu_def cpu_upd_def set_if_def sevens_sels env0_def one_cpu_def
      Let_def fun_upd_idem)

lemma user_trap_frame: "frame_word 0x80300000 TF_trapno user_trap = 47" "user_mode 0x80300000 user_trap" "\<not> killed (ptable user_trap 0)"
  by (simp_all add: user_trap_def proc_sys.defs kern_sys.defs frame_word_def user_mode_def frame_cs_def load32_def mk32_def mk16_def sevens_sels
      init_proc_def)

theorem killed_process_stops_witness:
  "trap env0 \<lparr>kbd_codes = [], uart_codes = [], cr2 = 0\<rparr> 0x80300000 user_trap = Inr (Back, user_trap) \<and> \<not> killed (ptable user_trap 0)"
proof -
  have run: "trap env0 \<lparr>kbd_codes = [], uart_codes = [], cr2 = 0\<rparr> 0x80300000 user_trap = Inr (Back, user_trap)"
    by (simp add: trap_def trap_switch_def exit_if_killed_def yield_on_tick_def trap_end_def user_trap_myproc user_trap_frame Let_def)
  have "runs_on env0 0 (hw user_trap)" "cproc (cpus (hw user_trap) ! 0) = Some 0"
    by (simp_all add: user_trap_def proc_sys.defs kern_sys.defs runs_on_def wf_cpus_def sevens_sels one_cpu_def env0_def cpu_upd_def)
  with killed_process_stops [OF disjI1 [OF run] user_trap_frame(2)] run show ?thesis by blast
qed

end
