(* ===== verification/Fs_Frame.thy ===== *)
theory Fs_Frame
  imports Fs
begin

text \<open>
  The operations of the block layer, the log and the file system change only their own part of the state:
  what a client adds to the record of the file system stays as it is.
\<close>

named_theorems fs_frame \<open>operations keep the extension of the file system state\<close>

section \<open>Block layer\<close>

lemma set_buf_more [simp]: "bio.more (set_buf b bf s) = bio.more s" "bio.more (set_data b d s) = bio.more s"
  by (simp_all add: set_buf_def set_data_def)

lemma iderw_more: "iderw b s = Inr s' \<Longrightarrow> bio.more s' = bio.more s"
  by (auto simp: iderw_def Let_def split: if_splits)

lemma lock_buf_more: "lock_buf b s = Inr (x, s') \<Longrightarrow> bio.more s' = bio.more s"
  by (auto simp: lock_buf_def)

lemma bget_more: "bget dev bn s = Inr (b, s') \<Longrightarrow> bio.more s' = bio.more s"
  by (auto simp: bget_def split: option.splits if_splits dest: lock_buf_more)

lemma bread_more: "bread dev bn s = Inr (b, s') \<Longrightarrow> bio.more s' = bio.more s"
  by (auto simp: bread_def split: if_splits dest!: bget_more iderw_more)

lemma bwrite_more: "bwrite b s = Inr s' \<Longrightarrow> bio.more s' = bio.more s"
  by (auto simp: bwrite_def split: if_splits dest!: iderw_more)

lemma brelse_more: "brelse b s = Inr s' \<Longrightarrow> bio.more s' = bio.more s"
  by (auto simp: brelse_def Let_def split: if_splits)

lemma readsb_more: "readsb dev s = Inr (x, s') \<Longrightarrow> bio.more s' = bio.more s"
  by (auto simp: readsb_def Let_def dest!: bread_more brelse_more)

section \<open>Log\<close>

lemma bio_log_more: "bio.more s' = bio.more s \<Longrightarrow> log_sys.more s' = log_sys.more s"
  by (cases s; cases s') simp

lemmas log_frame = bread_more [THEN bio_log_more] bwrite_more [THEN bio_log_more] brelse_more [THEN bio_log_more]
  readsb_more [THEN bio_log_more]

lemma set_log_more [simp]:
  "log_sys.more (set_buf b bf s) = log_sys.more s" "log_sys.more (set_data b d s) = log_sys.more s"
  "log_sys.more (set_lh h s) = log_sys.more s"
  by (simp_all add: set_buf_def set_data_def set_lh_def)

lemma for_each_keeps:
  assumes "for_each f xs s = Inr s'" and "\<And>x s s'. x \<in> set xs \<Longrightarrow> f x s = Inr s' \<Longrightarrow> v s' = v s"
  shows "v s' = v s"
  using assms by (induction xs arbitrary: s) (auto, metis)

lemma install_trans_more: "install_trans s = Inr s' \<Longrightarrow> log_sys.more s' = log_sys.more s"
  unfolding install_trans_def
  by (erule for_each_keeps) (auto simp: install_body_def dest!: log_frame)

lemma write_log_more: "write_log s = Inr s' \<Longrightarrow> log_sys.more s' = log_sys.more s"
  unfolding write_log_def
  by (erule for_each_keeps) (auto simp: write_log_body_def dest!: log_frame)

lemma write_head_more: "write_head s = Inr s' \<Longrightarrow> log_sys.more s' = log_sys.more s"
  by (auto simp: write_head_def Let_def dest!: log_frame)

lemma commit_more: "commit s = Inr s' \<Longrightarrow> log_sys.more s' = log_sys.more s"
  by (auto simp: commit_def split: if_splits dest!: write_log_more write_head_more install_trans_more)

lemma begin_op_more: "begin_op s = Inr s' \<Longrightarrow> log_sys.more s' = log_sys.more s"
  by (auto simp: begin_op_def split: if_splits)

lemma end_op_more: "end_op s = Inr s' \<Longrightarrow> log_sys.more s' = log_sys.more s"
  by (auto simp: end_op_def Let_def split: if_splits dest!: commit_more)

lemma log_write_more: "log_write b s = Inr s' \<Longrightarrow> log_sys.more s' = log_sys.more s"
  by (auto simp: log_write_def Let_def split: if_splits)

section \<open>File system\<close>

lemma log_fs_more: "log_sys.more s' = log_sys.more s \<Longrightarrow> fs_sys.more s' = fs_sys.more s"
  by (cases s; cases s') simp

lemmas fs_below [fs_frame] =
  log_frame [THEN log_fs_more] begin_op_more [THEN log_fs_more] end_op_more [THEN log_fs_more] log_write_more [THEN log_fs_more]

lemma set_fs_more [simp]:
  "fs_sys.more (set_buf b bf s) = fs_sys.more s" "fs_sys.more (set_data b d s) = fs_sys.more s"
  "fs_sys.more (set_inode ip i s) = fs_sys.more s"
  by (simp_all add: set_buf_def set_data_def set_inode_def)

lemma bzero_more [fs_frame]: "bzero dev bn s = Inr s' \<Longrightarrow> fs_sys.more s' = fs_sys.more s"
  by (auto simp: bzero_def Let_def dest!: fs_frame)

lemma balloc_more [fs_frame]: "balloc dev s = Inr (a, s') \<Longrightarrow> fs_sys.more s' = fs_sys.more s"
proof -
  have "balloc_from sz b dev s = Inr (a, s') \<Longrightarrow> fs_sys.more s' = fs_sys.more s" for sz b
  proof (induction "sz - b" arbitrary: b s rule: less_induct)
    case less
    from less.prems show ?case
      by (subst (asm) balloc_from.simps)
        (auto simp: Let_def split: if_splits option.splits dest!: less.hyps [rotated] fs_frame)
  qed
  then show "balloc dev s = Inr (a, s') \<Longrightarrow> fs_sys.more s' = fs_sys.more s" by (simp add: balloc_def)
qed

lemma bfree_more [fs_frame]: "bfree dev b s = Inr s' \<Longrightarrow> fs_sys.more s' = fs_sys.more s"
  by (auto simp: bfree_def Let_def split: if_splits dest!: fs_frame)

lemma iget_more [fs_frame]: "iget dev i s = Inr (ip, s') \<Longrightarrow> fs_sys.more s' = fs_sys.more s"
  by (auto simp: iget_def split: prod.splits option.splits)

lemma idup_more [fs_frame]: "idup ip s = (x, s') \<Longrightarrow> fs_sys.more s' = fs_sys.more s"
  by (auto simp: idup_def)

lemma ialloc_more [fs_frame]: "ialloc dev type s = Inr (ip, s') \<Longrightarrow> fs_sys.more s' = fs_sys.more s"
proof -
  have "ialloc_from n i dev type s = Inr (ip, s') \<Longrightarrow> fs_sys.more s' = fs_sys.more s" for n i
  proof (induction "n - i" arbitrary: i s rule: less_induct)
    case less
    from less.prems show ?case
      by (subst (asm) ialloc_from.simps) (auto simp: Let_def split: if_splits dest!: less.hyps [rotated] fs_frame)
  qed
  then show "ialloc dev type s = Inr (ip, s') \<Longrightarrow> fs_sys.more s' = fs_sys.more s" by (simp add: ialloc_def)
qed

lemma iupdate_more [fs_frame]: "iupdate ip s = Inr s' \<Longrightarrow> fs_sys.more s' = fs_sys.more s"
  by (auto simp: iupdate_def Let_def dest!: fs_frame)

lemma ilock_more [fs_frame]: "ilock ip s = Inr s' \<Longrightarrow> fs_sys.more s' = fs_sys.more s"
  by (auto simp: ilock_def Let_def split: if_splits dest!: fs_frame) (metis set_fs_more(3))

lemma iunlock_more [fs_frame]: "iunlock ip s = Inr s' \<Longrightarrow> fs_sys.more s' = fs_sys.more s"
  by (auto simp: iunlock_def split: if_splits)

lemma bmap_direct_more [fs_frame]: "bmap_direct ip k s = Inr (a, s') \<Longrightarrow> fs_sys.more s' = fs_sys.more s"
  by (auto simp: bmap_direct_def Let_def split: if_splits dest!: fs_frame)

lemma bmap_more [fs_frame]: "bmap ip bn s = Inr (a, s') \<Longrightarrow> fs_sys.more s' = fs_sys.more s"
  by (auto simp: bmap_def Let_def split: if_splits dest!: fs_frame)

lemma itrunc_direct_more [fs_frame]: "itrunc_direct ip i s = Inr s' \<Longrightarrow> fs_sys.more s' = fs_sys.more s"
  by (auto simp: itrunc_direct_def split: if_splits dest!: fs_frame)

lemma itrunc_more [fs_frame]: "itrunc ip s = Inr s' \<Longrightarrow> fs_sys.more s' = fs_sys.more s"
proof -
  have d: "for_each (itrunc_direct ip) xs s = Inr s' \<Longrightarrow> fs_sys.more s' = fs_sys.more s" for xs and s s' :: "'a fs_sys_scheme"
    by (erule for_each_keeps) (rule fs_frame)
  have i: "for_each (\<lambda>j s. let a = get32 (bdata (bufs s bp)) (4 * j) in if a \<noteq> 0 then bfree (idev (inodes s ip)) a s else Inr s) xs s = Inr s'
      \<Longrightarrow> fs_sys.more s' = fs_sys.more s" for xs bp and s s' :: "'a fs_sys_scheme"
    by (erule for_each_keeps) (auto simp: Let_def split: if_splits dest!: fs_frame)
  show "itrunc ip s = Inr s' \<Longrightarrow> fs_sys.more s' = fs_sys.more s"
    by (auto simp: itrunc_def split: if_splits dest!: d i fs_frame)
qed

lemma iput_more [fs_frame]: "iput ip s = Inr s' \<Longrightarrow> fs_sys.more s' = fs_sys.more s"
  by (auto simp: iput_def Let_def split: if_splits dest!: fs_frame)

lemma iunlockput_more [fs_frame]: "iunlockput ip s = Inr s' \<Longrightarrow> fs_sys.more s' = fs_sys.more s"
  by (auto simp: iunlockput_def dest!: fs_frame)

lemma readi_loop_more [fs_frame]: "readi_loop ip off n s = Inr (bs, s') \<Longrightarrow> fs_sys.more s' = fs_sys.more s"
proof (induction n arbitrary: off bs s rule: less_induct)
  case (less n)
  from less.prems show ?case
    by (subst (asm) readi_loop.simps) (auto simp: Let_def split: if_splits dest!: less.IH [rotated] fs_frame)
qed

lemma writei_loop_more [fs_frame]: "writei_loop ip off src s = Inr s' \<Longrightarrow> fs_sys.more s' = fs_sys.more s"
proof (induction "length src" arbitrary: off src s rule: less_induct)
  case less
  from less.prems show ?case
    by (subst (asm) writei_loop.simps) (auto simp: Let_def split: if_splits dest!: less.hyps [rotated] fs_frame)
qed

text \<open>A read or write calls a device routine or keeps the extension.\<close>

lemma readi_cases:
  assumes "readi devsw ip off n s = Inr (r, bs, s')"
  obtains m rd where "devsw m = Some rd" "rd ip n s = Inr (r, bs, s')" | "fs_sys.more s' = fs_sys.more s"
  using assms by (auto simp: readi_def Let_def split: if_splits option.splits dest!: fs_frame)

lemma writei_cases:
  assumes "writei devsw ip src off s = Inr (r, s')"
  obtains m wr where "devsw m = Some wr" "wr ip src s = Inr (r, s')" | "fs_sys.more s' = fs_sys.more s"
  using assms by (auto simp: writei_def Let_def split: if_splits option.splits dest!: fs_frame)

lemma readi_more [fs_frame]: "readi (\<lambda>_. None) ip off n s = Inr (r, bs, s') \<Longrightarrow> fs_sys.more s' = fs_sys.more s"
  by (erule readi_cases) auto

lemma writei_more [fs_frame]: "writei (\<lambda>_. None) ip src off s = Inr (r, s') \<Longrightarrow> fs_sys.more s' = fs_sys.more s"
  by (erule writei_cases) auto

lemma dirlookup_more [fs_frame]: "dirlookup dp name s = Inr (r, s') \<Longrightarrow> fs_sys.more s' = fs_sys.more s"
proof -
  have "dirlookup_from sz dp name off s = Inr (r, s') \<Longrightarrow> fs_sys.more s' = fs_sys.more s" for sz off
  proof (induction "sz - off" arbitrary: off s rule: less_induct)
    case less
    from less.prems show ?case
      by (subst (asm) dirlookup_from.simps) (auto split: if_splits dest!: less.hyps [rotated] fs_frame)
  qed
  then show "dirlookup dp name s = Inr (r, s') \<Longrightarrow> fs_sys.more s' = fs_sys.more s" by (auto simp: dirlookup_def split: if_splits)
qed

lemma dirlink_slot_more [fs_frame]: "dirlink_slot sz dp off s = Inr (r, s') \<Longrightarrow> fs_sys.more s' = fs_sys.more s"
proof (induction "sz - off" arbitrary: off s rule: less_induct)
  case less
  from less.prems show ?case
    by (subst (asm) dirlink_slot.simps) (auto split: if_splits dest!: less.hyps [rotated] fs_frame)
qed

lemma dirlink_more [fs_frame]: "dirlink dp name i s = Inr (r, s') \<Longrightarrow> fs_sys.more s' = fs_sys.more s"
  by (auto simp: dirlink_def split: if_splits option.splits dest!: fs_frame)

lemma namex_loop_more [fs_frame]: "namex_loop parent path ip name s = Inr (r, x, s') \<Longrightarrow> fs_sys.more s' = fs_sys.more s"
proof (induction "length path" arbitrary: parent path ip name s rule: less_induct)
  case less
  from less.prems show ?case
    by (subst (asm) namex_loop.simps)
      (auto split: if_splits option.splits prod.splits dest: skipelem_shorter dest!: less.hyps [rotated] fs_frame)
qed

lemma namex_more [fs_frame]: "namex cwd parent path s = Inr (r, x, s') \<Longrightarrow> fs_sys.more s' = fs_sys.more s"
  by (auto simp: namex_def idup_def split: if_splits dest!: fs_frame)

lemma namei_more [fs_frame]: "namei cwd path s = Inr (r, s') \<Longrightarrow> fs_sys.more s' = fs_sys.more s"
  by (auto simp: namei_def dest!: fs_frame)

lemma nameiparent_more [fs_frame]: "nameiparent cwd path s = Inr (r, x, s') \<Longrightarrow> fs_sys.more s' = fs_sys.more s"
  by (auto simp: nameiparent_def dest!: fs_frame)

end
