(* ===== verification/Image.thy ===== *)
theory Image
  imports Exec Fs_Frame
begin

text \<open>
  What \<^verbatim>\<open>exec\<close>, \<^verbatim>\<open>fork\<close> and \<^verbatim>\<open>growproc\<close> do to the images of processes: the process table is the
  same after an \<^verbatim>\<open>exec\<close> that fails, and no process grows into the kernel's half of the address space.
\<close>

named_theorems table_frame \<open>operations keep the process table, the open files and who runs where\<close>

section \<open>The view of the process table\<close>

definition tview :: "'a proc_sys_scheme \<Rightarrow> ptab \<times> (nat \<Rightarrow> ofile) \<times> (uint \<Rightarrow> pipe) \<times> uchar list \<times> nat option list" where
  "tview s = (ptable s, files s, pipes s, map apicid (cpus (hw s)), map cproc (cpus (hw s)))"

lemma tview_eqI: "fs_sys.more s' = fs_sys.more s \<Longrightarrow> tview s' = tview s" "fs_sys.more s' = fs_sys.more s \<Longrightarrow> km s' = km s"
  by (cases s; cases s'; simp add: tview_def)+

lemmas [table_frame] = fs_frame [THEN tview_eqI(1)]

lemma tview_upd [simp]: "tview (s\<lparr>km := k\<rparr>) = tview s" "tview (set_ram f s) = tview s" "tview (set_inode ip i s) = tview s"
  by (simp_all add: tview_def set_ram_def set_inode_def)

lemma tview_cons [simp]: "tview (s\<lparr>cons := c\<rparr>) = tview s"
  by (simp add: tview_def)

lemma tview_hw: "cpu_same (hw s) m \<Longrightarrow> tview (s\<lparr>hw := m\<rparr>) = tview s"
  by (simp add: tview_def cpu_same_def)

lemma tviewD:
  assumes "tview s' = tview s"
  shows "ptable s' = ptable s" "files s' = files s" "cpu_same (hw s) (hw s')"
  using assms by (simp_all add: tview_def cpu_same_def)

lemma myproc_view [table_frame]: "myproc K s = Inr (p, s') \<Longrightarrow> tview s' = tview s"
  by (erule myproc_same) (simp add: tview_hw)

lemma curproc_view [table_frame]: "curproc K s = Inr (p, s') \<Longrightarrow> tview s' = tview s"
  by (auto simp: curproc_def split: option.splits dest: myproc_view)

lemma at_cwd_namei_view [table_frame]: "at_cwd K path (\<lambda>d. namei d path) s = Inr (ip, s') \<Longrightarrow> tview s' = tview s"
  by (auto simp: at_cwd_def split: if_splits option.splits dest!: table_frame)

lemma kprint_view [table_frame]: "kprint cs s = Inr s' \<Longrightarrow> tview s' = tview s"
  by (auto simp: kprint_def)

lemma readi_devsw_view [table_frame]: "readi (devsw_read K) ip off n s = Inr (r, bs, s') \<Longrightarrow> tview s' = tview s"
proof (erule readi_cases)
  fix m rd
  assume "devsw_read K m = Some rd" "rd ip n s = Inr (r, bs, s')"
  then obtain s1 cur s2 where s: "iunlock ip s = Inr s1" "curproc K s1 = Inr (cur, s2)"
    "(case consoleread (killed (ptable s2 cur)) (sint n) (cons s2) of
        Returned r bs c \<Rightarrow> rbind (ilock ip (s2\<lparr>cons := c\<rparr>)) (\<lambda>s. Inr (r, bs, s)) | Sleeps _ _ _ \<Rightarrow> Inl Sleep) = Inr (r, bs, s')"
    by (auto simp: devsw_read_def split: if_splits)
  have "tview s2 = tview s" using s(1,2) by (auto dest!: table_frame)
  with s(3) show ?thesis by (auto split: cons_out.splits dest!: table_frame)
qed (rule tview_eqI)

section \<open>Loading a program\<close>

lemma loaduvm_view [table_frame]: "loaduvm (devsw_read K) d addr ip off sz s = Inr (r, s') \<Longrightarrow> tview s' = tview s"
proof -
  have "loaduvm_loop (devsw_read K) d addr ip off n i s = Inr (r, s') \<Longrightarrow> tview s' = tview s" for n i
  proof (induction "n - i" arbitrary: i s rule: less_induct)
    case less
    from less.prems show ?case
      by (subst (asm) loaduvm_loop.simps)
        (auto simp: Let_def split: if_splits option.splits dest!: less.hyps [rotated] table_frame)
  qed
  then show "loaduvm (devsw_read K) d addr ip off sz s = Inr (r, s') \<Longrightarrow> tview s' = tview s"
    by (auto simp: loaduvm_def split: if_splits)
qed

lemma exec_segments_view [table_frame]:
  "exec_segments (devsw_read K) d ip k off sz s = Inr (r, s') \<Longrightarrow> tview s' = tview s"
proof (induction k arbitrary: off sz s)
  case (Suc k)
  from Suc.prems show ?case
    by (auto simp: Let_def split: if_splits dest!: Suc.IH table_frame)
qed simp

lemma exec_bad_view [table_frame]: "exec_bad d ip s = Inr (r, s') \<Longrightarrow> tview s' = tview s"
  by (auto simp: exec_bad_def split: if_splits option.splits dest!: table_frame)

lemma exec_bad_ret: "exec_bad d ip s = Inr (r, s') \<Longrightarrow> r = - 1"
  by (auto simp: exec_bad_def split: if_splits option.splits)

text \<open>The size \<^verbatim>\<open>allocuvm\<close> returns.\<close>

lemma allocuvm_size:
  assumes "allocuvm d old new k = Inr (sz, k')"
  shows "sz = 0 \<or> sz = new \<and> new < KERNBASE \<or> sz = old \<and> new < old"
proof -
  have "allocuvm_loop d old new a k = Inr (sz, k') \<Longrightarrow> sz = 0 \<or> sz = new" for a
  proof (induction "unat new - a" arbitrary: a k rule: less_induct)
    case less
    from less.prems show ?case
      by (subst (asm) allocuvm_loop.simps)
        (auto simp: Let_def split: if_splits prod.splits dest!: less.hyps [rotated])
  qed
  with assms show ?thesis by (auto simp: allocuvm_def not_le split: if_splits)
qed

lemma exec_segments_size:
  "exec_segments devsw d ip k off sz s = Inr (Some r, s') \<Longrightarrow> sz < KERNBASE \<Longrightarrow> r < KERNBASE"
proof (induction k arbitrary: off sz s)
  case (Suc k)
  from Suc.prems show ?case
    by (auto simp: Let_def split: if_splits dest!: allocuvm_size dest: Suc.IH)
qed simp

lemma exec_stack_size:
  assumes "exec_stack d sz argv k = Inr (Some (sz', sp), k')" and "sz < KERNBASE"
  shows "sz' < KERNBASE"
proof -
  obtain k1 where a: "allocuvm d (PGROUNDUP sz) (PGROUNDUP sz + 2 * PGSIZE) k = Inr (sz', k1)" "sz' \<noteq> 0"
    using assms(1) by (auto simp: exec_stack_def Let_def split: if_splits option.splits)
  have "PGROUNDUP sz \<le> sz + 4095" using word_and_le2 [of "sz + PGSIZE - 1" "NOT (PGSIZE - 1)"] by (simp add: PGROUNDUP_def add.commute)
  moreover have "unat (sz + 4095) = unat sz + 4095"
    using assms(2) by (subst unat_plus_small) (simp_all add: KERNBASE_def word_less_nat_alt)
  ultimately have "unat (PGROUNDUP sz) \<le> 2147483648 + 4095"
    using assms(2) by (simp add: KERNBASE_def word_less_nat_alt word_le_nat_alt)
  then have "\<not> PGROUNDUP sz + 2 * PGSIZE < PGROUNDUP sz"
    by (simp add: word_less_nat_alt unat_plus_small)
  with allocuvm_size [OF a(1)] a(2) show ?thesis by auto
qed

text \<open>The process \<^verbatim>\<open>exec\<close> leaves: a new name, address space and size.\<close>

definition new_image :: "bytes \<Rightarrow> uint \<Rightarrow> uint \<Rightarrow> proc \<Rightarrow> proc" where
  "new_image path d sz p = p\<lparr>pname := set_name (last_element path @ [0]) (pname p), pgdir := d, psz := sz\<rparr>"

lemma exec_commit_effect:
  assumes "exec_commit K cur d sz sp eip path s = Inr (r, s')"
  shows "r = 0 \<and> ptable s' = (ptable s)(cur := new_image path d sz (ptable s cur)) \<and> files s' = files s"
proof -
  define t where "t = set_ram (store32 (tf (ptable s cur) + TF_esp) sp) (set_ram (store32 (tf (ptable s cur) + TF_eip) eip)
    (upd_proc cur (new_image path d sz) s))"
  obtain s1 k where "switchuvm K (Some cur) t = Inr s1" "s' = s1\<lparr>km := k\<rparr>" "r = 0"
    using assms by (auto simp: exec_commit_def Let_def t_def new_image_def [abs_def] upd_proc_def set_ram_def)
  then show ?thesis
    by (auto elim!: switchuvm_effect simp: t_def upd_proc_def set_ram_def)
qed

lemma exec_inode_effect:
  assumes "exec_inode (devsw_read K) K cur path argv ip s = Inr (r, s')"
  shows "r = - 1 \<and> ptable s' = ptable s \<and> files s' = files s \<or>
    r = 0 \<and> (\<exists>d sz. d \<noteq> 0 \<and> sz < KERNBASE \<and> ptable s' = (ptable s)(cur := new_image path d sz (ptable s cur)) \<and> files s' = files s)"
proof -
  obtain r1 elf s1 where s1: "readi (devsw_read K) ip 0 52 s = Inr (r1, elf, s1)" "tview s1 = tview s"
    using assms by (auto simp: exec_inode_def dest: readi_devsw_view)
  have bad: "exec_bad d i t = Inr (r, s') \<Longrightarrow> tview t = tview s \<Longrightarrow> ?thesis" for d i t
    using exec_bad_view [of d i t r s'] exec_bad_ret [of d i t r s'] by (auto dest: tviewD)
  show ?thesis
  proof (cases "r1 \<noteq> 52 \<or> elf_magic elf \<noteq> ELF_MAGIC")
    case True
    with assms s1 bad show ?thesis by (auto simp: exec_inode_def)
  next
    case False
    then obtain d k where k: "setupkvm (kdata_at K) (km s1) = Inr (d, k)"
      using assms s1 by (auto simp: exec_inode_def)
    show ?thesis
    proof (cases "d = 0")
      case True
      with assms s1 k False bad [of 0 "Some ip" "s1\<lparr>km := k\<rparr>"] show ?thesis by (auto simp: exec_inode_def)
    next
      case d: False
      then obtain x s2 where x: "exec_segments (devsw_read K) d ip (unat (elf_phnum elf)) (elf_phoff elf) 0 (s1\<lparr>km := k\<rparr>) = Inr (x, s2)"
        using assms s1 k False by (auto simp: exec_inode_def)
      have v2: "tview s2 = tview s" using exec_segments_view [OF x] s1(2) by simp
      show ?thesis
      proof (cases x)
        case None
        with assms s1 k False d x v2 bad show ?thesis by (auto simp: exec_inode_def)
      next
        case (Some sz)
        then obtain s3 s4 y k2 where y: "iunlockput ip s2 = Inr s3" "end_op s3 = Inr s4" "exec_stack d sz argv (km s4) = Inr (y, k2)"
          using assms s1 k False d x by (auto simp: exec_inode_def)
        have v4: "tview (s4\<lparr>km := k2\<rparr>) = tview s" using y(1,2) v2 by (auto dest!: table_frame)
        have sz: "sz < KERNBASE" using exec_segments_size [OF x [unfolded Some]] by (simp add: KERNBASE_def)
        show ?thesis
        proof (cases y)
          case None
          with assms s1 k False d x Some y v4 bad [of d None "s4\<lparr>km := k2\<rparr>"] show ?thesis by (auto simp: exec_inode_def)
        next
          case (Some z)
          obtain sz' sp where z: "z = (sz', sp)" by (cases z)
          have "exec_commit K cur d sz' sp (elf_entry elf) path (s4\<lparr>km := k2\<rparr>) = Inr (r, s')"
            using assms s1 k False d x \<open>x = Some sz\<close> y Some z by (auto simp: exec_inode_def)
          from exec_commit_effect [OF this] exec_stack_size [OF y(3) [unfolded Some z] sz] d tviewD [OF v4] show ?thesis
            by (intro disjI2) auto
        qed
      qed
    qed
  qed
qed

lemma exec_effect:
  assumes "exec K path argv s = Inr (r, s')" and "runs_on K c (hw s)" and "cproc (cpus (hw s) ! c) = Some cur"
  shows "files s' = files s \<and> (r = - 1 \<and> ptable s' = ptable s \<or>
    r = 0 \<and> (\<exists>d sz. d \<noteq> 0 \<and> sz < KERNBASE \<and> ptable s' = (ptable s)(cur := new_image path d sz (ptable s cur))))"
proof -
  obtain p s1 s2 ip s3 where s: "curproc K s = Inr (p, s1)" "begin_op s1 = Inr s2" "at_cwd K path (\<lambda>d. namei d path) s2 = Inr (ip, s3)"
    using assms(1) by (auto simp: exec_def)
  have p: "p = cur" by (rule curproc_same(1) [OF s(1) assms(2,3)])
  have v: "tview s3 = tview s" using s by (auto dest!: table_frame)
  show ?thesis
  proof (cases ip)
    case None
    then have "r = - 1 \<and> tview s' = tview s"
      using assms(1) s v by (auto simp: exec_def dest!: table_frame)
    then show ?thesis by (auto dest: tviewD)
  next
    case (Some i)
    then obtain s4 where s4: "ilock i s3 = Inr s4" "exec_inode (devsw_read K) K cur path argv i s4 = Inr (r, s')"
      using assms(1) s p by (auto simp: exec_def)
    have "tview s4 = tview s" using s4(1) v by (auto dest!: table_frame)
    from exec_inode_effect [OF s4(2)] tviewD [OF this] show ?thesis by auto
  qed
qed

text \<open>C17: \<^verbatim>\<open>exec\<close> takes effect completely or not at all. It fails with the process table as it was, whatever step failed;
  or it succeeds, and then exactly the calling process has changed, in its name, its address space, which exists, and its
  size, which ends below the kernel. In both cases the open files stay as they were.\<close>

theorem exec_all_or_nothing:
  assumes "exec K path argv s = Inr (r, s')" and "runs_on K c (hw s)" and "cproc (cpus (hw s) ! c) = Some cur"
  shows "files s' = files s \<and> (r = - 1 \<and> ptable s' = ptable s \<or>
    r = 0 \<and> (\<exists>d sz. d \<noteq> 0 \<and> sz < KERNBASE \<and> ptable s' = (ptable s)(cur := new_image path d sz (ptable s cur))))"
  by (rule exec_effect [OF assms])

text \<open>A process that tries to execute its working directory, an empty one, for the witness.\<close>

definition in_dir :: kern_sys where
  "in_dir = proc_sys.extend
     (sevens\<lparr>inodes := (\<lambda>_. zero_inode\<lparr>idev := 1, inum := 1, iref := 1, ivalid := True, itype := T_DIR, inlink := 1\<rparr>),
        ptable := (\<lambda>_. init_proc\<lparr>cwd := Some 0\<rparr>)\<rparr>)
     (kern_sys.fields fresh_console 0 (initlock (ptlock sevens) ''time'') 0)"

lemma in_dir_cur: "hw s = hw sevens \<Longrightarrow> curproc env0 s = Inr (0, s)"
  by (simp add: curproc_def myproc_def pushcli_def popcli_def mycpu_def cpu_upd_def set_if_def sevens_sels env0_def one_cpu_def Let_def
      fun_upd_idem)

lemma sevens_lg: "lg sevens = zero_log" "curpid sevens = 1"
  by (simp_all add: sevens_def boot_ptable_def file_sys.extend_def boot_files_def)

lemma in_dir_exec: "\<exists>s'. exec env0 [] [] in_dir = Inr (- 1, s')"
  by (simp add: exec_def in_dir_cur in_dir_def proc_sys.defs kern_sys.defs begin_op_def at_cwd_def namei_def namex_def sevens_lg zero_log_def
      idup_def set_inode_def namex_loop.simps skipelem_def ilock_def acquiresleep_def zero_inode_def initsleeplock_def exec_inode_def readi_def
      readi_loop.simps Let_def exec_bad_def iunlockput_def iunlock_def iput_def holdingsleep_def releasesleep_def end_op_def commit_def)

theorem exec_all_or_nothing_witness:
  "\<exists>s'. exec env0 [] [] in_dir = Inr (- 1, s') \<and> ptable s' = ptable in_dir \<and> files s' = files in_dir"
proof -
  obtain s' where s': "exec env0 [] [] in_dir = Inr (- 1, s')" using in_dir_exec by blast
  have r: "runs_on env0 0 (hw in_dir)" "cproc (cpus (hw in_dir) ! 0) = Some 0"
    by (simp_all add: in_dir_def proc_sys.defs kern_sys.defs runs_on_def wf_cpus_def sevens_sels one_cpu_def env0_def cpu_upd_def)
  from exec_all_or_nothing [OF s' r] s' show ?thesis by auto
qed

section \<open>Process sizes\<close>

definition sizes :: "'a proc_sys_scheme \<Rightarrow> nat \<Rightarrow> uint" where
  "sizes s i = psz (ptable s i)"

lemma sizes_tview: "tview s' = tview s \<Longrightarrow> sizes s' = sizes s"
  by (auto simp: sizes_def fun_eq_iff dest: tviewD)

lemma sizes_upd [simp]: "(\<And>p. psz (f p) = psz p) \<Longrightarrow> sizes (upd_proc i f s) = sizes s" "sizes (s\<lparr>km := k\<rparr>) = sizes s"
  "sizes (s\<lparr>hw := m\<rparr>) = sizes s" "sizes (s\<lparr>ptlock := l\<rparr>) = sizes s" "sizes (s\<lparr>nextpid := n\<rparr>) = sizes s" "sizes (set_ram g s) = sizes s"
  "sizes (set_file j ff s) = sizes s"
  by (auto simp: sizes_def fun_eq_iff upd_proc_def set_ram_def set_file_def)

lemma lock_sizes: "acquire_ptable K s = Inr s' \<Longrightarrow> sizes s' = sizes s" "release_ptable K s = Inr s' \<Longrightarrow> sizes s' = sizes s"
  by (auto elim!: acquire_ptable_effect release_ptable_effect)

lemma alloc_stack_sizes: "alloc_stack K i s = (p, s') \<Longrightarrow> sizes s' = sizes s"
  by (auto simp: alloc_stack_def Let_def split: prod.splits if_splits)

lemma allocproc_sizes: "allocproc K s = Inr (p, s') \<Longrightarrow> sizes s' = sizes s"
  by (auto simp: allocproc_def alloc_slot_def split: option.splits prod.splits dest!: lock_sizes alloc_stack_sizes)

lemma fork_copy_sizes: "fork_copy K cur np s = Inr (b, s') \<Longrightarrow> sizes s' = sizes s"
  by (auto simp: fork_copy_def Let_def split: if_splits)

lemma dup_fd_sizes: "dup_fd cur np i s = Inr s' \<Longrightarrow> sizes s' = sizes s"
  by (auto simp: dup_fd_def filedup_def split: option.splits if_splits)

lemma fork_child_sizes:
  assumes "fork_child cur np s = Inr s'"
  shows "sizes s' = (sizes s)(np := sizes s cur)"
proof -
  define t where "t = (let s = upd_proc np (\<lambda>p. p\<lparr>psz := psz (ptable s cur), parent := Some cur\<rparr>) s;
          s = set_ram (\<lambda>m. poke (tf (ptable s np)) (peek m (tf (ptable s cur)) (unat TF_SIZE)) m) s
      in set_ram (store32 (tf (ptable s np) + TF_eax) 0) s)"
  obtain s1 where s1: "for_each (dup_fd cur np) [0..<NOFILE] t = Inr s1" "sizes s' = sizes s1"
    using assms by (auto simp: fork_child_def Let_def t_def idup_def split: option.splits prod.splits)
      (simp add: sizes_def fun_eq_iff upd_proc_def set_inode_def)
  have "sizes s1 = sizes t" by (rule for_each_keeps [OF s1(1)]) (rule dup_fd_sizes)
  also have "sizes t = (sizes s)(np := sizes s cur)" by (auto simp: t_def Let_def sizes_def fun_eq_iff upd_proc_def set_ram_def)
  finally show ?thesis using s1(2) by simp
qed

lemma fork_sizes:
  assumes "fork K s = Inr (r, s')"
  shows "range (sizes s') \<subseteq> range (sizes s)"
proof -
  obtain cur s1 np s2 where s: "curproc K s = Inr (cur, s1)" "allocproc K s1 = Inr (np, s2)"
    using assms by (auto simp: fork_def)
  have 2: "sizes s2 = sizes s" using s by (auto dest!: curproc_view sizes_tview allocproc_sizes)
  show ?thesis
  proof (cases np)
    case None
    with assms s 2 show ?thesis by (auto simp: fork_def)
  next
    case (Some n)
    then obtain b s3 where s3: "fork_copy K cur n s2 = Inr (b, s3)" using assms s by (auto simp: fork_def)
    then have 3: "sizes s3 = sizes s" using 2 fork_copy_sizes by metis
    show ?thesis
    proof (cases b)
      case True
      then obtain s4 where s4: "fork_child cur n s3 = Inr s4" "set_runnable K n s4 = Inr s'"
        using assms s Some s3 by (auto simp: fork_def Let_def)
      have "sizes s' = sizes s4" using s4(2) by (auto simp: set_runnable_def dest!: lock_sizes)
      then show ?thesis using fork_child_sizes [OF s4(1)] 3 by (auto simp: fun_upd_def)
    next
      case False
      with assms s Some s3 3 show ?thesis by (auto simp: fork_def)
    qed
  qed
qed

lemma deallocuvm_size: "deallocuvm d old new k = Inr (sz, k') \<Longrightarrow> sz = old \<or> sz = new \<and> new < old"
  by (auto simp: deallocuvm_def not_le split: if_splits)

lemma growproc_sizes:
  assumes "growproc K n s = Inr (r, s')" and "\<forall>i. sizes s i \<le> KERNBASE"
  shows "sizes s' i \<le> KERNBASE"
proof -
  obtain cur s1 where s1: "curproc K s = Inr (cur, s1)" using assms(1) by (auto simp: growproc_def)
  have z: "sizes s1 = sizes s" using s1 by (auto dest!: curproc_view sizes_tview)
  let ?old = "psz (ptable s1 cur)"
  have old: "?old \<le> KERNBASE" using assms(2) z by (simp add: sizes_def fun_eq_iff)
  obtain sz k where k: "(if 0 < n then allocuvm (pgdir (ptable s1 cur)) ?old (?old + of_int n) (km s1)
            else if n < 0 then deallocuvm (pgdir (ptable s1 cur)) ?old (?old + of_int n) (km s1)
            else Inr (?old, km s1)) = Inr (sz, k)"
    using assms(1) s1 by (auto simp: growproc_def Let_def)
  have sz: "sz \<le> KERNBASE" using k old by (auto split: if_splits dest!: allocuvm_size deallocuvm_size)
  have "s' = s1\<lparr>km := k\<rparr> \<or> switchuvm K (Some cur) (upd_proc cur (\<lambda>p. p\<lparr>psz := sz\<rparr>) (s1\<lparr>km := k\<rparr>)) = Inr s'"
    using assms(1) s1 k by (auto simp: growproc_def Let_def split: if_splits)
  moreover have "sizes (upd_proc cur (\<lambda>p. p\<lparr>psz := sz\<rparr>) (s1\<lparr>km := k\<rparr>)) i \<le> KERNBASE"
    using sz z assms(2) by (simp add: sizes_def fun_eq_iff upd_proc_def)
  ultimately show ?thesis using z assms(2) by (auto elim!: switchuvm_effect)
qed

text \<open>C19: no process grows into the kernel. If every process ends at or below the kernel's base address, the same holds after
  \<^verbatim>\<open>fork\<close>, after \<^verbatim>\<open>growproc\<close> with any argument, and after \<^verbatim>\<open>exec\<close> of any file with any arguments, whether they succeed or fail.\<close>

theorem sizes_below_kernel:
  assumes "\<forall>i. psz (ptable s i) \<le> KERNBASE" and "runs_on K c (hw s)" and "cproc (cpus (hw s) ! c) = Some cur"
    and "fork K s = Inr (r, s') \<or> growproc K n s = Inr (r, s') \<or> exec K path argv s = Inr (r, s')"
  shows "psz (ptable s' i) \<le> KERNBASE"
  using assms(4)
proof (elim disjE)
  assume "fork K s = Inr (r, s')"
  then have "sizes s' i \<in> range (sizes s)" using fork_sizes [of K s r s'] by blast
  then show ?thesis using assms(1) by (auto simp: sizes_def)
next
  assume "growproc K n s = Inr (r, s')"
  then show ?thesis using growproc_sizes [of K n s r s' i] assms(1) by (simp add: sizes_def)
next
  assume "exec K path argv s = Inr (r, s')"
  then show ?thesis using exec_effect [OF _ assms(2,3), of path argv r s'] assms(1) by (auto simp: new_image_def less_imp_le)
qed

theorem sizes_below_kernel_witness:
  "growproc env0 0x7FFFFFFF in_dir = Inr (- 1, in_dir) \<and> psz (ptable in_dir 0) \<le> KERNBASE"
proof -
  have d: "hw in_dir = hw sevens" "ptable in_dir = (\<lambda>_. init_proc\<lparr>cwd := Some 0\<rparr>)"
    by (simp_all add: in_dir_def proc_sys.defs)
  then have run: "growproc env0 0x7FFFFFFF in_dir = Inr (- 1, in_dir)"
    by (simp add: growproc_def in_dir_cur Let_def allocuvm_def KERNBASE_def init_proc_def)
  have r: "runs_on env0 0 (hw in_dir)" "cproc (cpus (hw in_dir) ! 0) = Some 0" "\<forall>i. psz (ptable in_dir i) \<le> KERNBASE"
    by (simp_all add: d KERNBASE_def init_proc_def runs_on_def wf_cpus_def sevens_sels one_cpu_def env0_def cpu_upd_def)
  from sizes_below_kernel [OF r(3,1,2) disjI2 [OF disjI1 [OF run]]] run show ?thesis by blast
qed

end
