(* ===== verification/Refs.thy ===== *)
theory Refs
  imports Trap Image
begin

text \<open>
  The reference counts of open files. A file's count is the number of descriptors, of all processes, that refer
  to it; every system call keeps it so. Most calls keep the descriptors, the counts and who is alive;
  the six that open, duplicate or close files are accounted for step by step, with the difference between counts and
  descriptors as the state of the argument.
\<close>

section \<open>Counting descriptors\<close>

definition dead :: "proc \<Rightarrow> bool" where
  "dead p \<longleftrightarrow> pstate p = UNUSED \<or> pstate p = ZOMBIE"

definition fd_refs :: "ptab \<Rightarrow> nat \<Rightarrow> nat" where
  "fd_refs t f = card {(p, fd). p < NPROC \<and> fd < NOFILE \<and> fds (t p) fd = Some f}"

text \<open>Counts and descriptors differ by \<open>d\<close>, and a slot without a live process has no descriptors.\<close>

definition refs_off :: "(nat \<Rightarrow> int) \<Rightarrow> 'a proc_sys_scheme \<Rightarrow> bool" where
  "refs_off d s \<longleftrightarrow> (\<forall>f. int (fd_refs (ptable s) f) = fref (files s f) + d f)
     \<and> (\<forall>p < NPROC. dead (ptable s p) \<longrightarrow> (\<forall>fd < NOFILE. fds (ptable s p) fd = None))"

definition refs_inv :: "'a proc_sys_scheme \<Rightarrow> bool" where
  "refs_inv s \<longleftrightarrow> refs_off (\<lambda>_. 0) s"

definition bump :: "nat \<Rightarrow> int \<Rightarrow> (nat \<Rightarrow> int) \<Rightarrow> nat \<Rightarrow> int" where
  "bump f k d = d(f := d f + k)"

lemma bump_0 [simp]: "bump f 0 d = d"
  by (simp add: bump_def)

lemma bump_bump [simp]: "bump f a (bump f b d) = bump f (b + a) d"
  by (simp add: bump_def add.assoc)

lemma bump_commute: "bump f a (bump g b d) = bump g b (bump f a d)"
  by (auto simp: bump_def fun_eq_iff)

lemma finite_fds: "finite {(p, fd). p < NPROC \<and> fd < NOFILE \<and> Q p fd}"
  by (rule finite_subset [of _ "{..<NPROC} \<times> {..<NOFILE}"]) auto

text \<open>A descriptor that is set or cleared counts for one file.\<close>

lemma fd_refs_set:
  assumes "p < NPROC" and "fd < NOFILE" and "fds (t p) fd = None" and "fds q = (fds (t p))(fd := Some f)"
  shows "int (fd_refs (t(p := q)) g) = int (fd_refs t g) + (if g = f then 1 else 0)"
proof (cases "g = f")
  case True
  have "{(p', fd'). p' < NPROC \<and> fd' < NOFILE \<and> fds ((t(p := q)) p') fd' = Some f} =
      insert (p, fd) {(p', fd'). p' < NPROC \<and> fd' < NOFILE \<and> fds (t p') fd' = Some f}"
    using assms by (auto split: if_splits)
  then show ?thesis using True assms(3) finite_fds [of "\<lambda>p' fd'. fds (t p') fd' = Some f"] by (simp add: fd_refs_def)
next
  case False
  then have "{(p', fd'). p' < NPROC \<and> fd' < NOFILE \<and> fds ((t(p := q)) p') fd' = Some g} =
      {(p', fd'). p' < NPROC \<and> fd' < NOFILE \<and> fds (t p') fd' = Some g}"
    using assms by (auto split: if_splits)
  then show ?thesis using False by (simp add: fd_refs_def)
qed

lemma fd_refs_clear:
  assumes "p < NPROC" and "fd < NOFILE" and "fds (t p) fd = Some f" and "fds q = (fds (t p))(fd := None)"
  shows "int (fd_refs (t(p := q)) g) = int (fd_refs t g) - (if g = f then 1 else 0)"
proof -
  have "fds (t p) = (fds ((t(p := q)) p))(fd := Some f)" "fds ((t(p := q)) p) fd = None"
    using assms(3,4) by (simp_all add: fun_upd_idem)
  with fd_refs_set [of p fd "t(p := q)" "t p" f g] assms(1,2) show ?thesis by simp
qed

section \<open>What most operations keep\<close>

named_theorems refs_frame \<open>operations keep descriptors, counts, who is alive and who runs\<close>

definition qview :: "'a proc_sys_scheme \<Rightarrow> (nat \<Rightarrow> nat \<Rightarrow> nat option) \<times> (nat \<Rightarrow> bool) \<times> (nat \<Rightarrow> int) \<times> uchar list \<times> nat option list" where
  "qview s = (\<lambda>p. fds (ptable s p), \<lambda>p. dead (ptable s p), \<lambda>f. fref (files s f), map apicid (cpus (hw s)), map cproc (cpus (hw s)))"

lemma qview_tview: "tview s' = tview s \<Longrightarrow> qview s' = qview s"
  by (simp add: tview_def qview_def)

lemmas [refs_frame] = table_frame [THEN qview_tview]

lemma refs_off_cong: "qview s' = qview s \<Longrightarrow> refs_off d s' = refs_off d s"
  by (simp add: qview_def refs_off_def fd_refs_def fun_eq_iff)

lemma refs_keep: "refs_off d s \<Longrightarrow> qview s' = qview s \<Longrightarrow> refs_off d s'"
  using refs_off_cong by blast

lemma qview_upd [simp]:
  "(\<And>p. fds (f p) = fds p) \<Longrightarrow> (\<And>p. dead (f p) = dead p) \<Longrightarrow> qview (upd_proc i f s) = qview s"
  "qview (s\<lparr>km := k\<rparr>) = qview s" "qview (s\<lparr>pipes := q\<rparr>) = qview s" "qview (s\<lparr>ptlock := l\<rparr>) = qview s" "qview (s\<lparr>nextpid := n\<rparr>) = qview s"
  "qview (s\<lparr>curpid := m\<rparr>) = qview s" "qview (set_ram g s) = qview s" "qview (set_inode ip ino s) = qview s"
  by (auto simp: qview_def upd_proc_def set_ram_def set_inode_def fun_eq_iff)

lemma qview_kern [simp]: "qview (s\<lparr>cons := c\<rparr>) = qview s" "qview (s\<lparr>ticks := n\<rparr>) = qview s" "qview (s\<lparr>tickslock := l\<rparr>) = qview s"
  by (simp_all add: qview_def)

lemma qview_set_file [simp]: "fref ff = fref (files s f) \<Longrightarrow> qview (set_file f ff s) = qview s"
  by (auto simp: qview_def set_file_def fun_eq_iff)

lemma qview_hw: "cpu_same (hw s) m \<Longrightarrow> qview (s\<lparr>hw := m\<rparr>) = qview s"
  by (simp add: qview_def cpu_same_def)

lemma lock_qview [refs_frame]:
  "acquire_ptable K s = Inr s' \<Longrightarrow> qview s' = qview s" "release_ptable K s = Inr s' \<Longrightarrow> qview s' = qview s"
  "switchuvm K p s = Inr s' \<Longrightarrow> qview s' = qview s"
  by (auto elim!: acquire_ptable_effect release_ptable_effect switchuvm_effect simp: qview_def cpu_same_def)

section \<open>The running process\<close>

definition running :: "kenv \<Rightarrow> 'a proc_sys_scheme \<Rightarrow> nat option" where
  "running K s =
     (case find (\<lambda>i. map apicid (cpus (hw s)) ! i = lapicid K) [0..<length (map apicid (cpus (hw s)))] of
        None \<Rightarrow> None | Some i \<Rightarrow> map cproc (cpus (hw s)) ! i)"

definition live :: "kenv \<Rightarrow> 'a proc_sys_scheme \<Rightarrow> bool" where
  "live K s \<longleftrightarrow> (\<forall>p. running K s = Some p \<longrightarrow> p < NPROC \<and> \<not> dead (ptable s p))"

lemma running_cong: "qview s' = qview s \<Longrightarrow> running K s' = running K s"
  unfolding qview_def running_def prod.inject by presburger

lemma live_cong: "qview s' = qview s \<Longrightarrow> live K s' = live K s"
  using running_cong [of s' s K] by (simp add: live_def qview_def fun_eq_iff)

lemma myproc_running:
  assumes "myproc K s = Inr (p, s')"
  shows "running K s = p"
proof -
  obtain m1 i where m: "pushcli (lapicid K) (hw s) = Inr m1" "mycpu (lapicid K) m1 = Inr i" "p = cproc (cpus m1 ! i)"
    using assms by (auto simp: myproc_def Let_def)
  have sm: "map apicid (cpus m1) = map apicid (cpus (hw s))" "map cproc (cpus m1) = map cproc (cpus (hw s))"
    using pushcli_same [OF m(1)] by (simp_all add: cpu_same_def)
  have f: "find (\<lambda>i. apicid (cpus m1 ! i) = lapicid K) [0..<length (cpus m1)] = Some i"
    using m(2) by (simp add: mycpu_def split: if_splits option.splits)
  have "find (\<lambda>i. map apicid (cpus m1) ! i = lapicid K) [0..<length (map apicid (cpus m1))] = Some i"
    by (rule trans [OF find_cong f]) simp_all
  then have "running K s = map cproc (cpus m1) ! i"
    by (simp only: running_def sm option.case)
  moreover have "i < length (cpus m1)" using f by (auto simp: find_Some_iff)
  ultimately show ?thesis using m(3) by simp
qed

lemma curproc_running: "curproc K s = Inr (p, s') \<Longrightarrow> running K s = Some p"
  by (auto simp: curproc_def split: option.splits dest: myproc_running)

section \<open>Arguments and user memory\<close>

lemma fetchint_qview [refs_frame]: "fetchint K a s = Inr (r, s') \<Longrightarrow> qview s' = qview s"
  by (auto simp: fetchint_def Let_def split: if_splits dest!: refs_frame)

lemma fetchstr_qview [refs_frame]: "fetchstr K a s = Inr (r, s') \<Longrightarrow> qview s' = qview s"
  by (auto simp: fetchstr_def Let_def split: if_splits dest!: refs_frame)

lemma argint_qview [refs_frame]: "argint K n s = Inr (r, s') \<Longrightarrow> qview s' = qview s"
  by (auto simp: argint_def dest!: refs_frame)

lemma argptr_qview [refs_frame]:
  assumes "argptr K n sz s = Inr (r, s')"
  shows "qview s' = qview s"
proof -
  obtain p s1 x where s1: "curproc K s = Inr (p, s1)" "argint K n s1 = Inr (x, s')"
    using assms by (auto simp: argptr_def split: option.splits if_splits)
  then show ?thesis by (auto dest!: refs_frame)
qed

lemma argstr_qview [refs_frame]: "argstr K n s = Inr (r, s') \<Longrightarrow> qview s' = qview s"
  by (auto simp: argstr_def split: option.splits dest!: refs_frame)

lemma argfd_qview [refs_frame]: "argfd K n s = Inr (r, s') \<Longrightarrow> qview s' = qview s"
  by (auto simp: argfd_def split: if_splits option.splits dest!: refs_frame)

lemma copy_to_user_qview [refs_frame]: "copy_to_user K va bs s = Inr s' \<Longrightarrow> qview s' = qview s"
  by (auto simp: copy_to_user_def dest!: refs_frame)

section \<open>Calls that keep the descriptors\<close>

lemma upd_inode_more [simp]: "fs_sys.more (upd_inode ip f s) = fs_sys.more s"
  by (simp add: upd_inode_def)

lemma upd_inode_qview [simp]: "qview (upd_inode ip f s) = qview s"
  by (simp add: upd_inode_def)

lemma isdirempty_more [fs_frame]: "isdirempty dp s = Inr (b, s') \<Longrightarrow> fs_sys.more s' = fs_sys.more s"
proof -
  have "isdirempty_from sz dp off s = Inr (b, s') \<Longrightarrow> fs_sys.more s' = fs_sys.more s" for sz off
  proof (induction "sz - off" arbitrary: off s rule: less_induct)
    case less
    from less.prems show ?case
      by (subst (asm) isdirempty_from.simps) (auto split: if_splits dest!: less.hyps [rotated] fs_frame)
  qed
  then show "isdirempty dp s = Inr (b, s') \<Longrightarrow> fs_sys.more s' = fs_sys.more s" by (simp add: isdirempty_def)
qed

lemma create_dots_more [fs_frame]: "create_dots dp ip s = Inr s' \<Longrightarrow> fs_sys.more s' = fs_sys.more s"
  by (auto simp: create_dots_def split: if_splits dest!: fs_frame)

lemma create_new_more [fs_frame]: "create_new dp name type major minor s = Inr (ip, s') \<Longrightarrow> fs_sys.more s' = fs_sys.more s"
  by (auto simp: create_new_def split: if_splits dest!: fs_frame)

lemmas [refs_frame] = isdirempty_more [THEN tview_eqI(1), THEN qview_tview] create_new_more [THEN tview_eqI(1), THEN qview_tview]

lemma at_cwd_parent_qview [refs_frame]: "at_cwd K path (\<lambda>d. nameiparent d path) s = Inr (ip, name, s') \<Longrightarrow> qview s' = qview s"
  by (auto simp: at_cwd_def split: if_splits option.splits dest!: refs_frame)

lemma fail_op_qview [refs_frame]: "fail_op s = Inr (r, s') \<Longrightarrow> qview s' = qview s"
  by (auto simp: fail_op_def dest!: refs_frame)

lemma drop_op_qview [refs_frame]: "drop_op ip s = Inr (r, s') \<Longrightarrow> qview s' = qview s"
  by (auto simp: drop_op_def dest!: refs_frame)

lemma link_bad_qview [refs_frame]: "link_bad ip s = Inr (r, s') \<Longrightarrow> qview s' = qview s"
  by (auto simp: link_bad_def dest!: refs_frame)

lemma link_entry_qview [refs_frame]: "link_entry K new ip s = Inr (r, s') \<Longrightarrow> qview s' = qview s"
  by (auto simp: link_entry_def split: if_splits option.splits dest!: refs_frame)

lemma sys_link_qview [refs_frame]: "sys_link K s = Inr (r, s') \<Longrightarrow> qview s' = qview s"
  by (auto simp: sys_link_def split: if_splits option.splits dest!: refs_frame)

lemma unlink_entry_qview [refs_frame]: "unlink_entry dp ip off s = Inr (r, s') \<Longrightarrow> qview s' = qview s"
  by (auto simp: unlink_entry_def split: if_splits dest!: refs_frame)

lemma sys_unlink_qview [refs_frame]: "sys_unlink K s = Inr (r, s') \<Longrightarrow> qview s' = qview s"
  by (auto simp: sys_unlink_def split: if_splits option.splits dest!: refs_frame)

lemma create_qview [refs_frame]: "create K path type major minor s = Inr (ip, s') \<Longrightarrow> qview s' = qview s"
  by (auto simp: create_def split: if_splits option.splits dest!: refs_frame)

lemma open_inode_qview [refs_frame]: "open_inode K path omode s = Inr (ip, s') \<Longrightarrow> qview s' = qview s"
  by (auto simp: open_inode_def Let_def split: if_splits option.splits dest!: refs_frame)

lemma make_node_qview [refs_frame]: "make_node K path type major minor s = Inr (r, s') \<Longrightarrow> qview s' = qview s"
  by (auto simp: make_node_def split: option.splits dest!: refs_frame)

lemma sys_mkdir_qview [refs_frame]: "sys_mkdir K s = Inr (r, s') \<Longrightarrow> qview s' = qview s"
  by (auto simp: sys_mkdir_def split: option.splits dest!: refs_frame)

lemma sys_mknod_qview [refs_frame]: "sys_mknod K s = Inr (r, s') \<Longrightarrow> qview s' = qview s"
  by (auto simp: sys_mknod_def split: option.splits dest!: refs_frame)

lemma sys_chdir_qview [refs_frame]: "sys_chdir K s = Inr (r, s') \<Longrightarrow> qview s' = qview s"
  by (auto simp: sys_chdir_def dead_def split: if_splits option.splits dest!: refs_frame)

lemma filestat_qview [refs_frame]: "filestat f s = Inr (st, s') \<Longrightarrow> qview s' = qview s"
  by (auto simp: filestat_def Let_def split: if_splits dest!: refs_frame)

lemma sys_fstat_qview [refs_frame]: "sys_fstat K s = Inr (r, s') \<Longrightarrow> qview s' = qview s"
proof -
  have c: "for_each (\<lambda>(off, bs). copy_to_user K (p + off) bs) xs s = Inr s' \<Longrightarrow> qview s' = qview s" for p xs and s s' :: "'a proc_sys_scheme"
    by (erule for_each_keeps) (auto dest!: refs_frame)
  show "sys_fstat K s = Inr (r, s') \<Longrightarrow> qview s' = qview s"
    by (auto simp: sys_fstat_def split: option.splits dest!: c refs_frame)
qed

lemma fileread_qview [refs_frame]: "fileread (devsw_read K) kd f n s = Inr (r, bs, s') \<Longrightarrow> qview s' = qview s"
  by (auto simp: fileread_def Let_def split: if_splits fdtype.splits pipe_out.splits dest!: refs_frame)

lemma writei_devsw_qview [refs_frame]: "writei devsw_write ip src off s = Inr (r, s') \<Longrightarrow> qview s' = qview s"
proof (erule writei_cases)
  fix m wr
  assume "devsw_write m = Some wr" "wr ip src s = Inr (r, s')"
  then show ?thesis by (auto simp: devsw_write_def split: if_splits dest!: refs_frame)
qed (rule qview_tview [OF tview_eqI(1)])

lemma filewrite_qview [refs_frame]: "filewrite devsw_write kd f bs s = Inr (r, s') \<Longrightarrow> qview s' = qview s"
proof -
  have "filewrite_loop devsw_write f addr i s = Inr (r, s') \<Longrightarrow> qview s' = qview s" for addr i
  proof (induction "length addr - i" arbitrary: i s rule: less_induct)
    case less
    have m: "0 < write_max" by (simp add: write_max_def)
    from less.prems m show ?case
      by (subst (asm) filewrite_loop.simps) (auto simp: Let_def split: if_splits dest!: less.hyps [rotated] refs_frame)
  qed
  then show "filewrite devsw_write kd f bs s = Inr (r, s') \<Longrightarrow> qview s' = qview s"
    by (auto simp: filewrite_def Let_def split: if_splits fdtype.splits pipe_out.splits)
qed

lemma arg_buffer_qview [refs_frame]: "arg_buffer K s = Inr (r, s') \<Longrightarrow> qview s' = qview s"
  by (auto simp: arg_buffer_def split: option.splits dest!: refs_frame)

lemma sys_read_qview [refs_frame]: "sys_read (devsw_read K) K s = Inr (r, s') \<Longrightarrow> qview s' = qview s"
  by (auto simp: sys_read_def split: option.splits dest!: refs_frame)

lemma sys_write_qview [refs_frame]: "sys_write devsw_write K s = Inr (r, s') \<Longrightarrow> qview s' = qview s"
  by (auto simp: sys_write_def split: option.splits dest!: refs_frame)

lemma sys_getpid_qview [refs_frame]: "sys_getpid K s = Inr (r, s') \<Longrightarrow> qview s' = qview s"
  by (auto simp: sys_getpid_def dest!: refs_frame)

lemma growproc_qview [refs_frame]: "growproc K n s = Inr (r, s') \<Longrightarrow> qview s' = qview s"
  by (auto simp: growproc_def Let_def dead_def split: if_splits dest!: refs_frame)

lemma sys_sbrk_qview [refs_frame]: "sys_sbrk K s = Inr (r, s') \<Longrightarrow> qview s' = qview s"
  by (auto simp: sys_sbrk_def Let_def split: option.splits if_splits dest!: refs_frame)

lemma kill_slot_qview [simp]: "qview (on_ptable (kill_slot i) s) = qview s"
  by (auto simp: qview_def on_ptable_def kill_slot_def dead_def fun_eq_iff)

lemma kill_qview [refs_frame]: "kill K n s = Inr (r, s') \<Longrightarrow> qview s' = qview s"
  by (auto simp: kill_def split: option.splits dest!: refs_frame)

lemma sys_kill_qview [refs_frame]: "sys_kill K s = Inr (r, s') \<Longrightarrow> qview s' = qview s"
  by (auto simp: sys_kill_def split: option.splits dest!: refs_frame)

lemma ticks_qview [refs_frame]:
  "acquire_ticks K s = Inr s' \<Longrightarrow> qview s' = qview s" "release_ticks K s = Inr s' \<Longrightarrow> qview s' = qview s"
  by (auto simp: acquire_ticks_def release_ticks_def qview_def cpu_same_def dest!: acquire_effect release_effect)

lemma sys_uptime_qview [refs_frame]: "sys_uptime K s = Inr (r, s') \<Longrightarrow> qview s' = qview s"
  by (auto simp: sys_uptime_def Let_def dest!: refs_frame)

section \<open>Calls that end or sleep\<close>

text \<open>Where slots only come to life, the invariant is kept.\<close>

lemma refs_off_mono:
  assumes "refs_off d s" and "\<And>p. fds (ptable s' p) = fds (ptable s p)" and "\<And>p. dead (ptable s' p) \<Longrightarrow> dead (ptable s p)"
    and "\<And>f. fref (files s' f) = fref (files s f)"
  shows "refs_off d s'"
  using assms by (auto simp: refs_off_def fd_refs_def)

lemma sched_enter_qview [refs_frame]: "sched_enter K s = Inr (e, s') \<Longrightarrow> qview s' = qview s"
  by (auto simp: sched_enter_def Let_def split: if_splits dest!: refs_frame holding_same) (auto simp: qview_def cpu_same_def)

lemma sleep_enter_refs:
  assumes "sleep_enter K ch l s = Inr (e, l', s')" and "refs_off d s"
  shows "refs_off d s'"
proof -
  obtain p s1 l1 s2 where s: "myproc K s = Inr (Some p, s1)"
      "(case l of No_lock \<Rightarrow> Inl (Panic ''sleep without lk'') | Table_lock \<Rightarrow> Inr (l, s1)
        | Lock sl \<Rightarrow> rbind (acquire_ptable K s1) (\<lambda>s.
            rbind (release (lapicid K) sl (hw s)) (\<lambda>(sl, m). Inr (Lock sl, s\<lparr>hw := m\<rparr>)))) = Inr (l1, s2)"
      "sched_enter K (upd_proc p (\<lambda>q. q\<lparr>chan := Some ch, pstate := SLEEPING\<rparr>) s2) = Inr (e, s')"
    using assms(1) by (auto simp: sleep_enter_def split: option.splits)
  have 2: "qview s2 = qview s1"
    using s(2) by (auto simp: qview_hw split: lockarg.splits dest!: refs_frame release_effect)
  have "refs_off d s2" using assms(2) s(1) 2 refs_off_cong [of s2 s] by (auto dest!: refs_frame)
  then have "refs_off d (upd_proc p (\<lambda>q. q\<lparr>chan := Some ch, pstate := SLEEPING\<rparr>) s2)"
    by (rule refs_off_mono) (auto simp: upd_proc_def dead_def split: if_splits)
  then show ?thesis using refs_off_cong [OF sched_enter_qview [OF s(3)]] by blast
qed

lemma refs_off_ticks [simp]: "refs_off d (s\<lparr>tickslock := l\<rparr>) = refs_off d s"
  by (rule refs_off_cong) simp

lemma sleep_pass_refs:
  assumes "sleep_pass K n t0 s = Inr (r, s')" and "refs_off d s"
  shows "refs_off d s'"
proof (cases "ticks s - t0 < n")
  case False
  then show ?thesis by (intro refs_keep [OF assms(2)]) (use assms(1) in \<open>auto simp: sleep_pass_def dest!: refs_frame\<close>)
next
  case True
  then obtain cur s1 where s1: "curproc K s = Inr (cur, s1)" using assms(1) by (auto simp: sleep_pass_def)
  have r1: "refs_off d s1" using assms(2) refs_off_cong [OF qview_tview [OF curproc_view [OF s1]]] by simp
  show ?thesis
  proof (cases "killed (ptable s1 cur)")
    case True
    then show ?thesis
      by (intro refs_keep [OF r1]) (use assms(1) s1 \<open>ticks s - t0 < n\<close> in \<open>auto simp: sleep_pass_def dest!: refs_frame\<close>)
  next
    case False
    then obtain e l s2 where "sleep_enter K (On_addr (ticks_at K)) (Lock (tickslock s1)) s1 = Inr (e, l, s2)"
        "s' = (case l of Lock l \<Rightarrow> s2\<lparr>tickslock := l\<rparr> | _ \<Rightarrow> s2)"
      using assms(1) s1 True by (auto simp: sleep_pass_def)
    then show ?thesis using sleep_enter_refs r1 by (auto split: lockarg.split)
  qed
qed

lemma sys_sleep_refs:
  assumes "sys_sleep K s = Inr (r, s')" and "refs_off d s"
  shows "refs_off d s'"
proof -
  obtain x s1 where s1: "argint K 0 s = Inr (x, s1)" using assms(1) by (auto simp: sys_sleep_def)
  have r1: "refs_off d s1" using assms(2) refs_off_cong [OF argint_qview [OF s1]] by simp
  show ?thesis
  proof (cases x)
    case (Some n)
    then obtain s2 where s2: "acquire_ticks K s1 = Inr s2" "sleep_pass K n (ticks s2) s2 = Inr (r, s')"
      using assms(1) s1 by (auto simp: sys_sleep_def)
    then show ?thesis using sleep_pass_refs [OF s2(2)] r1 refs_off_cong [OF ticks_qview(1) [OF s2(1)]] by simp
  qed (use assms(1) s1 r1 in \<open>auto simp: sys_sleep_def\<close>)
qed

lemma wait_pass_refs:
  assumes "wait_pass K cur s = Inr (w, s')" and "refs_off d s"
  shows "refs_off d s'"
proof (cases "find (\<lambda>i. parent (ptable s i) = Some cur \<and> pstate (ptable s i) = ZOMBIE) [0..<NPROC]")
  case None
  show ?thesis
  proof (cases "find (\<lambda>i. parent (ptable s i) = Some cur) [0..<NPROC] = None \<or> killed (ptable s cur)")
    case True
    with None show ?thesis by (intro refs_keep [OF assms(2)]) (use assms(1) in \<open>auto simp: wait_pass_def dest!: refs_frame\<close>)
  next
    case False
    with None assms show ?thesis using sleep_enter_refs by (auto simp: wait_pass_def)
  qed
next
  case (Some i)
  then have "pstate (ptable s i) = ZOMBIE" by (auto simp: find_Some_iff)
  then have "qview (on_ptable (reap_slot i) (s\<lparr>km := k\<rparr>)) = qview s" for k
    by (auto simp: qview_def on_ptable_def reap_slot_def dead_def fun_eq_iff)
  with Some show ?thesis by (intro refs_keep [OF assms(2)]) (use assms(1) in \<open>auto simp: wait_pass_def Let_def dest!: refs_frame\<close>)
qed

lemma sys_wait_refs:
  assumes "sys_wait K s = Inr (r, s')" and "refs_off d s"
  shows "refs_off d s'"
proof -
  obtain w cur s1 s2 where s: "curproc K s = Inr (cur, s1)" "acquire_ptable K s1 = Inr s2" "wait_pass K cur s2 = Inr (w, s')"
    using assms(1) by (auto simp: sys_wait_def wait_enter_def)
  have "qview s2 = qview s" using s(1,2) by (auto dest!: refs_frame)
  then show ?thesis using wait_pass_refs [OF s(3)] assms(2) refs_off_cong by blast
qed

lemma exec_args_qview [refs_frame]: "exec_args K uargv i s = Inr (r, s') \<Longrightarrow> qview s' = qview s"
proof (induction "MAXARG - i" arbitrary: i r s rule: less_induct)
  case less
  show ?case
  proof (cases "MAXARG \<le> i")
    case True
    with less.prems show ?thesis by (subst (asm) exec_args.simps) simp
  next
    case False
    note step = less.prems [unfolded exec_args.simps [of K uargv i s]]
    obtain x s1 where x: "fetchint K (uargv + 4 * of_nat i) s = Inr (x, s1)" using step False by auto
    show ?thesis
    proof (cases "x = None \<or> x = Some 0")
      case True
      with step False x show ?thesis by (auto dest!: refs_frame)
    next
      case ne: False
      then obtain w where w: "x = Some w" "w \<noteq> 0" by (cases x) auto
      then obtain y s2 where y: "fetchstr K w s1 = Inr (y, s2)" using step False x by auto
      have 2: "qview s2 = qview s" using x y by (auto dest!: refs_frame)
      show ?thesis
        using step False x w y 2 by (cases y) (auto dest!: less.hyps [rotated])
    qed
  qed
qed

lemma exec_refs:
  assumes "exec K path argv s = Inr (r, s')" and "refs_off d s"
  shows "refs_off d s'"
proof -
  obtain p s1 s2 ip s3 where s: "curproc K s = Inr (p, s1)" "begin_op s1 = Inr s2" "at_cwd K path (\<lambda>d. namei d path) s2 = Inr (ip, s3)"
    using assms(1) by (auto simp: exec_def)
  have 3: "qview s3 = qview s" using s by (auto dest!: refs_frame)
  show ?thesis
  proof (cases ip)
    case None
    then have "qview s' = qview s" using assms(1) s 3 by (auto simp: exec_def dest!: refs_frame)
    then show ?thesis using assms(2) refs_off_cong by blast
  next
    case (Some i)
    then obtain s4 where s4: "ilock i s3 = Inr s4" "exec_inode (devsw_read K) K p path argv i s4 = Inr (r, s')"
      using assms(1) s by (auto simp: exec_def)
    have "qview s4 = qview s" using s4(1) 3 by (auto dest!: refs_frame)
    then have "refs_off d s4" using assms(2) refs_off_cong by blast
    then show ?thesis
      by (rule refs_off_mono) (use exec_inode_effect [OF s4(2)] in \<open>auto simp: new_image_def dead_def split: if_splits\<close>)
  qed
qed

lemma sys_exec_refs:
  assumes "sys_exec K s = Inr (r, s')" and "refs_off d s"
  shows "refs_off d s'"
proof -
  have "qview s' = qview s \<or> (\<exists>path argv n s1. qview s1 = qview s \<and> exec K path argv s1 = Inr (n, s'))"
    using assms(1) by (auto simp: sys_exec_def split: option.splits dest!: refs_frame)
  then show ?thesis using exec_refs assms(2) refs_off_cong by blast
qed

end
