(* ===== verification/Fd_Count.thy ===== *)
theory Fd_Count
  imports Refs
begin

text \<open>
  The system calls that open, duplicate and close files, accounted for step by step, and the
  invariant of the reference counts over the whole system call table.
\<close>

section \<open>Calls that open, duplicate and close\<close>

text \<open>What stays besides the counts, in the accounts below.\<close>

definition same_table :: "'a proc_sys_scheme \<Rightarrow> 'a proc_sys_scheme \<Rightarrow> bool" where
  "same_table s s' \<longleftrightarrow> ptable s' = ptable s \<and> cpu_same (hw s) (hw s')"

lemma same_table_tview: "tview s' = tview s \<Longrightarrow> same_table s s'"
  by (simp add: same_table_def tview_def cpu_same_def)

lemma same_table_refl [simp]: "same_table s s"
  by (simp add: same_table_def)

lemma same_table_trans: "same_table s s' \<Longrightarrow> same_table s' s'' \<Longrightarrow> same_table s s''"
  by (auto simp: same_table_def intro: cpu_same_trans)

lemma running_same: "same_table s s' \<Longrightarrow> running K s' = running K s"
  unfolding same_table_def cpu_same_def running_def by presburger

lemma live_same: "same_table s s' \<Longrightarrow> live K s' = live K s"
  using running_same [of s s' K] by (simp add: same_table_def live_def)

lemma running_upd_proc [simp]: "running K (upd_proc p f s) = running K s"
proof -
  have "hw (upd_proc p f s) = hw s" by (simp add: upd_proc_def)
  then show ?thesis by (simp only: running_def)
qed

lemma refs_off_file:
  assumes "refs_off d s" and "ptable s' = ptable s" and "\<And>g. fref (files s' g) = fref (files s g) + (if g = f then k else 0)"
  shows "refs_off (bump f (- k) d) s'"
  using assms by (auto simp: refs_off_def bump_def)

lemma filealloc_refs:
  assumes "filealloc s = (Some f, s')" and "refs_off d s"
  shows "refs_off (bump f (- 1) d) s'" and "same_table s s'"
proof -
  note a = filealloc_Some [OF assms(1)]
  show "refs_off (bump f (- 1) d) s'" by (rule refs_off_file [OF assms(2)]) (use a in \<open>auto simp: set_file_def\<close>)
  show "same_table s s'" using a by (simp add: same_table_def set_file_def)
qed

lemma filedup_refs:
  assumes "filedup f s = Inr (g, s')" and "refs_off d s"
  shows "refs_off (bump f (- 1) d) s'" and "same_table s s'"
proof -
  show "refs_off (bump f (- 1) d) s'"
    by (rule refs_off_file [OF assms(2)]) (use assms(1) in \<open>auto simp: filedup_def set_file_def split: if_splits\<close>)
  show "same_table s s'" using assms(1) by (auto simp: filedup_def same_table_def set_file_def split: if_splits)
qed

lemma fileclose_effect:
  assumes "fileclose f s = Inr s'"
  shows "same_table s s' \<and> (\<forall>g. fref (files s' g) = fref (files s g) + (if g = f then - 1 else 0))"
proof (cases "0 < fref (files s f) - 1")
  case True
  with assms show ?thesis by (auto simp: fileclose_def Let_def same_table_def set_file_def split: if_splits)
next
  case False
  define t where "t = set_file f ((files s f)\<lparr>fref := 0, ftype := FD_NONE\<rparr>) s"
  have ref: "fref (files s f) = 1" using assms False by (auto simp: fileclose_def Let_def split: if_splits)
  have t: "same_table s t" "fref (files t g) = fref (files s g) + (if g = f then - 1 else 0)" for g
    using ref by (auto simp: t_def same_table_def set_file_def)
  have "same_table t s' \<and> files s' = files t"
  proof (cases "ftype (files s f)")
    case FD_PIPE
    with assms ref show ?thesis
      by (auto simp: fileclose_def pipeclose_def Let_def same_table_def t_def split: if_splits)
  next
    case FD_INODE
    with assms ref obtain s1 s2 where "begin_op t = Inr s1" "iput (fip (files s f)) s1 = Inr s2" "end_op s2 = Inr s'"
      by (auto simp: fileclose_def Let_def t_def)
    then have "tview s' = tview t" by (auto dest!: table_frame)
    then show ?thesis by (auto simp: same_table_tview dest: tviewD)
  next
    case FD_NONE
    with assms ref show ?thesis by (auto simp: fileclose_def Let_def t_def)
  qed
  with t show ?thesis by (auto intro: same_table_trans)
qed

lemma fileclose_refs:
  assumes "fileclose f s = Inr s'" and "refs_off d s"
  shows "refs_off (bump f 1 d) s'" and "same_table s s'"
proof -
  note e = fileclose_effect [OF assms(1)]
  show "refs_off (bump f 1 d) s'"
    using refs_off_file [OF assms(2), of s' f "- 1"] e by (simp add: same_table_def)
  show "same_table s s'" using e by simp
qed

lemma refs_off_set_fd:
  assumes "refs_off d s" and "p < NPROC" and "fd < NOFILE" and "fds (ptable s p) fd = None" and "\<not> dead (ptable s p)"
  shows "refs_off (bump f 1 d) (upd_proc p (\<lambda>q. q\<lparr>fds := (fds q)(fd := Some f)\<rparr>) s)"
  using assms fd_refs_set [of p fd "ptable s" "(ptable s p)\<lparr>fds := (fds (ptable s p))(fd := Some f)\<rparr>" f]
  by (auto simp: refs_off_def upd_proc_def bump_def dead_def)

lemma refs_off_clear_fd:
  assumes "refs_off d s" and "p < NPROC" and "fd < NOFILE" and "fds (ptable s p) fd = Some f"
  shows "refs_off (bump f (- 1) d) (upd_proc p (\<lambda>q. q\<lparr>fds := (fds q)(fd := None)\<rparr>) s)"
  using assms fd_refs_clear [of p fd "ptable s" f "(ptable s p)\<lparr>fds := (fds (ptable s p))(fd := None)\<rparr>"]
  by (auto simp: refs_off_def upd_proc_def bump_def dead_def)

lemma live_upd_proc: "(\<And>q. dead (f q) = dead q) \<Longrightarrow> live K (upd_proc p f s) = live K s"
proof -
  assume f: "\<And>q. dead (f q) = dead q"
  have "dead (ptable (upd_proc p f s) q) = dead (ptable s q)" for q
    by (simp add: upd_proc_def f)
  then show ?thesis by (simp add: live_def)
qed

lemma fdalloc_refs:
  assumes "fdalloc K f s = Inr (Some fd, s')" and "refs_off d s" and "live K s"
  shows "refs_off (bump f 1 d) s'" and "live K s'" and "\<exists>cur. running K s' = Some cur \<and> fds (ptable s' cur) fd = Some f \<and> fd < NOFILE"
proof -
  obtain cur s1 where c: "curproc K s = Inr (cur, s1)" "find (\<lambda>fd. fds (ptable s1 cur) fd = None) [0..<NOFILE] = Some fd"
      "s' = upd_proc cur (\<lambda>p. p\<lparr>fds := (fds p)(fd := Some f)\<rparr>) s1"
    using assms(1) by (auto simp: fdalloc_def split: option.splits)
  have q: "qview s1 = qview s" using c(1) by (auto dest!: refs_frame)
  have l: "live K s1" "refs_off d s1" "running K s1 = Some cur"
    using q assms(2,3) live_cong refs_keep running_cong [OF q] curproc_running [OF c(1)] by auto
  then have a: "cur < NPROC" "\<not> dead (ptable s1 cur)" by (auto simp: live_def)
  have fd: "fd < NOFILE" "fds (ptable s1 cur) fd = None" using c(2) by (auto simp: find_Some_iff)
  show "refs_off (bump f 1 d) s'" unfolding c(3) by (rule refs_off_set_fd [OF l(2) a(1) fd a(2)])
  show "live K s'" using l(1) by (simp add: c(3) live_upd_proc dead_def)
  have "running K s' = Some cur" using l(3) by (simp add: c(3))
  then show "\<exists>cur. running K s' = Some cur \<and> fds (ptable s' cur) fd = Some f \<and> fd < NOFILE" using fd by (simp add: c(3) upd_proc_def)
qed

lemma fdalloc_None [refs_frame]: "fdalloc K f s = Inr (None, s') \<Longrightarrow> qview s' = qview s"
  by (auto simp: fdalloc_def split: option.splits dest!: refs_frame)

lemma clear_fd_refs:
  assumes "clear_fd K fd s = Inr s'" and "refs_off d s" and "live K s" and "running K s = Some cur"
    and "fds (ptable s cur) fd = Some f" and "fd < NOFILE"
  shows "refs_off (bump f (- 1) d) s'"
proof -
  obtain p s1 where c: "curproc K s = Inr (p, s1)" "s' = upd_proc p (\<lambda>p. p\<lparr>fds := (fds p)(fd := None)\<rparr>) s1"
    using assms(1) by (auto simp: clear_fd_def)
  have v: "tview s1 = tview s" using c(1) by (auto dest!: table_frame)
  then have q: "qview s1 = qview s" by (rule qview_tview)
  have p: "p = cur" using curproc_running [OF c(1)] assms(4) by simp
  have "cur < NPROC" using assms(3,4) by (auto simp: live_def)
  then show ?thesis
    unfolding c(2) p using refs_keep [OF assms(2) q] assms(5,6) tviewD(1) [OF v] by (intro refs_off_clear_fd) auto
qed

lemma argfd_Some:
  assumes "argfd K n s = Inr (Some (fd, f), s')"
  shows "\<exists>cur. running K s' = Some cur \<and> fds (ptable s' cur) fd = Some f \<and> fd < NOFILE"
proof -
  obtain w s1 cur where w: "argint K n s = Inr (Some w, s1)" "\<not> (sint w < 0 \<or> int NOFILE \<le> sint w)" "curproc K s1 = Inr (cur, s')"
      "fd = unat w" "fds (ptable s' cur) (unat w) = Some f"
    using assms by (auto simp: argfd_def split: option.splits if_splits)
  have "running K s' = Some cur"
    using curproc_running [OF w(3)] running_cong [OF curproc_view [OF w(3), THEN qview_tview]] by simp
  moreover have "uint w = sint w" using uint_word_of_int [of "sint w", where 'a = 32] w(2) by simp
  then have "unat w < NOFILE" using w(2) by (simp add: unat_eq_nat_uint nat_less_iff)
  ultimately show ?thesis using w(4,5) by auto
qed

lemma sys_dup_refs:
  assumes "sys_dup K s = Inr (r, s')" and "refs_off d s" and "live K s"
  shows "refs_off d s'"
proof -
  obtain x s1 where x: "argfd K 0 s = Inr (x, s1)" using assms(1) by (auto simp: sys_dup_def)
  have q: "qview s1 = qview s" using x by (auto dest!: refs_frame)
  note r1 = refs_keep [OF assms(2) q] and l1 = live_cong [OF q, THEN iffD2, OF assms(3)]
  show ?thesis
  proof (cases x)
    case None
    with assms(1) x r1 show ?thesis by (simp add: sys_dup_def)
  next
    case (Some y)
    obtain fd f where y: "y = (fd, f)" by (cases y)
    obtain z s2 where z: "fdalloc K f s1 = Inr (z, s2)" using assms(1) x Some y by (auto simp: sys_dup_def)
    show ?thesis
    proof (cases z)
      case None
      then have "s' = s2" using assms(1) x Some y z by (simp add: sys_dup_def)
      then show ?thesis using refs_keep [OF r1 fdalloc_None] z None by blast
    next
      case (Some fd')
      then obtain g where "filedup f s2 = Inr (g, s')" using assms(1) x \<open>x = Some y\<close> y z by (auto simp: sys_dup_def)
      from filedup_refs(1) [OF this fdalloc_refs(1) [OF z [unfolded Some] r1 l1]] show ?thesis by simp
    qed
  qed
qed

lemma sys_close_refs:
  assumes "sys_close K s = Inr (r, s')" and "refs_off d s" and "live K s"
  shows "refs_off d s'"
proof -
  obtain x s1 where x: "argfd K 0 s = Inr (x, s1)" using assms(1) by (auto simp: sys_close_def)
  have q: "qview s1 = qview s" using x by (auto dest!: refs_frame)
  note r1 = refs_keep [OF assms(2) q] and l1 = live_cong [OF q, THEN iffD2, OF assms(3)]
  show ?thesis
  proof (cases x)
    case None
    with assms(1) x r1 show ?thesis by (simp add: sys_close_def)
  next
    case (Some y)
    obtain fd f where y: "y = (fd, f)" by (cases y)
    obtain s2 where s2: "clear_fd K fd s1 = Inr s2" "fileclose f s2 = Inr s'" using assms(1) x Some y by (auto simp: sys_close_def)
    obtain cur where "running K s1 = Some cur" "fds (ptable s1 cur) fd = Some f" "fd < NOFILE"
      using argfd_Some [OF x [unfolded Some y]] by blast
    from fileclose_refs(1) [OF s2(2) clear_fd_refs [OF s2(1) r1 l1 this]] show ?thesis by simp
  qed
qed

lemma open_file_refs:
  assumes "open_file K s = Inr (x, s')" and "refs_off d s" and "live K s"
  shows "refs_off d s'"
proof (cases "fst (filealloc s)")
  case None
  then have "filealloc s = (None, s)" by (auto simp: filealloc_def split: option.splits)
  with assms show ?thesis by (simp add: open_file_def)
next
  case (Some f)
  then obtain s1 where s1: "filealloc s = (Some f, s1)" by (cases "filealloc s") auto
  note r1 = filealloc_refs(1) [OF s1 assms(2)] and l1 = live_same [OF filealloc_refs(2) [OF s1 assms(2)], THEN iffD2, OF assms(3)]
  obtain z s2 where z: "fdalloc K f s1 = Inr (z, s2)" using assms(1) s1 by (auto simp: open_file_def)
  show ?thesis
  proof (cases z)
    case None
    then have "fileclose f s2 = Inr s'" using assms(1) s1 z by (auto simp: open_file_def)
    from fileclose_refs(1) [OF this refs_keep [OF r1 fdalloc_None [OF z [unfolded None]]]] show ?thesis by simp
  next
    case (Some fd)
    with assms(1) s1 z fdalloc_refs(1) [OF z [unfolded Some] r1 l1] show ?thesis by (simp add: open_file_def)
  qed
qed

lemma sys_open_refs:
  assumes "sys_open K s = Inr (r, s')" and "refs_off d s" and "live K s"
  shows "refs_off d s'"
proof -
  obtain a s1 where a: "argstr K 0 s = Inr (a, s1)" using assms(1) by (auto simp: sys_open_def)
  show ?thesis
  proof (cases a)
    case None
    with a assms(1) show ?thesis by (intro refs_keep [OF assms(2)]) (auto simp: sys_open_def dest!: refs_frame)
  next
    case (Some path)
    then obtain b s2 where b: "argint K 1 s1 = Inr (b, s2)" using assms(1) a by (auto simp: sys_open_def split: prod.splits)
    have 2: "qview s2 = qview s" using a b by (auto dest!: refs_frame)
    show ?thesis
    proof (cases b)
      case None
      with assms(1) a Some b 2 show ?thesis by (intro refs_keep [OF assms(2)]) (auto simp: sys_open_def)
    next
      case om: (Some omode)
      then obtain s3 ip s4 where c: "begin_op s2 = Inr s3" "open_inode K (snd path) omode s3 = Inr (ip, s4)"
        using assms(1) a Some b by (auto simp: sys_open_def split: prod.splits)
      have 4: "qview s4 = qview s" using c 2 by (auto dest!: refs_frame)
      note run = assms(1) a Some b om c
      show ?thesis
      proof (cases ip)
        case None
        with run 4 show ?thesis by (intro refs_keep [OF assms(2)]) (auto simp: sys_open_def split: prod.splits)
      next
        case i: (Some i)
        with run obtain x s5 where x: "open_file K s4 = Inr (x, s5)" by (auto simp: sys_open_def split: prod.splits)
        have "qview s' = qview s5"
          using run i x by (cases x) (auto simp: sys_open_def split: prod.splits dest!: refs_frame)
        moreover have "refs_off d s5"
          by (rule open_file_refs [OF x refs_keep [OF assms(2) 4] live_cong [OF 4, THEN iffD2, OF assms(3)]])
        ultimately show ?thesis by (rule refs_keep [rotated])
      qed
    qed
  qed
qed

section \<open>Pipes\<close>

lemma filealloc_cases:
  obtains "filealloc s = (None, s)" | f s1 where "filealloc s = (Some f, s1)"
  by (cases "filealloc s"; cases "fst (filealloc s)") (auto simp: filealloc_def split: option.splits)

lemma close_both:
  assumes "fileclose f s = Inr s1" and "fileclose g s1 = Inr s'" and "refs_off (bump g (- 1) (bump f (- 1) d)) s"
  shows "refs_off d s'"
proof -
  have "refs_off (bump g 1 (bump f 1 (bump g (- 1) (bump f (- 1) d)))) s'"
    by (rule fileclose_refs(1) [OF assms(2) fileclose_refs(1) [OF assms(1,3)]])
  then show ?thesis by (simp add: bump_commute [of f 1])
qed

lemma pipealloc_refs:
  assumes "pipealloc s = Inr (x, s')" and "refs_off d s"
  shows "case x of None \<Rightarrow> refs_off d s' | Some (f, g) \<Rightarrow> refs_off (bump g (- 1) (bump f (- 1) d)) s' \<and> same_table s s'"
proof (rule filealloc_cases [of s])
  assume "filealloc s = (None, s)"
  with assms show ?thesis by (auto simp: pipealloc_def)
next
  fix f s1
  assume f: "filealloc s = (Some f, s1)"
  note r1 = filealloc_refs [OF f assms(2)]
  show ?thesis
  proof (rule filealloc_cases [of s1])
    assume "filealloc s1 = (None, s1)"
    then have "x = None" "fileclose f s1 = Inr s'" using assms(1) f by (auto simp: pipealloc_def)
    then show ?thesis using fileclose_refs(1) [OF _ r1(1), of f s'] by simp
  next
    fix g s2
    assume g: "filealloc s1 = (Some g, s2)"
    note r2 = filealloc_refs [OF g r1(1)]
    obtain p k where k: "kalloc (km s2) = (p, k)" by (cases "kalloc (km s2)")
    have r3: "refs_off (bump g (- 1) (bump f (- 1) d)) (s2\<lparr>km := k\<rparr>)" by (rule refs_keep [OF r2(1)]) simp
    show ?thesis
    proof (cases "p = 0")
      case True
      then obtain s3 where "x = None" "fileclose f (s2\<lparr>km := k\<rparr>) = Inr s3" "fileclose g s3 = Inr s'"
        using assms(1) f g k by (auto simp: pipealloc_def)
      then show ?thesis using close_both r3 by auto
    next
      case False
      then have x: "x = Some (f, g)" and q: "qview s' = qview (s2\<lparr>km := k\<rparr>)" and "ptable s' = ptable s2" "hw s' = hw s2"
        using assms(1) f g k by (auto simp: pipealloc_def Let_def) (auto simp: set_file_def)
      then have "same_table s s'" using same_table_trans [OF r1(2) r2(2)] by (simp add: same_table_def)
      then show ?thesis using x refs_keep [OF r3 q] by simp
    qed
  qed
qed

lemma sys_pipe_refs:
  assumes "sys_pipe K s = Inr (r, s')" and "refs_off d s" and "live K s"
  shows "refs_off d s'"
proof -
  obtain a s1 where a: "argptr K 0 8 s = Inr (a, s1)" using assms(1) by (auto simp: sys_pipe_def)
  have 1: "qview s1 = qview s" using a by (auto dest!: refs_frame)
  note r1 = refs_keep [OF assms(2) 1] and l1 = live_cong [OF 1, THEN iffD2, OF assms(3)]
  show ?thesis
  proof (cases a)
    case None
    with assms(1) a r1 show ?thesis by (simp add: sys_pipe_def)
  next
    case (Some va)
    then obtain x s2 where x: "pipealloc s1 = Inr (x, s2)" using assms(1) a by (auto simp: sys_pipe_def)
    note r2 = pipealloc_refs [OF x r1]
    show ?thesis
    proof (cases x)
      case None
      with assms(1) a Some x r2 show ?thesis by (simp add: sys_pipe_def)
    next
      case xs: (Some fg)
      obtain f g where fg: "fg = (f, g)" by (cases fg)
      have r2: "refs_off (bump g (- 1) (bump f (- 1) d)) s2" and l2: "live K s2"
        using r2 xs fg live_same l1 by auto
      obtain y s3 where y: "fdalloc K f s2 = Inr (y, s3)" using assms(1) a Some x xs fg by (auto simp: sys_pipe_def Let_def)
      note run = assms(1) a Some x xs fg y
      show ?thesis
      proof (cases y)
        case None
        have "refs_off (bump g (- 1) (bump f (- 1) d)) s3" by (rule refs_keep [OF r2 fdalloc_None [OF y [unfolded None]]])
        with run None close_both show ?thesis by (auto simp: sys_pipe_def Let_def)
      next
        case ys: (Some fd0)
        note r3 = fdalloc_refs [OF y [unfolded ys] r2 l2]
        have r3': "refs_off (bump g (- 1) d) s3" using r3(1) by (simp add: bump_commute [of f 1])
        obtain cur where cur: "running K s3 = Some cur" "fds (ptable s3 cur) fd0 = Some f" "fd0 < NOFILE" using r3(3) by blast
        obtain z s4 where z: "fdalloc K g s3 = Inr (z, s4)" using run ys by (auto simp: sys_pipe_def Let_def)
        show ?thesis
        proof (cases z)
          case None
          have q: "qview s4 = qview s3" by (rule fdalloc_None [OF z [unfolded None]])
          then have f4: "fds (ptable s4 cur) fd0 = Some f" using cur(2) by (simp add: qview_def fun_eq_iff)
          obtain s5 s6 where s6: "clear_fd K fd0 s4 = Inr s5" "fileclose f s5 = Inr s6" "fileclose g s6 = Inr s'"
            using run ys z None by (auto simp: sys_pipe_def Let_def)
          have "refs_off (bump f (- 1) (bump g (- 1) d)) s5"
            by (rule clear_fd_refs [OF s6(1) refs_keep [OF r3' q] _ _ f4 cur(3)])
              (use live_cong [OF q] running_cong [OF q] r3(2) cur(1) in auto)
          then show ?thesis using close_both [OF s6(2,3)] by (simp add: bump_commute [of f "- 1"])
        next
          case zs: (Some fd1)
          have "refs_off d s4" using fdalloc_refs(1) [OF z [unfolded zs] r3' r3(2)] by simp
          moreover have "qview s' = qview s4" using run ys z zs by (auto simp: sys_pipe_def Let_def dest!: refs_frame)
          ultimately show ?thesis by (rule refs_keep)
        qed
      qed
    qed
  qed
qed

section \<open>Exit and fork\<close>

definition no_fds :: "'a proc_sys_scheme \<Rightarrow> nat \<Rightarrow> bool" where
  "no_fds s p \<longleftrightarrow> (\<forall>fd < NOFILE. fds (ptable s p) fd = None)"

lemma no_fds_cong: "qview s' = qview s \<Longrightarrow> no_fds s' p = no_fds s p"
  by (simp add: qview_def no_fds_def fun_eq_iff)

lemma refs_off_upd:
  assumes "refs_off d s" and "\<And>p. fds (f p) = fds p" and "no_fds s i \<or> (\<forall>p. dead (f p) \<longrightarrow> dead p)"
  shows "refs_off d (upd_proc i f s)"
proof -
  have f: "fds (ptable (upd_proc i f s) p) = fds (ptable s p)" "files (upd_proc i f s) = files s" for p
    by (simp_all add: upd_proc_def assms(2))
  have "no_fds s p" if "p < NPROC" "dead (ptable (upd_proc i f s) p)" for p
    using that assms(1,3) by (cases "p = i") (auto simp: upd_proc_def refs_off_def no_fds_def)
  then show ?thesis using assms(1) by (simp add: refs_off_def fd_refs_def f no_fds_def)
qed

lemma close_fd_refs:
  assumes "close_fd cur i s = Inr s'" and "refs_off d s" and "cur < NPROC" and "i < NOFILE"
  shows "refs_off d s'" and "fds (ptable s' cur) i = None" and "\<And>j. fds (ptable s cur) j = None \<Longrightarrow> fds (ptable s' cur) j = None"
proof -
  have "refs_off d s' \<and> fds (ptable s' cur) i = None \<and> (\<forall>j. fds (ptable s cur) j = None \<longrightarrow> fds (ptable s' cur) j = None)"
  proof (cases "fds (ptable s cur) i")
    case None
    with assms show ?thesis by (auto simp: close_fd_def)
  next
    case (Some f)
    then obtain s1 where s1: "fileclose f s = Inr s1" "s' = upd_proc cur (\<lambda>p. p\<lparr>fds := (fds p)(i := None)\<rparr>) s1"
      using assms(1) by (auto simp: close_fd_def)
    note r1 = fileclose_refs [OF s1(1) assms(2)]
    have t: "ptable s1 = ptable s" using r1(2) by (simp add: same_table_def)
    have "refs_off d s'"
      using refs_off_clear_fd [OF r1(1) assms(3,4), of f] Some by (simp add: s1(2) t)
    then show ?thesis by (simp add: s1(2) t upd_proc_def)
  qed
  then show "refs_off d s'" "fds (ptable s' cur) i = None" "\<And>j. fds (ptable s cur) j = None \<Longrightarrow> fds (ptable s' cur) j = None" by auto
qed

lemma close_fds_refs:
  assumes "for_each (close_fd cur) xs s = Inr s'" and "refs_off d s" and "cur < NPROC" and "set xs \<subseteq> {..<NOFILE}"
  shows "refs_off d s' \<and> (\<forall>i. i \<in> set xs \<or> fds (ptable s cur) i = None \<longrightarrow> fds (ptable s' cur) i = None)"
  using assms
proof (induction xs arbitrary: s)
  case (Cons i xs)
  then obtain s1 where s1: "close_fd cur i s = Inr s1" "for_each (close_fd cur) xs s1 = Inr s'" by auto
  note c = close_fd_refs [OF s1(1) Cons.prems(2,3)]
  have "refs_off d s' \<and> (\<forall>i. i \<in> set xs \<or> fds (ptable s1 cur) i = None \<longrightarrow> fds (ptable s' cur) i = None)"
    using Cons.IH [OF s1(2)] c(1) Cons.prems by simp
  with c(2,3) Cons.prems(4) show ?case by auto
qed simp

lemma exit_switch_refs:
  assumes "exit_switch K cur s = Inr s'" and "refs_off d s" and "no_fds s cur"
  shows "refs_off d s'"
proof -
  obtain s1 e where s1: "acquire_ptable K s = Inr s1" "sched_enter K (on_ptable (exit_ptable cur (initproc s1)) s1) = Inr (e, s')"
    using assms(1) by (auto simp: exit_switch_def)
  have q: "qview s1 = qview s" using s1(1) by (auto dest!: refs_frame)
  define t where "t = on_ptable (exit_ptable cur (initproc s1)) s1"
  have t: "fds (ptable t p) = fds (ptable s1 p)" "files t = files s1" "dead (ptable t p) \<longrightarrow> p = cur \<or> dead (ptable s1 p)" for p
    by (auto simp: t_def on_ptable_def exit_ptable_fields dead_def)
  have r: "refs_off d s1" "no_fds s1 cur" using refs_keep [OF assms(2) q] no_fds_cong [OF q] assms(3) by auto
  then have "no_fds s1 p" if "p < NPROC" "dead (ptable t p)" for p
    using that t(3) [of p] by (auto simp: refs_off_def no_fds_def)
  then have "refs_off d t" using r(1) by (simp add: refs_off_def fd_refs_def t(1,2) no_fds_def)
  then show ?thesis by (rule refs_keep) (rule sched_enter_qview [OF s1(2) [folded t_def]])
qed

lemma exit_refs:
  assumes "exit K s = Inr s'" and "refs_off d s" and "live K s"
  shows "refs_off d s'"
proof -
  obtain cur s1 s2 s3 ip s4 s5 where s: "curproc K s = Inr (cur, s1)" "for_each (close_fd cur) [0..<NOFILE] s1 = Inr s2"
      "begin_op s2 = Inr s3" "iput ip s3 = Inr s4" "end_op s4 = Inr s5"
      "exit_switch K cur (upd_proc cur (\<lambda>p. p\<lparr>cwd := None\<rparr>) s5) = Inr s'"
    using assms(1) by (auto simp: exit_def split: if_splits option.splits)
  have q1: "qview s1 = qview s" using s(1) by (auto dest!: refs_frame)
  have "cur < NPROC" using curproc_running [OF s(1)] assms(3) by (auto simp: live_def)
  then have r2: "refs_off d s2" "no_fds s2 cur"
    using close_fds_refs [OF s(2) refs_keep [OF assms(2) q1]] by (auto simp: no_fds_def lessThan_atLeast0)
  have q: "qview (upd_proc cur (\<lambda>p. p\<lparr>cwd := None\<rparr>) s5) = qview s2" using s(3-5) by (auto simp: dead_def dest!: refs_frame)
  show ?thesis by (rule exit_switch_refs [OF s(6) refs_keep [OF r2(1) q]]) (simp add: no_fds_cong [OF q] r2(2))
qed

lemma allocproc_refs:
  assumes "allocproc K s = Inr (p, s')" and "refs_off d s"
  shows "refs_off d s' \<and> (\<forall>np. p = Some np \<longrightarrow> np < NPROC \<and> no_fds s' np \<and> \<not> dead (ptable s' np))"
proof -
  obtain s1 where s1: "acquire_ptable K s = Inr s1" using assms(1) by (auto simp: allocproc_def)
  have r1: "refs_off d s1" using s1 by (intro refs_keep [OF assms(2)]) (auto dest!: refs_frame)
  show ?thesis
  proof (cases "find (\<lambda>i. pstate (ptable s1 i) = UNUSED) [0..<NPROC]")
    case None
    with assms(1) s1 have "p = None" "qview s' = qview s1" by (auto simp: allocproc_def alloc_slot_def dest!: refs_frame)
    then show ?thesis using refs_keep [OF r1] by simp
  next
    case (Some i)
    define s2 where "s2 = (upd_proc i (\<lambda>p. p\<lparr>pstate := EMBRYO, pid := nextpid s1\<rparr>) s1)\<lparr>nextpid := nextpid s1 + 1\<rparr>"
    obtain s3 where s3: "release_ptable K s2 = Inr s3" "alloc_stack K i s3 = (p, s')"
      using assms(1) s1 Some by (auto simp: allocproc_def alloc_slot_def s2_def)
    have i: "i < NPROC" "pstate (ptable s1 i) = UNUSED" using Some by (auto simp: find_Some_iff)
    then have n1: "no_fds s1 i" using r1 by (auto simp: refs_off_def no_fds_def dead_def)
    have r2: "refs_off d s2" "no_fds s2 i" "\<not> dead (ptable s2 i)"
      using refs_off_upd [OF r1, of "\<lambda>p. p\<lparr>pstate := EMBRYO, pid := nextpid s1\<rparr>" i] n1
      by (auto simp: s2_def refs_off_def no_fds_def upd_proc_def dead_def)
    have q3: "qview s3 = qview s2" using s3(1) by (auto dest!: refs_frame)
    have r3: "refs_off d s3" "no_fds s3 i" "\<not> dead (ptable s3 i)"
      using r2 refs_keep [OF _ q3] no_fds_cong [OF q3] q3 by (auto simp: qview_def fun_eq_iff)
    obtain k m where k: "kalloc (km s3) = (k, m)" by (cases "kalloc (km s3)")
    define s4 where "s4 = upd_proc i (\<lambda>p. p\<lparr>kstack := k\<rparr>) (s3\<lparr>km := m\<rparr>)"
    have q4: "qview s4 = qview s3" by (simp add: s4_def dead_def)
    show ?thesis
    proof (cases "k = 0")
      case True
      then have "p = None" "s' = upd_proc i (\<lambda>p. p\<lparr>pstate := UNUSED\<rparr>) s4" using s3(2) k by (auto simp: alloc_stack_def s4_def)
      then show ?thesis using refs_off_upd [OF refs_keep [OF r3(1) q4]] no_fds_cong [OF q4] r3(2) by simp
    next
      case False
      then have p: "p = Some i" and "qview s' = qview s4" using s3(2) k by (auto simp: alloc_stack_def s4_def Let_def dead_def)
      then have q: "qview s' = qview s3" using q4 by simp
      then show ?thesis
        using p i(1) refs_keep [OF r3(1) q] no_fds_cong [OF q] r3 by (auto simp: qview_def fun_eq_iff)
    qed
  qed
qed

lemma fork_copy_refs:
  assumes "fork_copy K cur np s = Inr (b, s')" and "refs_off d s" and "no_fds s np" and "\<not> dead (ptable s np)"
  shows "refs_off d s' \<and> (b \<longrightarrow> no_fds s' np \<and> \<not> dead (ptable s' np))"
proof -
  obtain dir k where k: "copyuvm (kdata_at K) (pgdir (ptable s cur)) (psz (ptable s cur)) (km s) = Inr (dir, k)"
    using assms(1) by (auto simp: fork_copy_def)
  define s1 where "s1 = upd_proc np (\<lambda>p. p\<lparr>pgdir := dir\<rparr>) (s\<lparr>km := k\<rparr>)"
  have q1: "qview s1 = qview s" by (simp add: s1_def dead_def)
  have r1: "refs_off d s1" "no_fds s1 np" "\<not> dead (ptable s1 np)"
    using assms(2-4) refs_keep [OF _ q1] no_fds_cong [OF q1] q1 by (auto simp: qview_def fun_eq_iff)
  show ?thesis
  proof (cases "dir = 0")
    case True
    then obtain k' where "b = False" "s' = upd_proc np (\<lambda>p. p\<lparr>kstack := 0, pstate := UNUSED\<rparr>) (s1\<lparr>km := k'\<rparr>)"
      using assms(1) k by (auto simp: fork_copy_def s1_def Let_def)
    moreover have "refs_off d (s1\<lparr>km := k'\<rparr>)" by (rule refs_keep [OF r1(1)]) simp
    ultimately show ?thesis using refs_off_upd [of d "s1\<lparr>km := k'\<rparr>"] r1(2) by (simp add: no_fds_def)
  next
    case False
    with assms(1) k r1 show ?thesis by (auto simp: fork_copy_def s1_def Let_def)
  qed
qed

lemma dup_fd_refs:
  assumes "dup_fd cur np i s = Inr s'" and "refs_off d s" and "np < NPROC" and "\<not> dead (ptable s np)" and "i < NOFILE"
    and "fds (ptable s np) i = None"
  shows "refs_off d s' \<and> \<not> dead (ptable s' np) \<and> (\<forall>j. j \<noteq> i \<longrightarrow> fds (ptable s' np) j = fds (ptable s np) j)"
proof (cases "fds (ptable s cur) i")
  case None
  with assms show ?thesis by (auto simp: dup_fd_def)
next
  case (Some f)
  then obtain g s1 where g: "filedup f s = Inr (g, s1)" "s' = upd_proc np (\<lambda>p. p\<lparr>fds := (fds p)(i := Some g)\<rparr>) s1"
    using assms(1) by (auto simp: dup_fd_def)
  have "g = f" using g(1) by (auto simp: filedup_def split: if_splits)
  note r1 = filedup_refs [OF g(1) assms(2)]
  have t: "ptable s1 = ptable s" using r1(2) by (simp add: same_table_def)
  have "refs_off d s'"
    using refs_off_set_fd [OF r1(1) assms(3,5), of f] assms(4,6) by (simp add: g(2) t \<open>g = f\<close>)
  then show ?thesis using assms(4) by (simp add: g(2) t upd_proc_def dead_def)
qed

lemma dup_fds_refs:
  assumes "for_each (dup_fd cur np) [0..<n] s = Inr s'" and "n \<le> NOFILE" and "refs_off d s" and "np < NPROC" and "\<not> dead (ptable s np)"
    and "no_fds s np"
  shows "refs_off d s' \<and> \<not> dead (ptable s' np) \<and> (\<forall>j. n \<le> j \<and> j < NOFILE \<longrightarrow> fds (ptable s' np) j = None)"
  using assms
proof (induction n arbitrary: s')
  case 0
  then show ?case by (auto simp: no_fds_def)
next
  case (Suc n)
  then obtain s1 where s1: "for_each (dup_fd cur np) [0..<n] s = Inr s1" "dup_fd cur np n s1 = Inr s'"
    by (auto simp: for_each_append)
  have "refs_off d s1 \<and> \<not> dead (ptable s1 np) \<and> (\<forall>j. n \<le> j \<and> j < NOFILE \<longrightarrow> fds (ptable s1 np) j = None)"
    using Suc.IH [OF s1(1)] Suc.prems by simp
  with dup_fd_refs [OF s1(2), of d] Suc.prems(2,4) show ?case by simp
qed

lemma fork_child_refs:
  assumes "fork_child cur np s = Inr s'" and "refs_off d s" and "np < NPROC" and "\<not> dead (ptable s np)" and "no_fds s np"
  shows "refs_off d s'"
proof -
  define t where "t = (let s = upd_proc np (\<lambda>p. p\<lparr>psz := psz (ptable s cur), parent := Some cur\<rparr>) s;
          s = set_ram (\<lambda>m. poke (tf (ptable s np)) (peek m (tf (ptable s cur)) (unat TF_SIZE)) m) s
      in set_ram (store32 (tf (ptable s np) + TF_eax) 0) s)"
  have q: "qview t = qview s" by (simp add: t_def Let_def dead_def)
  obtain s1 where s1: "for_each (dup_fd cur np) [0..<NOFILE] t = Inr s1" "qview s' = qview s1"
    using assms(1) by (auto simp: fork_child_def Let_def t_def idup_def dead_def split: option.splits prod.splits)
  have "\<not> dead (ptable t np)" using q assms(4) by (simp add: qview_def fun_eq_iff)
  then have "refs_off d s1"
    using dup_fds_refs [OF s1(1) _ refs_keep [OF assms(2) q] assms(3)] no_fds_cong [OF q] assms(5) by simp
  then show ?thesis using s1(2) by (rule refs_keep)
qed

lemma fork_refs:
  assumes "fork K s = Inr (r, s')" and "refs_off d s"
  shows "refs_off d s'"
proof -
  obtain cur s1 p s2 where s: "curproc K s = Inr (cur, s1)" "allocproc K s1 = Inr (p, s2)" using assms(1) by (auto simp: fork_def)
  have r1: "refs_off d s1" using s(1) by (intro refs_keep [OF assms(2)]) (auto dest!: refs_frame)
  note r2 = allocproc_refs [OF s(2) r1]
  show ?thesis
  proof (cases p)
    case None
    with assms(1) s r2 show ?thesis by (simp add: fork_def)
  next
    case (Some np)
    then obtain b s3 where s3: "fork_copy K cur np s2 = Inr (b, s3)" using assms(1) s by (auto simp: fork_def)
    have r3: "refs_off d s3 \<and> (b \<longrightarrow> no_fds s3 np \<and> \<not> dead (ptable s3 np))" using fork_copy_refs [OF s3, of d] r2 Some by simp
    show ?thesis
    proof (cases b)
      case False
      with assms(1) s Some s3 r3 show ?thesis by (simp add: fork_def)
    next
      case True
      then obtain s4 s5 where s4: "fork_child cur np s3 = Inr s4" "acquire_ptable K s4 = Inr s5"
          "release_ptable K (upd_proc np (\<lambda>p. p\<lparr>pstate := RUNNABLE\<rparr>) s5) = Inr s'"
        using assms(1) s Some s3 by (auto simp: fork_def Let_def set_runnable_def)
      have "refs_off d s4" using fork_child_refs [OF s4(1)] r3 True r2 Some by simp
      then have "refs_off d s5" using s4(2) by (elim refs_keep) (auto dest!: refs_frame)
      then have "refs_off d (upd_proc np (\<lambda>p. p\<lparr>pstate := RUNNABLE\<rparr>) s5)" by (rule refs_off_upd) (simp_all add: dead_def)
      then show ?thesis using s4(3) by (elim refs_keep) (auto dest!: refs_frame)
    qed
  qed
qed

section \<open>All system calls\<close>

lemma syscalls_refs:
  assumes "Some call \<in> set (syscalls K)" and "call s = Inr (r, s')" and "refs_off d s" and "live K s"
  shows "refs_off d s'"
proof -
  have fork: "sys_fork K s = Inr (r, s') \<Longrightarrow> refs_off d s'" using fork_refs [OF _ assms(3)] by (auto simp: sys_fork_def)
  have exit: "sys_exit K s = Inr (r, s') \<Longrightarrow> refs_off d s'" using exit_refs [OF _ assms(3,4)] by (auto simp: sys_exit_def)
  have keep: "qview s' = qview s \<Longrightarrow> refs_off d s'" by (rule refs_keep [OF assms(3)])
  consider "call = sys_fork K" | "call = sys_exit K" | "call = sys_wait K" | "call = sys_pipe K" | "call = sys_exec K" | "call = sys_dup K"
    | "call = sys_sleep K" | "call = sys_open K" | "call = sys_close K" | "call \<in> {sys_read (devsw_read K) K, sys_kill K, sys_fstat K, sys_chdir K,
        sys_getpid K, sys_sbrk K, sys_uptime K, sys_write devsw_write K, sys_mknod K, sys_unlink K, sys_link K, sys_mkdir K}"
    using assms(1) by (auto simp: syscalls_def)
  then show ?thesis
  proof cases
    case 1
    show ?thesis by (rule fork) (rule assms(2) [unfolded 1])
  next
    case 2
    show ?thesis by (rule exit) (rule assms(2) [unfolded 2])
  next
    case 3
    show ?thesis by (rule sys_wait_refs [OF _ assms(3)]) (rule assms(2) [unfolded 3])
  next
    case 4
    show ?thesis by (rule sys_pipe_refs [OF _ assms(3,4)]) (rule assms(2) [unfolded 4])
  next
    case 5
    show ?thesis by (rule sys_exec_refs [OF _ assms(3)]) (rule assms(2) [unfolded 5])
  next
    case 6
    show ?thesis by (rule sys_dup_refs [OF _ assms(3,4)]) (rule assms(2) [unfolded 6])
  next
    case 7
    show ?thesis by (rule sys_sleep_refs [OF _ assms(3)]) (rule assms(2) [unfolded 7])
  next
    case 8
    show ?thesis by (rule sys_open_refs [OF _ assms(3,4)]) (rule assms(2) [unfolded 8])
  next
    case 9
    show ?thesis by (rule sys_close_refs [OF _ assms(3,4)]) (rule assms(2) [unfolded 9])
  next
    case 10
    then have "qview s' = qview s"
      unfolding insert_iff empty_iff using assms(2) by (elim disjE FalseE) (simp_all only: refs_frame)
    then show ?thesis by (rule keep)
  qed
qed

lemma set_result_qview: "set_result K r s = Inr (r', s') \<Longrightarrow> qview s' = qview s"
  by (auto simp: set_result_def split: sysret.splits dest!: refs_frame)

lemma syscall_refs:
  fixes s :: "'a kern_sys_scheme"
  assumes "syscall K s = Inr (r, s')" and "refs_off d s" and "live K s"
  shows "refs_off d s'"
proof -
  obtain cur s1 where s1: "curproc K s = Inr (cur, s1)" using assms(1) by (auto simp: syscall_def)
  define t where "t = s1\<lparr>curpid := pid (ptable s1 cur)\<rparr>"
  define num where "num = load32 (ram (km t)) (tf (ptable s1 cur) + TF_eax)"
  define calls :: "('a kern_sys_scheme \<Rightarrow> (sysret \<times> 'a kern_sys_scheme) res) option list" where "calls = syscalls K"
  have run: "(if 0 < sint num \<and> sint num < int (length calls) \<and> calls ! unat num \<noteq> None
     then rbind (the (calls ! unat num) t) (\<lambda>(r, s). set_result K r s)
     else rbind (kprint (proc_label (ptable s1 cur) @ ascii '': unknown sys call '' @ dec num @ [10]) t) (set_result K (ret (- 1)))) = Inr (r, s')"
    using assms(1) unfolding syscall_def s1 rbind_simps case_prod_conv Let_def t_def [symmetric] num_def [symmetric] calls_def [symmetric] .
  have q: "qview t = qview s" using s1 by (auto simp: t_def dest!: refs_frame)
  note r1 = refs_keep [OF assms(2) q] and l1 = live_cong [OF q, THEN iffD2, OF assms(3)]
  show ?thesis
  proof (cases "0 < sint num \<and> sint num < int (length calls) \<and> calls ! unat num \<noteq> None")
    case True
    then obtain call r2 s2 where c: "calls ! unat num = Some call" "call t = Inr (r2, s2)" "set_result K r2 s2 = Inr (r, s')"
      using run by auto
    have "uint num = sint num" using uint_word_of_int [of "sint num", where 'a = 32] True by (simp add: calls_def syscalls_def)
    then have "unat num < length calls" using True by (simp add: unat_eq_nat_uint nat_less_iff)
    then have "Some call \<in> set (syscalls K)" using c(1) unfolding calls_def by (metis nth_mem)
    from refs_keep [OF syscalls_refs [OF this c(2) r1 l1] set_result_qview [OF c(3)]] show ?thesis .
  next
    case False
    then obtain s2 where s2: "kprint (proc_label (ptable s1 cur) @ ascii '': unknown sys call '' @ dec num @ [10]) t = Inr s2"
        "set_result K (ret (- 1)) s2 = Inr (r, s')"
      using run by auto
    have "qview s2 = qview t" by (rule kprint_view [OF s2(1), THEN qview_tview])
    with refs_keep [OF r1] have "refs_off d s2" by blast
    then show ?thesis by (rule refs_keep) (rule set_result_qview [OF s2(2)])
  qed
qed

lemma sleep_leave_qview: "sleep_leave K ena p l s = Inr (l', s') \<Longrightarrow> qview s' = qview s"
proof -
  have "sleep_wake K ena p t = Inr t' \<Longrightarrow> qview t' = qview t" for t t' :: "'a proc_sys_scheme"
    by (auto simp: sleep_wake_def qview_hw dead_def elim!: sched_leave_effect)
  then show "sleep_leave K ena p l s = Inr (l', s') \<Longrightarrow> qview s' = qview s"
    by (cases l) (auto simp: sleep_leave_def qview_hw dest!: refs_frame acquire_effect)
qed

lemma resumed_refs:
  assumes "wait_again K ena cur s = Inr (w, s') \<or> sys_sleep_again K ena n t0 cur s = Inr (r, s')" and "refs_off d s"
  shows "refs_off d s'"
  using assms(1)
proof
  assume "wait_again K ena cur s = Inr (w, s')"
  then obtain l s1 where s1: "sleep_leave K ena cur Table_lock s = Inr (l, s1)" "wait_pass K cur s1 = Inr (w, s')"
    by (auto simp: wait_again_def)
  show ?thesis by (rule wait_pass_refs [OF s1(2) refs_keep [OF assms(2) sleep_leave_qview [OF s1(1)]]])
next
  assume "sys_sleep_again K ena n t0 cur s = Inr (r, s')"
  then obtain l s1 where s1: "sleep_leave K ena cur (Lock (tickslock s)) s = Inr (l, s1)"
      "sleep_pass K n t0 (case l of Lock l \<Rightarrow> s1\<lparr>tickslock := l\<rparr> | _ \<Rightarrow> s1) = Inr (r, s')"
    by (auto simp: sys_sleep_again_def)
  have "refs_off d (case l of Lock l \<Rightarrow> s1\<lparr>tickslock := l\<rparr> | _ \<Rightarrow> s1)"
    using refs_keep [OF assms(2) sleep_leave_qview [OF s1(1)]] by (simp split: lockarg.split)
  then show ?thesis by (rule sleep_pass_refs [OF s1(2)])
qed


text \<open>A process that duplicates its only descriptor, for the witness. Its memory holds sevens, except for the argument.\<close>

definition dup_mem :: mem where
  "dup_mem = (\<lambda>_. 7)(0x8707070b := 0, 0x8707070c := 0, 0x8707070d := 0, 0x8707070e := 0,
     0x80401FD0 := 10, 0x80401FD1 := 0, 0x80401FD2 := 0, 0x80401FD3 := 0)"

definition dup_proc :: proc where
  "dup_proc = init_proc\<lparr>psz := 0x08000000, pstate := RUNNING, fds := [0 \<mapsto> 0]\<rparr>"

definition dup_sys :: kern_sys where
  "dup_sys = in_dir\<lparr>km := empty_kmem\<lparr>ram := dup_mem\<rparr>, ptable := (\<lambda>_. free_proc)(0 := dup_proc),
     files := (\<lambda>_. zero_file)(0 := zero_file\<lparr>fref := 1\<rparr>)\<rparr>"

lemma dup_sels: "hw dup_sys = hw sevens" "ptable dup_sys = (\<lambda>_. free_proc)(0 := dup_proc)" "km dup_sys = empty_kmem\<lparr>ram := dup_mem\<rparr>"
  "files dup_sys = (\<lambda>_. zero_file)(0 := zero_file\<lparr>fref := 1\<rparr>)"
  by (simp_all add: dup_sys_def in_dir_def proc_sys.defs)

lemma dup_addr:
  "user_addr (empty_kmem\<lparr>ram := dup_mem\<rparr>) 0x80400000 0x0707070b = Inr 0x8707070b" "user_addr (empty_kmem\<lparr>ram := dup_mem\<rparr>) 0x80400000 0x0707070c = Inr 0x8707070c"
  "user_addr (empty_kmem\<lparr>ram := dup_mem\<rparr>) 0x80400000 0x0707070d = Inr 0x8707070d" "user_addr (empty_kmem\<lparr>ram := dup_mem\<rparr>) 0x80400000 0x0707070e = Inr 0x8707070e"
  by (simp_all add: dup_mem_def user_addr_def walkpgdir_def Let_def load32_def mk32_def entry_def PDX_def PTX_def PTE_ADDR_def P2V_def KERNBASE_def)

lemma dup_refs: "refs_inv dup_sys"
proof -
  have "{(p, fd). p < NPROC \<and> fd < NOFILE \<and> fds (ptable dup_sys p) fd = Some f} = (if f = 0 then {(0, 0)} else {})" for f
    by (auto simp: dup_sels dup_proc_def free_proc_def split: if_splits)
  then show ?thesis
    by (auto simp: refs_inv_def refs_off_def fd_refs_def dup_sels zero_file_def dead_def dup_proc_def free_proc_def)
qed

lemma dup_argfd:
  assumes "hw s = hw sevens" and "ptable s = ptable dup_sys" and "km s = km dup_sys"
  shows "argfd env0 0 s = Inr (Some (0, 0), s)"
proof -
  have "(4 :: nat) = Suc (Suc (Suc (Suc 0)))" by simp
  then have peek: "user_peek (empty_kmem\<lparr>ram := dup_mem\<rparr>) 0x80400000 0x0707070b 4 = Inr [0, 0, 0, 0]"
    by (simp only: user_peek.simps, simp add: dup_addr) (simp add: dup_mem_def)
  have esp: "load32 (ram (km s)) (tf (ptable s 0) + TF_esp) = 0x07070707"
    by (simp add: assms dup_sels dup_proc_def init_proc_def load32_def mk32_def dup_mem_def)
  have "fetchint env0 0x0707070b s = Inr (Some 0, s)"
    using peek by (simp add: fetchint_def in_dir_cur [OF assms(1)] assms(2,3) dup_sels dup_proc_def init_proc_def Let_def mk32_def)
  then have "argint env0 0 s = Inr (Some 0, s)"
    by (simp add: argint_def in_dir_cur [OF assms(1)] esp)
  then show ?thesis by (simp add: argfd_def in_dir_cur [OF assms(1)] assms(2) dup_sels dup_proc_def)
qed

lemma dup_call: "\<exists>s'. syscall env0 dup_sys = Inr (Ret_val 1, s') \<and> fref (files s' 0) = 2"
proof -
  define t where "t = dup_sys\<lparr>curpid := pid (ptable dup_sys 0)\<rparr>"
  have t: "hw t = hw sevens" "ptable t = ptable dup_sys" "km t = km dup_sys" "files t = files dup_sys" by (simp_all add: t_def dup_sels)
  have num: "load32 (ram (km t)) (tf (ptable dup_sys 0) + TF_eax) = 10"
    by (simp add: t dup_sels dup_proc_def init_proc_def load32_def mk32_def dup_mem_def)
  have "[0..<NOFILE] = 0 # 1 # [2..<NOFILE]" by (simp add: upt_rec)
  then have alloc: "fdalloc env0 0 t = Inr (Some 1, upd_proc 0 (\<lambda>p. p\<lparr>fds := (fds p)(1 := Some 0)\<rparr>) t)"
    by (simp add: fdalloc_def in_dir_cur [OF t(1)] t(2) dup_sels dup_proc_def)
  have "\<exists>s1. sys_dup env0 t = Inr (Ret_val 1, s1) \<and> fref (files s1 0) = 2 \<and> hw s1 = hw sevens"
    by (simp add: sys_dup_def dup_argfd [OF t(1-3)] alloc filedup_def upd_proc_def t dup_sels set_file_def ret_def)
  then obtain s1 where s1: "sys_dup env0 t = Inr (Ret_val 1, s1)" "fref (files s1 0) = 2" "hw s1 = hw sevens" by blast
  then show ?thesis
    by (simp add: syscall_def in_dir_cur dup_sels(1) t_def [symmetric] num num [unfolded t(3)] Let_def syscalls_def set_result_def set_ram_def)
qed


end
