(* ===== verification/Grep.thy ===== *)
theory Grep
  imports Prelude
begin

text \<open>
  \<^verbatim>\<open>grep.c\<close>: the regular-expression matcher and the loop that cuts the input into lines. A C
  string is the list of its bytes before the terminating zero. The matcher is shown equal to
  the language of the pattern.
\<close>

abbreviation STAR :: uchar where "STAR \<equiv> 42"
abbreviation DOT :: uchar where "DOT \<equiv> 46"
abbreviation DOLLAR :: uchar where "DOLLAR \<equiv> 36"
abbreviation CARET :: uchar where "CARET \<equiv> 94"

section \<open>The matcher\<close>

function matchhere :: "bytes \<Rightarrow> bytes \<Rightarrow> bool"
  and matchstar :: "uchar \<Rightarrow> bytes \<Rightarrow> bytes \<Rightarrow> bool" where
  "matchhere re tx =
     (case re of
        [] \<Rightarrow> True
      | c # re1 \<Rightarrow>
          if re1 \<noteq> [] \<and> hd re1 = STAR then matchstar c (tl re1) tx
          else if c = DOLLAR \<and> re1 = [] then tx = []
          else case tx of
                 [] \<Rightarrow> False
               | x # t1 \<Rightarrow> (c = DOT \<or> c = x) \<and> matchhere re1 t1)"
| "matchstar c re tx =
     (matchhere re tx \<or>
      (case tx of
         [] \<Rightarrow> False
       | x # t1 \<Rightarrow> (x = c \<or> c = DOT) \<and> matchstar c re t1))"
  by pat_completeness auto

termination
  by (relation "measure (\<lambda>x. case x of Inl (re, tx) \<Rightarrow> 2 * length re + length tx
        | Inr (c, re, tx) \<Rightarrow> 2 * length re + length tx + 1)")
    (auto simp: neq_Nil_conv)

declare matchhere.simps [simp del] matchstar.simps [simp del]

fun match_from :: "bytes \<Rightarrow> bytes \<Rightarrow> bool" where
  "match_from re tx =
     (matchhere re tx \<or> (case tx of [] \<Rightarrow> False | x # t1 \<Rightarrow> match_from re t1))"

declare match_from.simps [simp del]

definition match :: "bytes \<Rightarrow> bytes \<Rightarrow> bool" where
  "match re tx = (if re \<noteq> [] \<and> hd re = CARET then matchhere (tl re) tx else match_from re tx)"

section \<open>The loop over the input\<close>

text \<open>
  The lines of a buffer: what is written and what is left after the last newline. The scan
  for a newline stops at a zero byte, as \<^verbatim>\<open>strchr\<close> does.
\<close>

function grep_lines :: "bytes \<Rightarrow> bytes \<Rightarrow> bytes \<times> bytes" where
  "grep_lines re p =
     (let l = takeWhile (\<lambda>c. c \<noteq> 10 \<and> c \<noteq> 0) p in
      if length l < length p \<and> p ! length l = 10
      then let (out, r) = grep_lines re (drop (Suc (length l)) p) in
           ((if match re l then l @ [10] else []) @ out, r)
      else ([], p))"
  by pat_completeness auto

termination
  by (relation "measure (\<lambda>(re, p). length p)") auto

declare grep_lines.simps [simp del]

text \<open>
  One argument is the sequence of results of \<^verbatim>\<open>read\<close>, which never returns more than the room
  left in the buffer; an empty result ends the loop.
\<close>

fun grep :: "bytes \<Rightarrow> bytes \<Rightarrow> bytes list \<Rightarrow> bytes res" where
  "grep re buf [] = Inr []"
| "grep re buf (n # ns) =
     (if n = [] then Inr []
      else if 1024 - length buf - 1 < length n then Inl Fault
      else let (out, p) = grep_lines re (buf @ n);
               buf1 = (if length p = length (buf @ n) then [] else p)
           in rbind (grep re buf1 ns) (\<lambda>rest. Inr (out @ rest)))"

section \<open>Patterns\<close>

text \<open>What a pattern means: one piece per atom, and whether it must reach the end.\<close>

datatype piece = One uchar | Many uchar

definition fits :: "uchar \<Rightarrow> uchar \<Rightarrow> bool" where
  "fits c x \<longleftrightarrow> c = DOT \<or> c = x"

fun pieces :: "bytes \<Rightarrow> piece list" where
  "pieces [] = []"
| "pieces [c] = (if c = DOLLAR then [] else [One c])"
| "pieces (c # d # re) = (if d = STAR then Many c # pieces re else One c # pieces (d # re))"

fun to_end :: "bytes \<Rightarrow> bool" where
  "to_end [] = False"
| "to_end [c] = (c = DOLLAR)"
| "to_end (c # d # re) = (if d = STAR then to_end re else to_end (d # re))"

inductive in_lang :: "piece list \<Rightarrow> bytes \<Rightarrow> bool" where
  nothing: "in_lang [] []"
| one: "fits c x \<Longrightarrow> in_lang ps w \<Longrightarrow> in_lang (One c # ps) (x # w)"
| many: "\<forall>x \<in> set u. fits c x \<Longrightarrow> in_lang ps w \<Longrightarrow> in_lang (Many c # ps) (u @ w)"

inductive_simps in_lang_simps: "in_lang [] w" "in_lang (One c # ps) w" "in_lang (Many c # ps) w"

text \<open>Some prefix of the text is in the language of the pattern.\<close>

definition prefix_in :: "bytes \<Rightarrow> bytes \<Rightarrow> bool" where
  "prefix_in re tx \<longleftrightarrow> (\<exists>v w. tx = v @ w \<and> in_lang (pieces re) v \<and> (to_end re \<longrightarrow> w = []))"

lemma prefix_in_star:
  "prefix_in (c # STAR # re) tx \<longleftrightarrow> (\<exists>u v. tx = u @ v \<and> (\<forall>x \<in> set u. fits c x) \<and> prefix_in re v)"
proof
  assume "prefix_in (c # STAR # re) tx"
  then obtain v w where v: "tx = v @ w" "in_lang (Many c # pieces re) v" "to_end re \<longrightarrow> w = []"
    by (auto simp: prefix_in_def)
  then obtain u v' where "v = u @ v'" "\<forall>x \<in> set u. fits c x" "in_lang (pieces re) v'"
    by (auto simp: in_lang_simps)
  with v show "\<exists>u v. tx = u @ v \<and> (\<forall>x \<in> set u. fits c x) \<and> prefix_in re v"
    by (intro exI [of _ u] exI [of _ "v' @ w"]) (auto simp: prefix_in_def)
next
  assume "\<exists>u v. tx = u @ v \<and> (\<forall>x \<in> set u. fits c x) \<and> prefix_in re v"
  then obtain u v w where "tx = u @ v @ w" "\<forall>x \<in> set u. fits c x" "in_lang (pieces re) v" "to_end re \<longrightarrow> w = []"
    by (auto simp: prefix_in_def)
  then show "prefix_in (c # STAR # re) tx"
    unfolding prefix_in_def by (intro exI [of _ "u @ v"] exI [of _ w]) (auto simp: in_lang_simps)
qed

lemma prefix_in_one:
  assumes "re = [] \<longrightarrow> c \<noteq> DOLLAR" and "re \<noteq> [] \<longrightarrow> hd re \<noteq> STAR"
  shows "prefix_in (c # re) tx \<longleftrightarrow> (\<exists>x t1. tx = x # t1 \<and> fits c x \<and> prefix_in re t1)"
proof -
  have "pieces (c # re) = One c # pieces re" "to_end (c # re) = to_end re"
    using assms by (cases re; simp)+
  then have p: "prefix_in (c # re) tx \<longleftrightarrow> (\<exists>v w. tx = v @ w \<and> in_lang (One c # pieces re) v \<and> (to_end re \<longrightarrow> w = []))"
    by (simp only: prefix_in_def)
  show ?thesis
  proof
    assume "prefix_in (c # re) tx"
    then obtain v w where "tx = v @ w" "in_lang (One c # pieces re) v" "to_end re \<longrightarrow> w = []"
      unfolding p by blast
    moreover from this(2) obtain x v1 where "v = x # v1" "fits c x" "in_lang (pieces re) v1"
      by (auto simp: in_lang_simps)
    ultimately show "\<exists>x t1. tx = x # t1 \<and> fits c x \<and> prefix_in re t1"
      unfolding prefix_in_def by (intro exI [of _ x] exI [of _ "v1 @ w"]) auto
  next
    assume "\<exists>x t1. tx = x # t1 \<and> fits c x \<and> prefix_in re t1"
    then obtain x v w where "tx = x # v @ w" "fits c x" "in_lang (pieces re) v" "to_end re \<longrightarrow> w = []"
      by (auto simp: prefix_in_def)
    then show "prefix_in (c # re) tx"
      unfolding p by (intro exI [of _ "x # v"] exI [of _ w]) (simp add: in_lang_simps)
  qed
qed

lemma match_lang:
  shows "matchhere re tx \<longleftrightarrow> prefix_in re tx"
    and "matchstar c re' tx' \<longleftrightarrow> (\<exists>u v. tx' = u @ v \<and> (\<forall>x \<in> set u. fits c x) \<and> prefix_in re' v)"
proof (induction re tx and c re' tx' rule: matchhere_matchstar.induct)
  case (1 re tx)
  show ?case
  proof (cases re)
    case Nil
    then show ?thesis by (simp add: matchhere.simps prefix_in_def in_lang_simps)
  next
    case (Cons c re1)
    show ?thesis
    proof (cases "re1 \<noteq> [] \<and> hd re1 = STAR")
      case True
      then have re: "re = c # STAR # tl re1" using Cons by (cases re1) auto
      have "matchhere re tx = matchstar c (tl re1) tx" using Cons True by (simp add: matchhere.simps)
      also have "\<dots> = prefix_in re tx" using 1(1) [OF Cons True] prefix_in_star [of c "tl re1" tx] re by simp
      finally show ?thesis .
    next
      case ns: False
      show ?thesis
      proof (cases "c = DOLLAR \<and> re1 = []")
        case True
        then show ?thesis using Cons by (simp add: matchhere.simps prefix_in_def in_lang_simps)
      next
        case False
        then show ?thesis
          using 1(2) [OF Cons ns False] prefix_in_one [of re1 c tx] ns
          unfolding Cons matchhere.simps [of "c # re1" tx] by (cases tx) (auto simp: fits_def)
      qed
    qed
  qed
next
  case (2 c re tx)
  show ?case
  proof (cases tx)
    case Nil
    then show ?thesis using 2(1) by (simp add: matchstar.simps [of c re "[]"])
  next
    case (Cons x t1)
    have "(\<exists>u v. tx = u @ v \<and> (\<forall>x \<in> set u. fits c x) \<and> prefix_in re v) \<longleftrightarrow>
        prefix_in re tx \<or> fits c x \<and> (\<exists>u v. t1 = u @ v \<and> (\<forall>x \<in> set u. fits c x) \<and> prefix_in re v)"
      (is "?l \<longleftrightarrow> ?r")
    proof
      assume ?l
      then obtain u v where "tx = u @ v" "\<forall>x \<in> set u. fits c x" "prefix_in re v" by blast
      with Cons show ?r by (cases u) auto
    next
      assume ?r
      then show ?l
      proof
        assume "prefix_in re tx"
        then show ?l by (intro exI [of _ "[]"] exI [of _ tx]) simp
      next
        assume "fits c x \<and> (\<exists>u v. t1 = u @ v \<and> (\<forall>x \<in> set u. fits c x) \<and> prefix_in re v)"
        then obtain u v where "fits c x" "t1 = u @ v" "\<forall>x \<in> set u. fits c x" "prefix_in re v" by blast
        with Cons show ?l by (intro exI [of _ "x # u"] exI [of _ v]) simp
      qed
    qed
    with 2 Cons show ?thesis by (auto simp: matchstar.simps [of c re "x # t1"] fits_def)
  qed
qed

lemma match_from_lang: "match_from re tx \<longleftrightarrow> (\<exists>u v. tx = u @ v \<and> prefix_in re v)"
proof (induction tx)
  case Nil
  then show ?case by (simp add: match_from.simps match_lang)
next
  case (Cons x tx)
  have "(\<exists>u v. x # tx = u @ v \<and> prefix_in re v) \<longleftrightarrow> prefix_in re (x # tx) \<or> (\<exists>u v. tx = u @ v \<and> prefix_in re v)"
    by (metis append_Cons append_Nil append_eq_Cons_conv)
  with Cons show ?case by (simp add: match_from.simps [of re "x # tx"] match_lang)
qed

section \<open>Lines\<close>

text \<open>The complete lines of an input and what follows the last newline.\<close>

fun split_lines :: "bytes \<Rightarrow> bytes list \<times> bytes" where
  "split_lines [] = ([], [])"
| "split_lines (c # s) =
     (let (ls, r) = split_lines s in
      if c = 10 then ([] # ls, r)
      else case ls of [] \<Rightarrow> ([], c # r) | l # ls1 \<Rightarrow> ((c # l) # ls1, r))"

definition select :: "bytes \<Rightarrow> bytes list \<Rightarrow> bytes" where
  "select re ls = concat (map (\<lambda>l. l @ [10]) (filter (match re) ls))"

lemma select_append [simp]: "select re (ls @ ks) = select re ls @ select re ks"
  by (simp add: select_def)

lemma split_lines_line:
  "10 \<notin> set l \<Longrightarrow> split_lines (l @ 10 # s) = (l # fst (split_lines s), snd (split_lines s))"
  by (induction l) (auto simp: case_prod_beta)

lemma split_lines_rest: "10 \<notin> set s \<Longrightarrow> split_lines s = ([], s)"
  by (induction s) auto

lemma rest_no_newline: "10 \<notin> set (snd (split_lines s))"
  by (induction s) (auto simp: case_prod_beta split: list.splits)

lemma rest_subset: "set (snd (split_lines s)) \<subseteq> set s"
  by (induction s) (auto simp: case_prod_beta split: list.splits)

lemma split_lines_append:
  "split_lines (s @ t) =
     (fst (split_lines s) @ fst (split_lines (snd (split_lines s) @ t)), snd (split_lines (snd (split_lines s) @ t)))"
proof (induction "length s" arbitrary: s rule: less_induct)
  case less
  show ?case
  proof (cases "10 \<in> set s")
    case True
    then obtain l s1 where s: "s = l @ 10 # s1" "10 \<notin> set l" by (meson split_list_first)
    with less [of s1] show ?thesis by (simp add: split_lines_line)
  qed (simp add: split_lines_rest)
qed

lemma grep_lines_split:
  "0 \<notin> set p \<Longrightarrow> grep_lines re p = (select re (fst (split_lines p)), snd (split_lines p))"
proof (induction re p rule: grep_lines.induct)
  case (1 re p)
  show ?case
  proof (cases "10 \<in> set p")
    case True
    then obtain l s1 where p: "p = l @ 10 # s1" "10 \<notin> set l" by (meson split_list_first)
    have l: "takeWhile (\<lambda>c. c \<noteq> 10 \<and> c \<noteq> 0) p = l"
      using p 1(2) by (subst p(1), subst takeWhile_append2) auto
    have d: "drop (Suc (length l)) p = s1" "length l < length p \<and> p ! length l = 10" by (simp_all add: p(1))
    have "grep_lines re s1 = (select re (fst (split_lines s1)), snd (split_lines s1))"
      using 1(1) [OF l [symmetric] d(2)] 1(2) p(1) by (simp add: d(1))
    then show ?thesis
      using d p(2) by (subst grep_lines.simps) (simp add: l Let_def, simp add: p(1) split_lines_line select_def)
  next
    case False
    then have n: "\<not> (k < length p \<and> p ! k = 10)" for k using nth_mem by metis
    from False show ?thesis by (subst grep_lines.simps) (simp only: Let_def n if_False, simp add: split_lines_rest select_def)
  qed
qed

lemma length_rest: "10 \<in> set s \<Longrightarrow> length (snd (split_lines s)) < length s"
proof -
  assume "10 \<in> set s"
  then obtain l s1 where s: "s = l @ 10 # s1" "10 \<notin> set l" by (meson split_list_first)
  have "length (snd (split_lines t)) \<le> length t" for t
    by (induction t) (auto simp: case_prod_beta split: list.splits)
  from this [of s1] s show ?thesis by (simp add: split_lines_line)
qed

lemma grep_selects:
  assumes "\<forall>n \<in> set ns. 10 \<in> set n \<and> 0 \<notin> set n" and "0 \<notin> set buf" and "10 \<notin> set buf" and "grep re buf ns = Inr out"
  shows "out = select re (fst (split_lines (buf @ concat ns)))"
  using assms
proof (induction ns arbitrary: buf out)
  case Nil
  then show ?case by (simp add: split_lines_rest select_def)
next
  case (Cons n ns)
  let ?r = "snd (split_lines (buf @ n))"
  have g: "grep_lines re (buf @ n) = (select re (fst (split_lines (buf @ n))), ?r)"
    using Cons.prems by (intro grep_lines_split) auto
  have "length ?r < length (buf @ n)" using Cons.prems by (intro length_rest) auto
  then obtain rest where rest: "grep re ?r ns = Inr rest" "out = select re (fst (split_lines (buf @ n))) @ rest"
    using Cons.prems(1,4) g by (auto split: if_splits)
  have "0 \<notin> set ?r" using Cons.prems rest_subset [of "buf @ n"] by auto
  then have "rest = select re (fst (split_lines (?r @ concat ns)))"
    using Cons.IH [OF _ _ rest_no_newline rest(1)] Cons.prems(1) by auto
  with rest(2) show ?case by (simp add: split_lines_append [of "buf @ n" "concat ns"] flip: append_assoc)
qed

section \<open>Properties\<close>

text \<open>C22: the matcher decides the language of its pattern. A text matches exactly if some part of it is
  a word of the pattern's language, where the part starts at the beginning of the text when the pattern
  starts with a caret and reaches its end when the pattern ends in a dollar that is not starred.\<close>

theorem match_decides_language:
  "match re tx \<longleftrightarrow>
     (\<exists>u v w. tx = u @ v @ w \<and> in_lang (pieces (if re \<noteq> [] \<and> hd re = CARET then tl re else re)) v
        \<and> (re \<noteq> [] \<and> hd re = CARET \<longrightarrow> u = []) \<and> (to_end (if re \<noteq> [] \<and> hd re = CARET then tl re else re) \<longrightarrow> w = []))"
  by (auto simp: match_def match_lang(1) match_from_lang prefix_in_def)

theorem match_decides_language_witness: "match [97, STAR, 98, DOLLAR] [99, 97, 97, 98]"
  by (subst match_decides_language) (rule exI [of _ "[99]"], rule exI [of _ "[97, 97, 98]"], rule exI [of _ "[]"],
      auto simp: in_lang_simps fits_def intro!: exI [of _ "[97, 97]"] exI [of _ "[98]"])



end
