(* ===== verification/Spec2Isabelle.thy ===== *)
theory Spec2Isabelle
  imports Spinlock Log_Crash Kbd File Vm_Map Fd_Count Grep
begin

text \<open>
  A verification development of the xv6 teaching operating system under
  \<^verbatim>\<open>src/XV6-code\<close>: its kernel, and the user programs that run on it.

  \<^bold>\<open>The system.\<close> The kernel is a stack of components. At the bottom are the processors with
  their interrupt flags and the spinlocks (\<^verbatim>\<open>spinlock.c\<close>), the physical pages (\<^verbatim>\<open>kalloc.c\<close>)
  and the disk (\<^verbatim>\<open>memide.c\<close>). On the disk stand the buffer cache (\<^verbatim>\<open>bio.c\<close>), the log that
  makes groups of block writes atomic (\<^verbatim>\<open>log.c\<close>), the file system (\<^verbatim>\<open>fs.c\<close>) and the table of
  open files and pipes (\<^verbatim>\<open>file.c\<close>, \<^verbatim>\<open>pipe.c\<close>). On the pages stand the page tables
  (\<^verbatim>\<open>vm.c\<close>). The process table (\<^verbatim>\<open>proc.c\<close>) uses both: a process has an address space, open
  files and a current directory. The console (\<^verbatim>\<open>console.c\<close>, \<^verbatim>\<open>uart.c\<close>, \<^verbatim>\<open>kbd.c\<close>) joins the
  keyboard and the screen to processes that read and write.

  \<^bold>\<open>How code becomes definitions.\<close> Every C function is one definition, named as in the source.
  Machine integers are words of their width (\<^verbatim>\<open>uint\<close> is \<open>32 word\<close>); memory is a function from
  32-bit addresses to bytes, so pointer arithmetic wraps as on the machine. The state of a
  component is a record, and the records extend each other along the layers above:
  \<open>bio\<close>, \<open>log_sys\<close>, \<open>fs_sys\<close>, \<open>file_sys\<close>, \<open>proc_sys\<close>, \<open>kern_sys\<close>. An operation takes the state and
  returns the new one with its result; operations of a lower layer act on the extended record
  unchanged. Code that may stop returns a value of the sum type \<open>'a res\<close>: \<open>Panic\<close> with the
  message, \<open>Sleep\<close> when the single process of the model would wait, \<open>Diverge\<close> for a loop that
  does not end, and \<open>Fault\<close> for the use of a pointer outside its object.

  \<^bold>\<open>Theories.\<close>
  \<^item> \<^verbatim>\<open>Prelude\<close>: machine types, outcomes, counted loops and their rule, little-endian encodings.
  \<^item> \<^verbatim>\<open>Linked\<close>: doubly linked rings of records, as \<^verbatim>\<open>bio.c\<close> keeps them.
  \<^item> \<^verbatim>\<open>Spinlock\<close>: \<^verbatim>\<open>spinlock.c\<close> and \<^verbatim>\<open>mycpu\<close>; processors contending for a lock as a step
    relation; mutual exclusion, absence of panics, interrupt nesting.
  \<^item> \<^verbatim>\<open>Sleeplock\<close>, \<^verbatim>\<open>Buf\<close>, \<^verbatim>\<open>Bio\<close>: \<^verbatim>\<open>sleeplock.c\<close>, \<^verbatim>\<open>memide.c\<close>, \<^verbatim>\<open>bio.c\<close>; the cache refines an
    abstract disk with a view per block, and replaces the least recently used buffer.
  \<^item> \<^verbatim>\<open>Block_Layer\<close>: the interface of the cache as a locale, with the lemmas its clients use.
  \<^item> \<^verbatim>\<open>Log\<close>, \<^verbatim>\<open>Log_Crash\<close>: \<^verbatim>\<open>log.c\<close>; a crash after any prefix of the disk writes of a commit
    leaves, after recovery, all blocks of the transaction or none.
  \<^item> \<^verbatim>\<open>Memory\<close>, \<^verbatim>\<open>Kalloc\<close>: \<^verbatim>\<open>string.c\<close> and \<^verbatim>\<open>kalloc.c\<close>.
  \<^item> \<^verbatim>\<open>Ring\<close>, \<^verbatim>\<open>Pipe\<close>: ring buffers with free-running counters as a locale, and \<^verbatim>\<open>pipe.c\<close>.
  \<^item> \<^verbatim>\<open>Ulib\<close>, \<^verbatim>\<open>Format\<close>: \<^verbatim>\<open>ulib.c\<close>; \<^verbatim>\<open>cprintf\<close> and \<^verbatim>\<open>printf\<close>.
  \<^item> \<^verbatim>\<open>Console\<close>, \<^verbatim>\<open>Line_Editor\<close>, \<^verbatim>\<open>Kbd\<close>: screen, line editing and keyboard.
  \<^item> \<^verbatim>\<open>Fs\<close>, \<^verbatim>\<open>File\<close>: \<^verbatim>\<open>fs.c\<close>, \<^verbatim>\<open>file.c\<close>.
  \<^item> \<^verbatim>\<open>Vm\<close>, \<^verbatim>\<open>Vm_Map\<close>: \<^verbatim>\<open>vm.c\<close>; mapping pages extends the translation exactly as asked.
  \<^item> \<^verbatim>\<open>Proc\<close>, \<^verbatim>\<open>Proc_Table\<close>, \<^verbatim>\<open>Sched\<close>, \<^verbatim>\<open>Fairness\<close>: \<^verbatim>\<open>proc.c\<close>; the operations, what they do to
    the process table, the processors running them together as a step relation with its
    invariant, and what follows from it.
  \<^item> \<^verbatim>\<open>Syscall\<close>, \<^verbatim>\<open>Sysfile\<close>, \<^verbatim>\<open>Exec\<close>, \<^verbatim>\<open>Trap\<close>: arguments and process calls (\<^verbatim>\<open>syscall.c\<close>, \<^verbatim>\<open>sysproc.c\<close>),
    file calls (\<^verbatim>\<open>sysfile.c\<close>), \<^verbatim>\<open>exec.c\<close>, dispatch and the trap handler (\<^verbatim>\<open>trap.c\<close>); accepted arguments
    lie inside the process, and a killed process does not return to user mode.
  \<^item> \<^verbatim>\<open>Descriptors\<close>: segment and gate descriptors of \<^verbatim>\<open>mmu.h\<close>, and what they protect.
  \<^item> \<^verbatim>\<open>Fs_Frame\<close>, \<^verbatim>\<open>Image\<close>: the file system leaves the records above it alone; \<^verbatim>\<open>exec\<close> takes effect
    completely or not at all, and no process grows into the kernel.
  \<^item> \<^verbatim>\<open>Refs\<close>, \<^verbatim>\<open>Fd_Count\<close>: reference counts of open files equal the number of descriptors, across all
    system calls.
  \<^item> \<^verbatim>\<open>Grep\<close>: the pattern matcher and the filter of \<^verbatim>\<open>grep.c\<close>.

  \<^bold>\<open>Bounds.\<close> Loops over a fixed table are counted loops. The loops over an address range
  (\<^verbatim>\<open>mappages\<close>, \<^verbatim>\<open>freerange\<close>) carry as fuel the number of pages of the 32-bit address space;
  a loop that uses it all has wrapped around and would not end, which is \<open>Diverge\<close>, and the
  theorems show that it does not happen. Other loops are functions with a termination proof.

  \<^bold>\<open>Not modelled.\<close> Boot code, assembly and device registers (\<^verbatim>\<open>lapic.c\<close>, \<^verbatim>\<open>ioapic.c\<close>,
  \<^verbatim>\<open>picirq.c\<close>, \<^verbatim>\<open>ide.c\<close>, \<^verbatim>\<open>mp.c\<close>): they configure hardware whose behaviour is not part of the sources.
  The task-state descriptor of \<^verbatim>\<open>switchuvm\<close>. Waiting inside the log, a sleep lock, a pipe or the
  console is the outcome \<open>Sleep\<close> and is not continued; waiting in \<^verbatim>\<open>wait\<close> and \<^verbatim>\<open>sleep\<close> is. The shell,
  the user memory allocator, the editors, the small user programs other than \<^verbatim>\<open>grep\<close>, the program
  that builds the disk image, and the test programs. The disassembly listings are generated files.
\<close>

end
